(* ===== verification/Prelude.thy ===== *)
theory Prelude
  imports Main "HOL-Library.Word"
begin

unbundle bit_operations_syntax

text \<open>
  Shared material of the development: names for the C integer types, the
  byte-level view of integers on the little-endian host the library targets,
  and the generic facts about words and lists that the component proofs use.

  A C \<^verbatim>\<open>uintN_t\<close> is an \<open>N\<close>-bit word, so addition and subtraction wrap as in C.
  A buffer given by a pointer and a length is the list of its bytes.
\<close>

type_synonym u8 = "8 word"
type_synonym u16 = "16 word"
type_synonym u32 = "32 word"
type_synonym u64 = "64 word"

named_theorems word_nat \<open>word operations read as operations on natural numbers\<close>

section \<open>Words as natural numbers\<close>

lemma unat_lt_2p [word_nat]: "unat (x :: 'a::len word) < 2 ^ LENGTH('a)"
  by (rule unsigned_less)

lemma unat_u8_lt: "unat (x :: u8) < 256"
  using unat_lt_2p [of x] by simp

lemma unat_u16_lt: "unat (x :: u16) < 65536"
  using unat_lt_2p [of x] by simp

lemma unat_u32_lt: "unat (x :: u32) < 4294967296"
  using unat_lt_2p [of x] by simp

lemma unat_drop_bit_word: "unat (drop_bit n (w :: 'a::len word)) = unat w div 2 ^ n"
  unfolding unsigned_drop_bit_eq by (simp add: drop_bit_eq_div take_bit_nat_eq_self)

lemma unat_take_bit_word:
  "n \<le> LENGTH('a) \<Longrightarrow> unat (take_bit n (w :: 'a::len word)) = unat w mod 2 ^ n"
  unfolding unsigned_take_bit_eq by (simp add: take_bit_eq_mod)

lemma and_0xFFFF_u32: "(s :: u32) AND 0xFFFF = take_bit 16 s"
  by (simp add: take_bit_eq_mask mask_eq_exp_minus_1)

lemma unat_and_0xFFFF [word_nat]: "unat ((s :: u32) AND 0xFFFF) = unat s mod 65536"
  by (simp add: and_0xFFFF_u32 unat_take_bit_word)

lemma unat_ucast_up_word:
  "LENGTH('a) \<le> LENGTH('b) \<Longrightarrow> unat (ucast (x :: 'a::len word) :: 'b::len word) = unat x"
  by (simp add: unsigned_ucast_eq take_bit_nat_eq_self_iff)
     (meson unsigned_less order_less_le_trans one_le_numeral power_increasing)

lemma unat_add_no_wrap:
  "unat x + unat y < 2 ^ LENGTH('a) \<Longrightarrow> unat ((x :: 'a::len word) + y) = unat x + unat y"
  by (simp add: unat_word_ariths)

lemma unat_sub_no_wrap:
  "(y :: 'a::len word) \<le> x \<Longrightarrow> unat (x - y) = unat x - unat y"
  by (rule unat_sub)

lemma unat_mult_no_wrap:
  "unat x * unat y < 2 ^ LENGTH('a) \<Longrightarrow> unat ((x :: 'a::len word) * y) = unat x * unat y"
  by (simp add: unat_word_ariths)

lemma unat_not_word: "unat (NOT (x :: 'a::len word)) = 2 ^ LENGTH('a) - 1 - unat x"
proof -
  have "NOT x = - 1 - x" by (simp add: not_eq_complement)
  then show ?thesis
    by (simp add: unat_sub_no_wrap unsigned_minus_1_eq_mask mask_eq_exp_minus_1)
qed

lemma word_eq_iff_unat: "(x :: 'a::len word) = y \<longleftrightarrow> unat x = unat y"
  by (simp add: word_unat_eq_iff)

lemma next_multiple_nat:
  fixes m k :: nat
  assumes "0 < k"
  shows "m + (k - m mod k) = k * (m div k + 1)"
proof -
  have "m mod k < k" using assms by simp
  moreover have "k * (m div k) + m mod k = m" by (rule mult_div_mod_eq)
  ultimately show ?thesis unfolding distrib_left by linarith
qed

section \<open>Counting in lists of thread states\<close>

definition count_if :: "('a \<Rightarrow> bool) \<Rightarrow> 'a list \<Rightarrow> nat" where
  "count_if P xs = length (filter P xs)"

lemma count_if_update:
  assumes "i < length xs"
  shows "count_if P (xs[i := x]) + (if P (xs ! i) then 1 else 0) =
         count_if P xs + (if P x then 1 else 0)"
proof -
  have "count_if P xs = count_if P (take i xs @ xs ! i # drop (Suc i) xs)"
    using assms by (simp add: id_take_nth_drop [symmetric])
  then show ?thesis
    using assms by (simp add: upd_conv_take_nth_drop count_if_def)
qed

lemma count_if_pos: "i < length xs \<Longrightarrow> P (xs ! i) \<Longrightarrow> 0 < count_if P xs"
  by (auto simp: count_if_def filter_empty_conv)

lemma count_if_zero: "count_if P xs = 0 \<Longrightarrow> i < length xs \<Longrightarrow> \<not> P (xs ! i)"
  using count_if_pos [of i xs P] by auto

lemma count_if_two:
  assumes "i < length xs" "j < length xs" "i \<noteq> j" "P (xs ! i)" "P (xs ! j)"
  shows "2 \<le> count_if P xs"
proof -
  have "{i, j} \<subseteq> {k. k < length xs \<and> P (xs ! k)}" using assms by auto
  then have "card {i, j} \<le> card {k. k < length xs \<and> P (xs ! k)}"
    by (rule card_mono [rotated]) simp
  then show ?thesis using assms(3) by (simp add: count_if_def length_filter_conv_card)
qed

lemma sum_list_update_add:
  fixes xs :: "nat list"
  shows "i < length xs \<Longrightarrow> sum_list (xs[i := x]) + xs ! i = sum_list xs + x"
  by (induction xs arbitrary: i) (auto split: nat.split)

lemma nth_le_sum_list: "i < length xs \<Longrightarrow> xs ! i \<le> sum_list (xs :: nat list)"
  by (simp add: member_le_sum_list)

section \<open>Integers in memory\<close>

text \<open>
  The host is little-endian (the AF_XDP targets of the repository): a 16-bit
  integer in memory is its low byte followed by its high byte.
\<close>

definition le16 :: "u8 \<Rightarrow> u8 \<Rightarrow> u16" where
  "le16 a b = ucast a OR push_bit 8 (ucast b)"

definition bytes_of_u16 :: "u16 \<Rightarrow> u8 list" where
  "bytes_of_u16 w = [ucast w, ucast (drop_bit 8 w)]"

definition bytes_of_u32 :: "u32 \<Rightarrow> u8 list" where
  "bytes_of_u32 w =
     [ucast w, ucast (drop_bit 8 w), ucast (drop_bit 16 w), ucast (drop_bit 24 w)]"

lemma unat_ucast_u8: "unat (ucast (w :: 'a::len word) :: u8) = unat w mod 256"
  by (simp add: unsigned_ucast_eq take_bit_eq_mod)

lemma unat_push_bit_u16_u8 [word_nat]: "unat (push_bit 8 (ucast (b :: u8)) :: u16) = 256 * unat b"
proof -
  have "256 * unat b < 65536" using unat_u8_lt [of b] by simp
  then show ?thesis
    by (simp add: push_bit_eq_mult unat_word_ariths unat_ucast_up_word mult.commute)
qed

lemma le16_add: "le16 a b = ucast a + push_bit 8 (ucast b)"
  unfolding le16_def
  by (rule disjunctive_add [symmetric])
     (auto simp: bit_push_bit_iff bit_ucast_iff dest: bit_imp_le_length)

lemma unat_le16 [word_nat]: "unat (le16 a b) = unat a + 256 * unat b"
proof -
  have "unat a + 256 * unat b < 65536" using unat_u8_lt [of a] unat_u8_lt [of b] by simp
  then show ?thesis
    by (simp add: le16_add unat_word_ariths unat_push_bit_u16_u8 unat_ucast_up_word)
qed

lemma le16_bytes_of_u16 [simp]: "le16 (ucast w) (ucast (drop_bit 8 w)) = w"
proof -
  have "unat w div 256 < 256" using unat_u16_lt [of w] by simp
  then show ?thesis
    by (simp add: word_unat_eq_iff unat_le16 unat_ucast_u8 unat_drop_bit_word)
qed

definition htons :: "u16 \<Rightarrow> u16" where
  "htons w = push_bit 8 w OR drop_bit 8 w"

definition htonl :: "u32 \<Rightarrow> u32" where
  "htonl w = push_bit 24 w OR (push_bit 8 w AND 0xFF0000) OR
             (drop_bit 8 w AND 0xFF00) OR drop_bit 24 w"

text \<open>\<open>memcpy\<close> of four bytes into a \<open>uint32_t\<close>.\<close>

definition load32 :: "u8 list \<Rightarrow> u32" where
  "load32 bs = ucast (bs ! 0) OR push_bit 8 (ucast (bs ! 1)) OR
               push_bit 16 (ucast (bs ! 2)) OR push_bit 24 (ucast (bs ! 3))"

lemma htons_htons [simp]: "htons (htons w) = w"
proof (rule bit_word_eqI)
  fix n assume n: "n < LENGTH(16)"
  have "bit (htons x) m = (if m < 8 then bit x (8 + m) else m < 16 \<and> bit x (m - 8))" for x m
    unfolding htons_def by (auto simp: bit_simps dest: bit_imp_le_length)
  then show "bit (htons (htons w)) n = bit w n" using n by (auto simp: less_diff_conv2)
qed

lemma load32_bytes [simp]: "load32 (bytes_of_u32 w @ ys) = w"
proof (rule bit_word_eqI)
  fix n assume "n < LENGTH(32)"
  then consider "n < 8" | "8 \<le> n" "n < 16" | "16 \<le> n" "n < 24" | "24 \<le> n" "n < 32" by force
  then show "bit (load32 (bytes_of_u32 w @ ys)) n = bit w n"
    unfolding load32_def bytes_of_u32_def by cases (auto simp: bit_simps less_diff_conv2)
qed

lemma htonl_masks: "(0xFF0000 :: u32) = push_bit 16 (mask 8)" "(0xFF00 :: u32) = push_bit 8 (mask 8)"
  by (simp_all add: mask_eq_decr_exp)

lemma bit_htonl:
  "n < 8 \<Longrightarrow> bit (htonl w) n = bit w (24 + n)"
  "8 \<le> n \<Longrightarrow> n < 16 \<Longrightarrow> bit (htonl w) n = bit w (8 + n)"
  "16 \<le> n \<Longrightarrow> n < 24 \<Longrightarrow> bit (htonl w) n = bit w (n - 8)"
  "24 \<le> n \<Longrightarrow> n < 32 \<Longrightarrow> bit (htonl w) n = bit w (n - 24)"
  unfolding htonl_def htonl_masks by (auto simp: bit_simps dest: bit_imp_le_length)

lemma htonl_htonl [simp]: "htonl (htonl w) = w"
proof (rule bit_word_eqI)
  fix n assume "n < LENGTH(32)"
  then consider "n < 8" | "8 \<le> n" "n < 16" | "16 \<le> n" "n < 24" | "24 \<le> n" "n < 32" by force
  then show "bit (htonl (htonl w)) n = bit w n" by cases (simp_all add: bit_htonl)
qed

text \<open>\<open>memcmp(a, b, n) == 0\<close>.\<close>

definition same_bytes :: "nat \<Rightarrow> u8 list \<Rightarrow> u8 list \<Rightarrow> bool" where
  "same_bytes n a b \<longleftrightarrow> take n a = take n b"

lemma all_less_add: "(\<forall>i < a + b. P i) \<longleftrightarrow> (\<forall>i < a. P i) \<and> (\<forall>i < b. P (a + i))" for a b :: nat
proof
  assume r: "(\<forall>i < a. P i) \<and> (\<forall>i < b. P (a + i))"
  show "\<forall>i < a + b. P i"
  proof (intro allI impI)
    fix i assume "i < a + b"
    then show "P i" using r by (cases "i < a") (auto dest: spec [of _ "i - a"])
  qed
qed auto

section \<open>Address families\<close>

datatype sa_family = AF_INET | AF_INET6 | AF_UNSPEC

end
