(* ===== verification/Checksum.thy ===== *)
theory Checksum
  imports Prelude
begin

text \<open>
  The Internet checksum of \<^verbatim>\<open>src/lib/base.c\<close>: \<open>checksum_partial\<close> adds the buffer's
  native 16-bit words to a 32-bit accumulator, \<open>checksum\<close> folds the carries back
  and complements, and \<open>checksum_protocol\<close> prefixes the IPv4 pseudo header.

  The lemmas show that folding ends in a 16-bit value congruent to the sum modulo
  65535, that the accumulator does not wrap for the buffers the stack hands it, and
  what a receiver's test for zero accepts.
\<close>

section \<open>The code\<close>

fun checksum_partial :: "u8 list \<Rightarrow> u32 \<Rightarrow> u32" where
  "checksum_partial [] acc = acc"
| "checksum_partial [b] acc = acc + ucast (le16 b 0)"
| "checksum_partial (a # b # rest) acc = checksum_partial rest (acc + ucast (le16 a b))"

lemma fold_step_less:
  fixes s :: u32
  assumes "drop_bit 16 s \<noteq> 0"
  shows "unat ((s AND 0xFFFF) + drop_bit 16 s) < unat s"
proof -
  have hi: "unat (drop_bit 16 s) = unat s div 65536" by (simp add: unat_drop_bit_word)
  have "unat (drop_bit 16 s) \<noteq> 0" using assms by (simp add: unat_eq_0)
  with hi have pos: "0 < unat s div 65536" by simp
  have "unat s div 65536 < 65536" using unat_u32_lt [of s] by simp
  then have "unat ((s AND 0xFFFF) + drop_bit 16 s) = unat s mod 65536 + unat s div 65536"
    by (subst unat_add_no_wrap) (auto simp: hi unat_and_0xFFFF)
  moreover have "unat s = unat s mod 65536 + 65536 * (unat s div 65536)"
    by (rule mod_mult_div_eq [symmetric])
  ultimately show ?thesis using pos by linarith
qed

function checksum_fold :: "u32 \<Rightarrow> u32" where
  "checksum_fold acc =
     (if drop_bit 16 acc \<noteq> 0 then checksum_fold ((acc AND 0xFFFF) + drop_bit 16 acc) else acc)"
  by pat_completeness auto
termination
  by (relation "measure unat") (auto simp: fold_step_less)

declare checksum_fold.simps [simp del]

definition checksum :: "u8 list \<Rightarrow> u32 \<Rightarrow> u16" where
  "checksum buff start_sum = ucast (NOT (checksum_fold (checksum_partial buff start_sum)))"

definition pseudo_head :: "u32 \<Rightarrow> u32 \<Rightarrow> u8 \<Rightarrow> u16 \<Rightarrow> u8 list" where
  "pseudo_head saddr daddr proto len =
     bytes_of_u32 saddr @ bytes_of_u32 daddr @ [0, proto] @ bytes_of_u16 len"

definition checksum_protocol :: "u8 list \<Rightarrow> u32 \<Rightarrow> u32 \<Rightarrow> u8 \<Rightarrow> u16" where
  "checksum_protocol data saddr daddr protocol =
     (let head = pseudo_head saddr daddr protocol (htons (of_nat (length data)))
      in checksum data (checksum_partial head 0))"

section \<open>The sum as a natural number\<close>

fun csum_words :: "u8 list \<Rightarrow> nat" where
  "csum_words [] = 0"
| "csum_words [b] = unat b"
| "csum_words (a # b # rest) = unat a + 256 * unat b + csum_words rest"

lemma csum_words_append:
  "even (length xs) \<Longrightarrow> csum_words (xs @ ys) = csum_words xs + csum_words ys"
  by (induction xs rule: csum_words.induct) auto

lemma checksum_partial_append:
  "even (length xs) \<Longrightarrow> checksum_partial (xs @ ys) s = checksum_partial ys (checksum_partial xs s)"
  by (induction xs s rule: checksum_partial.induct) auto

lemma csum_words_bound: "csum_words bs \<le> 65535 * ((length bs + 1) div 2)"
proof (induction bs rule: csum_words.induct)
  case (2 b)
  then show ?case using unat_u8_lt [of b] by simp
next
  case (3 a b rest)
  then show ?case using unat_u8_lt [of a] unat_u8_lt [of b] by simp
qed simp

lemma unat_checksum_partial:
  "unat s + csum_words bs < 2 ^ 32 \<Longrightarrow> unat (checksum_partial bs s) = unat s + csum_words bs"
proof (induction bs s rule: checksum_partial.induct)
  case (2 b acc)
  then show ?case by (simp add: unat_add_no_wrap unat_ucast_up_word unat_le16)
next
  case (3 a b rest acc)
  have "unat (acc + ucast (le16 a b)) = unat acc + (unat a + 256 * unat b)"
    using 3(2) by (subst unat_add_no_wrap) (auto simp: unat_ucast_up_word unat_le16)
  with 3 show ?case by simp
qed simp

text \<open>
  A datagram of at most 65535 bytes added to the partial sum of a pseudo header (at most
  \<open>2\<^sup>2\<^sup>0\<close>) never wraps the accumulator.
\<close>

lemma csum_no_wrap:
  assumes "unat s \<le> 2 ^ 20" "length bs \<le> 65535"
  shows "unat s + csum_words bs < 2 ^ 32"
proof -
  have "(length bs + 1) div 2 \<le> 32768" using assms(2) by simp
  then have "csum_words bs \<le> 65535 * 32768"
    using csum_words_bound [of bs] by (meson le_trans mult_le_mono2)
  with assms(1) show ?thesis by simp
qed

section \<open>Folding the carries\<close>

lemma fold_value_step:
  fixes n :: nat
  assumes "0 < n"
  shows "0 < n mod 65536 + n div 65536"
    and "(n mod 65536 + n div 65536 - 1) mod 65535 = (n - 1) mod 65535"
proof -
  define lo where "lo = n mod 65536"
  define hi where "hi = n div 65536"
  have n: "n = 65536 * hi + lo" by (simp add: lo_def hi_def)
  show pos: "0 < n mod 65536 + n div 65536"
    using assms n unfolding lo_def hi_def by (cases "n div 65536 = 0") auto
  then have "n - 1 = 65535 * hi + (lo + hi - 1)"
    using n unfolding lo_def [symmetric] hi_def [symmetric] by simp
  then show "(n mod 65536 + n div 65536 - 1) mod 65535 = (n - 1) mod 65535"
    by (simp add: lo_def [symmetric] hi_def [symmetric])
qed

lemma unat_checksum_fold:
  "unat (checksum_fold s) = (if s = 0 then 0 else (unat s - 1) mod 65535 + 1)"
proof (induction s rule: checksum_fold.induct)
  case (1 s)
  have hi: "unat (drop_bit 16 s) = unat s div 65536" by (simp add: unat_drop_bit_word)
  show ?case
  proof (cases "drop_bit 16 s = 0")
    case True
    then have "unat s div 65536 = 0" using hi by simp
    then have "unat s < 65536" by (simp add: div_eq_0_iff)
    moreover have "checksum_fold s = s" using True by (simp add: checksum_fold.simps [of s])
    ultimately show ?thesis by (cases "s = 0") (auto simp: unat_gt_0 Suc_le_eq)
  next
    case False
    then have s0: "0 < unat s" using hi by (auto simp: unat_gt_0)
    let ?t = "(s AND 0xFFFF) + drop_bit 16 s"
    have "unat s div 65536 < 65536" using unat_u32_lt [of s] by simp
    then have t: "unat ?t = unat s mod 65536 + unat s div 65536"
      by (subst unat_add_no_wrap) (auto simp: hi unat_and_0xFFFF)
    have "?t \<noteq> 0" using fold_value_step(1) [OF s0] t by auto
    with 1 False have "unat (checksum_fold s) = (unat ?t - 1) mod 65535 + 1"
      by (simp add: checksum_fold.simps [of s])
    also have "\<dots> = (unat s - 1) mod 65535 + 1"
      using fold_value_step(2) [OF s0] t by simp
    finally show ?thesis using s0 by auto
  qed
qed

lemma checksum_fold_16bit: "unat (checksum_fold s) < 65536"
  unfolding unat_checksum_fold
  using mod_less_divisor [of 65535 "unat s - 1"] by (simp del: mod_less_divisor)

lemma unat_checksum: "unat (checksum bs s) = 65535 - unat (checksum_fold (checksum_partial bs s))"
proof -
  let ?f = "checksum_fold (checksum_partial bs s)"
  have "unat (NOT ?f) = 4294967295 - unat ?f"
    by (simp add: unat_not_word)
  then have "unat (checksum bs s) = (4294967295 - unat ?f) mod 65536"
    by (simp add: checksum_def unsigned_ucast_eq take_bit_eq_mod)
  also have "4294967295 - unat ?f = 65535 * 65536 + (65535 - unat ?f)"
    using checksum_fold_16bit [of "checksum_partial bs s"] by simp
  finally show ?thesis by (subst (asm) mod_mult_self3) simp
qed

section \<open>What a receiver accepts\<close>

lemma checksum_zero_iff_sum:
  assumes "unat s + csum_words bs < 2 ^ 32"
  shows "checksum bs s = 0 \<longleftrightarrow>
         0 < unat s + csum_words bs \<and> (unat s + csum_words bs) mod 65535 = 0"
proof -
  let ?n = "unat s + csum_words bs"
  have n: "unat (checksum_partial bs s) = ?n" by (rule unat_checksum_partial [OF assms])
  have "checksum bs s = 0 \<longleftrightarrow> unat (checksum_fold (checksum_partial bs s)) = 65535"
    using unat_checksum [of bs s] checksum_fold_16bit [of "checksum_partial bs s"]
    by (auto simp: word_eq_iff_unat)
  also have "\<dots> \<longleftrightarrow> 0 < ?n \<and> (?n - 1) mod 65535 = 65534"
    unfolding unat_checksum_fold word_eq_iff_unat n by auto
  also have "\<dots> \<longleftrightarrow> 0 < ?n \<and> ?n mod 65535 = 0"
    by (cases ?n) (auto simp: mod_Suc)
  finally show ?thesis .
qed

lemma csum_words_field:
  assumes "even (length pre)"
  shows "csum_words (pre @ bytes_of_u16 c @ post) =
         csum_words (pre @ [0, 0] @ post) + unat c"
proof -
  have "csum_words (bytes_of_u16 c @ post) = unat c + csum_words post"
    using unat_le16 [of "ucast c" "ucast (drop_bit 8 c)"] by (simp add: bytes_of_u16_def)
  then show ?thesis using assms by (simp add: csum_words_append)
qed

text \<open>
  A checksum field at an even offset that is filled with the complement of the sum
  computed over a zero field makes the whole buffer verify.
\<close>

lemma checksum_filled_verifies:
  assumes "even (length pre)"
    and "unat s \<le> 2 ^ 20" and "length (pre @ [0, 0] @ post) \<le> 65535"
  shows "checksum (pre @ bytes_of_u16 (checksum (pre @ [0, 0] @ post) s) @ post) s = 0"
proof -
  let ?z = "pre @ [0, 0] @ post" and ?c = "checksum (pre @ [0, 0] @ post) s"
  let ?b = "pre @ bytes_of_u16 ?c @ post"
  let ?n = "unat s + csum_words ?z"
  have len: "length ?b = length ?z" by (simp add: bytes_of_u16_def)
  have nw: "unat s + csum_words ?b < 2 ^ 32"
    using assms(2,3) len by (intro csum_no_wrap) auto
  have z: "unat (checksum_partial ?z s) = ?n"
    using assms(2,3) by (intro unat_checksum_partial csum_no_wrap) auto
  have tot: "unat s + csum_words ?b = ?n + unat ?c"
    using csum_words_field [OF assms(1)] by simp
  have c: "unat ?c = 65535 - (if ?n = 0 then 0 else (?n - 1) mod 65535 + 1)"
    using z unfolding unat_checksum unat_checksum_fold by (auto simp: word_eq_iff_unat)
  have "0 < ?n + unat ?c \<and> (?n + unat ?c) mod 65535 = 0"
  proof (cases "?n = 0")
    case True
    with c show ?thesis by simp
  next
    case False
    let ?m = "?n - 1"
    have "?n + unat ?c = ?m + (65535 - ?m mod 65535)"
      using False c mod_less_divisor [of 65535 ?m] by auto
    also have "\<dots> = 65535 * (?m div 65535 + 1)"
      by (rule next_multiple_nat) simp
    finally show ?thesis using False by simp
  qed
  then show ?thesis unfolding checksum_zero_iff_sum [OF nw] tot .
qed

lemma pseudo_head_sum: "unat (checksum_partial (pseudo_head sa da p len) 0) \<le> 2 ^ 20"
proof -
  let ?h = "pseudo_head sa da p len"
  have len: "length ?h = 12" by (simp add: pseudo_head_def bytes_of_u16_def bytes_of_u32_def)
  have "csum_words ?h \<le> 65535 * 6" using csum_words_bound [of ?h] by (simp add: len)
  then show ?thesis by (subst unat_checksum_partial) auto
qed

section \<open>Properties\<close>

text \<open>
  C25. A transport segment of at most 65535 bytes whose checksum field (two bytes at an even
  offset) is filled with \<open>checksum_protocol\<close> of the segment with that field zeroed passes
  the receiver's test: \<open>checksum_protocol\<close> of the transmitted bytes, under the same
  pseudo header, is zero.
\<close>

theorem transport_checksum_accepts:
  assumes "even (length pre)" and "length (pre @ [0, 0] @ post) \<le> 65535"
  shows "checksum_protocol
           (pre @ bytes_of_u16 (checksum_protocol (pre @ [0, 0] @ post) sa da p) @ post) sa da p = 0"
  using checksum_filled_verifies [OF assms(1) pseudo_head_sum assms(2)]
  by (simp add: checksum_protocol_def bytes_of_u16_def Let_def)

lemma transport_checksum_accepts_witness:
  "checksum_protocol ([1, 2, 3, 4] @
     bytes_of_u16 (checksum_protocol ([1, 2, 3, 4] @ [0, 0] @ [9]) 7 8 17) @ [9]) 7 8 17 = 0"
  by (rule transport_checksum_accepts) simp_all

text \<open>
  A receiver accepts a buffer exactly when the sum of its 16-bit words and the start
  value is a positive multiple of 65535, for every datagram length, with no wrap of the
  32-bit accumulator: changing one word to a value that is not congruent to it
  modulo 65535 is always detected.
\<close>

theorem checksum_accepts_iff:
  assumes "unat s \<le> 2 ^ 20" and "length bs \<le> 65535"
  shows "checksum bs s = 0 \<longleftrightarrow>
         0 < unat s + csum_words bs \<and> (unat s + csum_words bs) mod 65535 = 0"
  by (rule checksum_zero_iff_sum [OF csum_no_wrap [OF assms]])

lemma checksum_accepts_iff_witness:
  "checksum [0xFF, 0x0F, 0, 0xF0] 0 = 0 \<longleftrightarrow>
     0 < unat (0 :: u32) + csum_words [0xFF, 0x0F, 0, 0xF0] \<and>
     (unat (0 :: u32) + csum_words [0xFF, 0x0F, 0, 0xF0]) mod 65535 = 0"
  by (rule checksum_accepts_iff) simp_all

end
