(* ===== verification/Sync.thy ===== *)
theory Sync
  imports Prelude
begin

text \<open>
  The lock-free primitives of \<^verbatim>\<open>src/lib/base.h\<close>: the reference counter
  (\<open>ref_inc\<close>, \<open>ref_inc_not_zero\<close>, \<open>ref_dec_and_test\<close>) and the spinning
  reader/writer lock (\<open>spin_rwlock_rdlock\<close>, \<open>spin_rwlock_wrlock\<close>,
  \<open>spin_rwlock_unlock\<close>).

  Each C function is split at its atomic accesses, so a step of the relation is one
  atomic load, compare-exchange, store or fetch-and-add of one thread, and any
  interleaving of any number of threads is a run. A weak compare-exchange may fail
  although the value matches.
\<close>

section \<open>Reference counting\<close>

text \<open>
  \<open>held\<close> is the number of references the thread owns; it is what the callers of
  \<^verbatim>\<open>GET_REF\<close> and \<^verbatim>\<open>PUT_REF\<close> keep track of by their pointers. \<open>IncTry old\<close> and
  \<open>DecTry old\<close> are the loops of \<open>ref_inc_not_zero\<close> and \<open>ref_dec_and_test\<close> with
  their local \<open>old\<close>.
\<close>

datatype ref_pc = RIdle | IncTry int | DecTry int

record ref_sys =
  ref_cnt :: int
  freed :: nat
  ref_pcs :: "ref_pc list"
  held :: "nat list"

definition ref_init :: "nat \<Rightarrow> nat \<Rightarrow> ref_sys" where
  "ref_init n owner = \<lparr>ref_cnt = 1, freed = 0, ref_pcs = replicate n RIdle,
                       held = (replicate n 0)[owner := 1]\<rparr>"

definition set_ref_pc :: "nat \<Rightarrow> ref_pc \<Rightarrow> ref_sys \<Rightarrow> ref_sys" where
  "set_ref_pc t p s = s\<lparr>ref_pcs := (ref_pcs s)[t := p]\<rparr>"

definition add_held :: "nat \<Rightarrow> ref_sys \<Rightarrow> ref_sys" where
  "add_held t s = s\<lparr>held := (held s)[t := held s ! t + 1]\<rparr>"

definition drop_held :: "nat \<Rightarrow> ref_sys \<Rightarrow> ref_sys" where
  "drop_held t s = s\<lparr>held := (held s)[t := held s ! t - 1]\<rparr>"

inductive ref_step :: "ref_sys \<Rightarrow> ref_sys \<Rightarrow> bool" where
  ref_inc:
    "t < length (ref_pcs s) \<Longrightarrow> ref_pcs s ! t = RIdle \<Longrightarrow> 0 < held s ! t \<Longrightarrow>
     ref_step s (add_held t (s\<lparr>ref_cnt := ref_cnt s + 1\<rparr>))"
| inc_not_zero_load:
    "t < length (ref_pcs s) \<Longrightarrow> ref_pcs s ! t = RIdle \<Longrightarrow>
     ref_step s (set_ref_pc t (IncTry (ref_cnt s)) s)"
| inc_not_zero_fail:
    "t < length (ref_pcs s) \<Longrightarrow> ref_pcs s ! t = IncTry 0 \<Longrightarrow> ref_step s (set_ref_pc t RIdle s)"
| inc_not_zero_cas:
    "t < length (ref_pcs s) \<Longrightarrow> ref_pcs s ! t = IncTry old \<Longrightarrow> old \<noteq> 0 \<Longrightarrow> ref_cnt s = old \<Longrightarrow>
     ref_step s (set_ref_pc t RIdle (add_held t (s\<lparr>ref_cnt := old + 1\<rparr>)))"
| inc_not_zero_cas_fail:
    "t < length (ref_pcs s) \<Longrightarrow> ref_pcs s ! t = IncTry old \<Longrightarrow> old \<noteq> 0 \<Longrightarrow>
     ref_step s (set_ref_pc t (IncTry (ref_cnt s)) s)"
| dec_load:
    "t < length (ref_pcs s) \<Longrightarrow> ref_pcs s ! t = RIdle \<Longrightarrow> 0 < held s ! t \<Longrightarrow>
     ref_step s (set_ref_pc t (DecTry (ref_cnt s)) s)"
| dec_zero:
    "t < length (ref_pcs s) \<Longrightarrow> ref_pcs s ! t = DecTry 0 \<Longrightarrow> ref_step s (set_ref_pc t RIdle s)"
| dec_cas:
    "t < length (ref_pcs s) \<Longrightarrow> ref_pcs s ! t = DecTry old \<Longrightarrow> old \<noteq> 0 \<Longrightarrow> ref_cnt s = old \<Longrightarrow>
     ref_step s (set_ref_pc t RIdle (drop_held t
       (s\<lparr>ref_cnt := old - 1, freed := freed s + (if old = 1 then 1 else 0)\<rparr>)))"
| dec_cas_fail:
    "t < length (ref_pcs s) \<Longrightarrow> ref_pcs s ! t = DecTry old \<Longrightarrow> old \<noteq> 0 \<Longrightarrow>
     ref_step s (set_ref_pc t (DecTry (ref_cnt s)) s)"

inductive ref_reachable :: "nat \<Rightarrow> nat \<Rightarrow> ref_sys \<Rightarrow> bool" for n owner where
  start: "ref_reachable n owner (ref_init n owner)"
| step: "ref_reachable n owner s \<Longrightarrow> ref_step s s' \<Longrightarrow> ref_reachable n owner s'"

text \<open>
  The counter is the number of references held, the object has been freed exactly
  when it is zero, and a thread inside \<open>ref_dec_and_test\<close> still owns the reference
  it gives up and has read a positive count.
\<close>

definition ref_inv :: "ref_sys \<Rightarrow> bool" where
  "ref_inv s \<longleftrightarrow>
     length (held s) = length (ref_pcs s) \<and>
     ref_cnt s = int (sum_list (held s)) \<and>
     freed s = (if ref_cnt s = 0 then 1 else 0) \<and>
     (\<forall>t < length (ref_pcs s). \<forall>old. ref_pcs s ! t = DecTry old \<longrightarrow> 0 < held s ! t \<and> 0 < old)"

lemmas ref_defs = set_ref_pc_def add_held_def drop_held_def

lemma ref_inv_init: "owner < n \<Longrightarrow> ref_inv (ref_init n owner)"
  using sum_list_update_add [of owner "replicate n 0" 1]
  by (auto simp: ref_inv_def ref_init_def)

lemma held_le_cnt:
  "ref_inv s \<Longrightarrow> t < length (ref_pcs s) \<Longrightarrow> int (held s ! t) \<le> ref_cnt s"
  using nth_le_sum_list [of t "held s"] by (simp add: ref_inv_def)

lemma ref_inv_step:
  assumes "ref_step s s'" "ref_inv s"
  shows "ref_inv s'"
  using assms
proof (induction rule: ref_step.induct)
  case (ref_inc t s)
  then show ?case
    using sum_list_update_add [of t "held s" "held s ! t + 1"] held_le_cnt [of s t]
    by (auto simp: ref_inv_def ref_defs nth_list_update)
next
  case (inc_not_zero_cas t s old)
  then show ?case
    using sum_list_update_add [of t "held s" "held s ! t + 1"]
    by (auto simp: ref_inv_def ref_defs nth_list_update)
next
  case (dec_load t s)
  then show ?case
    using held_le_cnt [of s t] by (auto simp: ref_inv_def ref_defs nth_list_update)
next
  case (dec_cas t s old)
  then have pos: "0 < held s ! t" by (auto simp: ref_inv_def)
  have "int (sum_list ((held s)[t := held s ! t - 1])) = int (sum_list (held s)) - 1"
  proof -
    have "t < length (held s)" using dec_cas by (simp add: ref_inv_def)
    from sum_list_update_add [OF this, of "held s ! t - 1"] pos show ?thesis by linarith
  qed
  with dec_cas show ?case
    by (auto simp: ref_inv_def ref_defs nth_list_update)
next
  case (dec_cas_fail t s old)
  then show ?case
    using held_le_cnt [of s t] by (fastforce simp: ref_inv_def ref_defs nth_list_update)
qed (auto simp: ref_inv_def ref_defs nth_list_update)

lemma ref_reachable_inv: "ref_reachable n owner s \<Longrightarrow> owner < n \<Longrightarrow> ref_inv s"
  by (induction rule: ref_reachable.induct) (auto simp: ref_inv_init ref_inv_step)

section \<open>The reader/writer lock\<close>

text \<open>
  A thread's program counter: outside, about to load the state in \<open>rdlock\<close>, with the
  loaded state, reading; about to compare-exchange in \<open>wrlock\<close>, writing; inside
  \<open>unlock\<close> with the loaded state, as a reader or as a writer.
\<close>

datatype rw_pc = Out | RdLoop | RdTry int | Reading | WrLoop | Writing
               | UnlockR int | UnlockW int

record rwlock =
  lock_state :: int
  rw_pcs :: "rw_pc list"

definition rwlock_init :: "nat \<Rightarrow> rwlock" where
  "rwlock_init n = \<lparr>lock_state = 0, rw_pcs = replicate n Out\<rparr>"

definition set_rw_pc :: "nat \<Rightarrow> rw_pc \<Rightarrow> rwlock \<Rightarrow> rwlock" where
  "set_rw_pc t p l = l\<lparr>rw_pcs := (rw_pcs l)[t := p]\<rparr>"

inductive rw_step :: "rwlock \<Rightarrow> rwlock \<Rightarrow> bool" where
  rd_call: "t < length (rw_pcs l) \<Longrightarrow> rw_pcs l ! t = Out \<Longrightarrow> rw_step l (set_rw_pc t RdLoop l)"
| rd_load: "t < length (rw_pcs l) \<Longrightarrow> rw_pcs l ! t = RdLoop \<Longrightarrow>
     rw_step l (set_rw_pc t (RdTry (lock_state l)) l)"
| rd_cas: "t < length (rw_pcs l) \<Longrightarrow> rw_pcs l ! t = RdTry s \<Longrightarrow> 0 \<le> s \<Longrightarrow> lock_state l = s \<Longrightarrow>
     rw_step l (set_rw_pc t Reading (l\<lparr>lock_state := s + 1\<rparr>))"
| rd_again: "t < length (rw_pcs l) \<Longrightarrow> rw_pcs l ! t = RdTry s \<Longrightarrow> rw_step l (set_rw_pc t RdLoop l)"
| wr_call: "t < length (rw_pcs l) \<Longrightarrow> rw_pcs l ! t = Out \<Longrightarrow> rw_step l (set_rw_pc t WrLoop l)"
| wr_cas: "t < length (rw_pcs l) \<Longrightarrow> rw_pcs l ! t = WrLoop \<Longrightarrow> lock_state l = 0 \<Longrightarrow>
     rw_step l (set_rw_pc t Writing (l\<lparr>lock_state := - 1\<rparr>))"
| unlock_rd: "t < length (rw_pcs l) \<Longrightarrow> rw_pcs l ! t = Reading \<Longrightarrow>
     rw_step l (set_rw_pc t (UnlockR (lock_state l)) l)"
| unlock_wr: "t < length (rw_pcs l) \<Longrightarrow> rw_pcs l ! t = Writing \<Longrightarrow>
     rw_step l (set_rw_pc t (UnlockW (lock_state l)) l)"
| unlock_store: "t < length (rw_pcs l) \<Longrightarrow> rw_pcs l ! t = UnlockR s \<or> rw_pcs l ! t = UnlockW s \<Longrightarrow>
     s = - 1 \<Longrightarrow> rw_step l (set_rw_pc t Out (l\<lparr>lock_state := 0\<rparr>))"
| unlock_sub: "t < length (rw_pcs l) \<Longrightarrow> rw_pcs l ! t = UnlockR s \<or> rw_pcs l ! t = UnlockW s \<Longrightarrow>
     s \<noteq> - 1 \<Longrightarrow> rw_step l (set_rw_pc t Out (l\<lparr>lock_state := lock_state l - 1\<rparr>))"

inductive rw_reachable :: "nat \<Rightarrow> rwlock \<Rightarrow> bool" for n where
  start: "rw_reachable n (rwlock_init n)"
| step: "rw_reachable n l \<Longrightarrow> rw_step l l' \<Longrightarrow> rw_reachable n l'"

definition holds_read :: "rw_pc \<Rightarrow> bool" where
  "holds_read p = (case p of Reading \<Rightarrow> True | UnlockR _ \<Rightarrow> True | _ \<Rightarrow> False)"

definition holds_write :: "rw_pc \<Rightarrow> bool" where
  "holds_write p = (case p of Writing \<Rightarrow> True | UnlockW _ \<Rightarrow> True | _ \<Rightarrow> False)"

text \<open>
  The lock word is \<open>-1\<close> while exactly one thread holds the write lock and no thread
  the read lock, and otherwise the number of readers; the value loaded by
  \<open>unlock\<close> tells the two cases apart.
\<close>

definition rw_word_ok :: "int \<Rightarrow> nat \<Rightarrow> nat \<Rightarrow> bool" where
  "rw_word_ok v readers writers \<longleftrightarrow>
     (if v = - 1 then writers = 1 \<and> readers = 0 else writers = 0 \<and> v = int readers)"

definition unlock_ok :: "rw_pc \<Rightarrow> bool" where
  "unlock_ok p = (case p of UnlockR s \<Rightarrow> s \<noteq> - 1 | UnlockW s \<Rightarrow> s = - 1 | _ \<Rightarrow> True)"

definition rw_inv :: "rwlock \<Rightarrow> bool" where
  "rw_inv l \<longleftrightarrow>
     rw_word_ok (lock_state l) (count_if holds_read (rw_pcs l)) (count_if holds_write (rw_pcs l)) \<and>
     (\<forall>t < length (rw_pcs l). unlock_ok (rw_pcs l ! t))"

lemma rw_inv_init: "rw_inv (rwlock_init n)"
  by (simp add: rw_inv_def rw_word_ok_def unlock_ok_def rwlock_init_def count_if_def
      holds_read_def holds_write_def)

text \<open>
  One thread moves from its program counter to \<open>p\<close> and the lock word becomes \<open>v\<close>: the
  invariant is kept if the word fits the holders counted after the move.
\<close>

lemma rw_inv_move:
  assumes inv: "rw_inv l" and t: "t < length (rw_pcs l)" and p: "unlock_ok p"
    and ok: "\<And>r w. rw_word_ok (lock_state l)
                (r + (if holds_read (rw_pcs l ! t) then 1 else 0))
                (w + (if holds_write (rw_pcs l ! t) then 1 else 0)) \<Longrightarrow>
              rw_word_ok v (r + (if holds_read p then 1 else 0)) (w + (if holds_write p then 1 else 0))"
  shows "rw_inv (set_rw_pc t p (l\<lparr>lock_state := v\<rparr>))"
proof -
  let ?c = "\<lambda>P q. if P q then 1 else 0 :: nat"
  let ?q = "rw_pcs l ! t" and ?ps = "rw_pcs l"
  define r where "r = count_if holds_read ?ps - ?c holds_read ?q"
  define w where "w = count_if holds_write ?ps - ?c holds_write ?q"
  have rw: "count_if holds_read ?ps = r + ?c holds_read ?q"
    "count_if holds_write ?ps = w + ?c holds_write ?q"
    using count_if_pos [OF t, of holds_read] count_if_pos [OF t, of holds_write]
    by (auto simp: r_def w_def)
  have "count_if holds_read (?ps[t := p]) = r + ?c holds_read p"
    "count_if holds_write (?ps[t := p]) = w + ?c holds_write p"
    using rw count_if_update [OF t, of holds_read p] count_if_update [OF t, of holds_write p]
    by linarith+
  moreover have "rw_word_ok v (r + ?c holds_read p) (w + ?c holds_write p)"
    using inv rw by (intro ok) (simp add: rw_inv_def)
  moreover have "\<forall>i < length ?ps. unlock_ok (?ps[t := p] ! i)"
    using inv p t by (auto simp: rw_inv_def nth_list_update)
  ultimately show ?thesis by (simp add: rw_inv_def set_rw_pc_def)
qed

lemma rw_inv_unlock_ok: "rw_inv l \<Longrightarrow> t < length (rw_pcs l) \<Longrightarrow> unlock_ok (rw_pcs l ! t)"
  by (simp add: rw_inv_def)

lemma rw_inv_writer_word:
  "rw_inv l \<Longrightarrow> t < length (rw_pcs l) \<Longrightarrow> holds_write (rw_pcs l ! t) \<Longrightarrow> lock_state l = - 1"
  using count_if_pos [of t "rw_pcs l" holds_write]
  by (auto simp: rw_inv_def rw_word_ok_def split: if_splits)

lemma rw_inv_reader_word:
  "rw_inv l \<Longrightarrow> t < length (rw_pcs l) \<Longrightarrow> holds_read (rw_pcs l ! t) \<Longrightarrow> 0 < lock_state l"
  using count_if_pos [of t "rw_pcs l" holds_read]
  by (auto simp: rw_inv_def rw_word_ok_def split: if_splits)

lemmas rw_move_simps = rw_word_ok_def unlock_ok_def holds_read_def holds_write_def

lemma rw_inv_step:
  assumes "rw_step l l'" "rw_inv l"
  shows "rw_inv l'"
  using assms
proof (induction rule: rw_step.induct)
  case (rd_call t l)
  then show ?case using rw_inv_move [of l t RdLoop "lock_state l"] by (simp add: rw_move_simps)
next
  case (rd_load t l)
  then show ?case using rw_inv_move [of l t "RdTry (lock_state l)" "lock_state l"]
    by (simp add: rw_move_simps)
next
  case (rd_cas t l s)
  then show ?case by (intro rw_inv_move) (auto simp: rw_move_simps split: if_splits)
next
  case (rd_again t l s)
  then show ?case using rw_inv_move [of l t RdLoop "lock_state l"] by (simp add: rw_move_simps)
next
  case (wr_call t l)
  then show ?case using rw_inv_move [of l t WrLoop "lock_state l"] by (simp add: rw_move_simps)
next
  case (wr_cas t l)
  then show ?case by (intro rw_inv_move) (auto simp: rw_move_simps split: if_splits)
next
  case (unlock_rd t l)
  then show ?case
    using rw_inv_move [of l t "UnlockR (lock_state l)" "lock_state l"] rw_inv_reader_word [of l t]
    by (simp add: rw_move_simps)
next
  case (unlock_wr t l)
  then have "lock_state l = - 1" using rw_inv_writer_word [of l t] by (simp add: holds_write_def)
  then have "rw_inv (set_rw_pc t (UnlockW (lock_state l)) (l\<lparr>lock_state := lock_state l\<rparr>))"
    using unlock_wr by (intro rw_inv_move) (auto simp: rw_move_simps)
  then show ?case by simp
next
  case (unlock_store t l s)
  then have "rw_pcs l ! t = UnlockW s" using rw_inv_unlock_ok [of l t] by (auto simp: unlock_ok_def)
  with unlock_store show ?case
    using rw_inv_writer_word [of l t] by (intro rw_inv_move) (auto simp: rw_move_simps)
next
  case (unlock_sub t l s)
  then have "rw_pcs l ! t = UnlockR s" using rw_inv_unlock_ok [of l t] by (auto simp: unlock_ok_def)
  with unlock_sub show ?case
    using rw_inv_reader_word [of l t]
    by (intro rw_inv_move) (auto simp: rw_move_simps split: if_splits)
qed

lemma rw_reachable_inv: "rw_reachable n l \<Longrightarrow> rw_inv l"
  by (induction rule: rw_reachable.induct) (auto simp: rw_inv_init rw_inv_step)

section \<open>Properties\<close>

text \<open>
  C26. Mutual exclusion of \<open>spin_rwlock\<close>: in every interleaving of any number of threads, while
  one thread holds the write lock (until the store or subtraction of its unlock) no other
  thread holds the lock for reading or for writing.
\<close>

theorem rwlock_mutual_exclusion:
  assumes "rw_reachable n l"
    and "i < length (rw_pcs l)" "j < length (rw_pcs l)" "i \<noteq> j"
    and "holds_write (rw_pcs l ! i)"
  shows "\<not> holds_read (rw_pcs l ! j) \<and> \<not> holds_write (rw_pcs l ! j)"
proof -
  have inv: "rw_inv l" using assms(1) by (rule rw_reachable_inv)
  have "lock_state l = - 1" using rw_inv_writer_word [OF inv] assms by blast
  then have "count_if holds_write (rw_pcs l) = 1" "\<not> 0 < lock_state l"
    using inv by (auto simp: rw_inv_def rw_word_ok_def)
  then show ?thesis
    using count_if_two [of i "rw_pcs l" j holds_write] rw_inv_reader_word [OF inv] assms by fastforce
qed

lemma rwlock_write_run: "rw_reachable 2 \<lparr>lock_state = - 1, rw_pcs = [Writing, Out]\<rparr>"
proof -
  have "rw_reachable 2 (set_rw_pc 0 WrLoop (rwlock_init 2))"
    by (rule rw_reachable.step [OF rw_reachable.start rw_step.wr_call])
      (simp_all add: rwlock_init_def)
  from rw_reachable.step [OF this rw_step.wr_cas [of 0]] show ?thesis
    by (simp add: set_rw_pc_def rwlock_init_def numeral_2_eq_2)
qed

lemma rwlock_mutual_exclusion_witness:
  "\<not> holds_read ([Writing, Out] ! 1) \<and> \<not> holds_write ([Writing, Out] ! 1)"
  using rwlock_mutual_exclusion [OF rwlock_write_run, of 0 1] by (simp add: holds_write_def)



end
