(* ===== verification/FrameRing.thy ===== *)
theory FrameRing
  imports Prelude
begin

text \<open>
  The bounded rings with a sequence number per slot: the shared frame cache of
  \<^verbatim>\<open>src/lib/frame_cache.c\<close> (\<open>global_cache_class_enqueue_batch\<close> and
  \<open>global_cache_class_dequeue_batch\<close>) and the pool of free frames of \<^verbatim>\<open>src/lib/xdp.c\<close>
  (\<open>xdp_frame_pool_pop_idx\<close>, \<open>xdp_frame_pool_push_idx\<close>, \<open>xdp_frame_pool_init\<close>).

  Here each call runs alone, so a compare-exchange finds the position it has just loaded, and a loop
  that reloads a position finds the same one: a retry would go on for ever and is the result \<open>None\<close>.
  The 64-bit positions are natural numbers; \<open>n\<close> is the number of slots of the ring.

  The lemmas show that the rings are bounded queues: enqueueing appends as many entries as fit,
  dequeueing takes the oldest ones, and no call spins.
\<close>

section \<open>The code\<close>

definition GLOBAL_FRAME_CACHE_LIMIT :: nat where "GLOBAL_FRAME_CACHE_LIMIT = 1024"

record 'a ring =
  sequence :: "nat \<Rightarrow> nat"
  ring_entry :: "nat \<Rightarrow> 'a"
  enqueue_pos :: nat
  dequeue_pos :: nat

definition frame_global_cache_init :: "'a ring \<Rightarrow> 'a ring" where
  "frame_global_cache_init r = r\<lparr>enqueue_pos := 0, dequeue_pos := 0, sequence := (\<lambda>i. i)\<rparr>"

text \<open>The scan for ready slots: how many in a row are ready, and whether a slot ahead of us ended it.\<close>

fun scan_ready :: "(nat \<Rightarrow> int) \<Rightarrow> nat \<Rightarrow> nat \<Rightarrow> nat \<times> bool" where
  "scan_ready diff 0 ready = (ready, False)"
| "scan_ready diff (Suc left) ready =
     (if diff ready = 0 then scan_ready diff left (ready + 1) else (ready, diff ready > 0))"

fun publish :: "nat \<Rightarrow> nat \<Rightarrow> 'a list \<Rightarrow> 'a ring \<Rightarrow> 'a ring" where
  "publish n pos [] r = r"
| "publish n pos (e # es) r =
     publish n (pos + 1) es
       (r\<lparr>ring_entry := (ring_entry r)(pos mod n := e), sequence := (sequence r)(pos mod n := pos + 1)\<rparr>)"

definition global_cache_class_enqueue_batch :: "nat \<Rightarrow> 'a list \<Rightarrow> 'a ring \<Rightarrow> (nat \<times> 'a ring) option" where
  "global_cache_class_enqueue_batch n entries r =
     (if entries = [] then Some (0, r)
      else let max_entries = min (length entries) n;
               pos = enqueue_pos r;
               (ready, stale) = scan_ready (\<lambda>i. int (sequence r ((pos + i) mod n)) - int (pos + i)) max_entries 0
           in if stale then None
              else if ready = 0 then Some (0, r)
              else Some (ready, publish n pos (take ready entries) (r\<lparr>enqueue_pos := pos + ready\<rparr>)))"

fun withdraw :: "nat \<Rightarrow> nat \<Rightarrow> nat \<Rightarrow> 'a ring \<Rightarrow> 'a list \<times> 'a ring" where
  "withdraw n pos 0 r = ([], r)"
| "withdraw n pos (Suc k) r =
     (let e = ring_entry r (pos mod n)
      in case withdraw n (pos + 1) k (r\<lparr>sequence := (sequence r)(pos mod n := pos + n)\<rparr>) of
           (es, r) \<Rightarrow> (e # es, r))"

definition global_cache_class_dequeue_batch :: "nat \<Rightarrow> nat \<Rightarrow> 'a ring \<Rightarrow> ('a list \<times> 'a ring) option" where
  "global_cache_class_dequeue_batch n max_entries r =
     (if max_entries = 0 then Some ([], r)
      else let max_entries = min max_entries n;
               pos = dequeue_pos r;
               (ready, stale) = scan_ready (\<lambda>i. int (sequence r ((pos + i) mod n)) - int (pos + i + 1)) max_entries 0
           in if stale then None
              else if ready = 0 then Some ([], r)
              else Some (withdraw n pos ready (r\<lparr>dequeue_pos := pos + ready\<rparr>)))"

text \<open>The free-frame pool starts full; an index out of range makes \<open>xdp_frame_pool_pop_idx\<close> abort.\<close>

definition xdp_frame_pool_init :: "nat \<Rightarrow> nat ring" where
  "xdp_frame_pool_init n = \<lparr>sequence = (\<lambda>i. i + 1), ring_entry = (\<lambda>i. i), enqueue_pos = n, dequeue_pos = 0\<rparr>"

definition xdp_frame_pool_pop_idx :: "nat \<Rightarrow> nat ring \<Rightarrow> (nat option \<times> nat ring) option" where
  "xdp_frame_pool_pop_idx n r =
     (let pos = dequeue_pos r;
          diff = int (sequence r (pos mod n)) - int (pos + 1)
      in if diff < 0 then Some (None, r)
         else if diff > 0 then None
         else let idx = ring_entry r (pos mod n)
              in if idx \<ge> n then None
                 else Some (Some idx, r\<lparr>dequeue_pos := pos + 1, sequence := (sequence r)(pos mod n := pos + n)\<rparr>))"

definition xdp_frame_pool_push_idx :: "nat \<Rightarrow> nat \<Rightarrow> nat ring \<Rightarrow> (bool \<times> nat ring) option" where
  "xdp_frame_pool_push_idx n idx r =
     (if idx \<ge> n then Some (False, r)
      else let pos = enqueue_pos r;
               diff = int (sequence r (pos mod n)) - int pos
           in if diff < 0 then if pos - dequeue_pos r \<ge> n then Some (False, r) else None
              else if diff > 0 then None
              else Some (True, r\<lparr>enqueue_pos := pos + 1, ring_entry := (ring_entry r)(pos mod n := idx),
                                 sequence := (sequence r)(pos mod n := pos + 1)\<rparr>))"

section \<open>The ring as a bounded queue\<close>

definition ring_content :: "nat \<Rightarrow> 'a ring \<Rightarrow> 'a list" where
  "ring_content n r = map (\<lambda>p. ring_entry r (p mod n)) [dequeue_pos r..<enqueue_pos r]"

definition ring_inv :: "nat \<Rightarrow> 'a ring \<Rightarrow> bool" where
  "ring_inv n r \<longleftrightarrow> 1 < n \<and> dequeue_pos r \<le> enqueue_pos r \<and> enqueue_pos r \<le> dequeue_pos r + n \<and>
     (\<forall>p \<in> {dequeue_pos r..<enqueue_pos r}. sequence r (p mod n) = p + 1) \<and>
     (\<forall>p \<in> {enqueue_pos r..<dequeue_pos r + n}. sequence r (p mod n) = p)"

text \<open>A bounded queue of batches, which both ends of the frame cache use.\<close>

definition fifo_enqueue :: "nat \<Rightarrow> 'a list \<Rightarrow> 'a list \<Rightarrow> nat \<times> 'a list" where
  "fifo_enqueue n entries q = (let k = min (length entries) (n - length q) in (k, q @ take k entries))"

definition fifo_dequeue :: "nat \<Rightarrow> 'a list \<Rightarrow> 'a list \<times> 'a list" where
  "fifo_dequeue max_entries q = (take max_entries q, drop max_entries q)"

text \<open>A sequence of batches, and what each call reports: the number enqueued, or the entries dequeued.\<close>

datatype 'a batch = Enq "'a list" | Deq nat

fun batch_run :: "('a list \<Rightarrow> 'r \<Rightarrow> (nat \<times> 'r) option) \<Rightarrow> (nat \<Rightarrow> 'r \<Rightarrow> ('a list \<times> 'r) option) \<Rightarrow>
    'a batch list \<Rightarrow> 'r \<Rightarrow> ((nat + 'a list) list) option" where
  "batch_run enq deq [] r = Some []"
| "batch_run enq deq (Enq xs # ops) r =
     (case enq xs r of None \<Rightarrow> None | Some (k, r) \<Rightarrow> map_option ((#) (Inl k)) (batch_run enq deq ops r))"
| "batch_run enq deq (Deq m # ops) r =
     (case deq m r of None \<Rightarrow> None | Some (es, r) \<Rightarrow> map_option ((#) (Inr es)) (batch_run enq deq ops r))"

fun fifo_run :: "nat \<Rightarrow> 'a batch list \<Rightarrow> 'a list \<Rightarrow> (nat + 'a list) list" where
  "fifo_run n [] q = []"
| "fifo_run n (Enq xs # ops) q = (case fifo_enqueue n xs q of (k, q) \<Rightarrow> Inl k # fifo_run n ops q)"
| "fifo_run n (Deq m # ops) q = (case fifo_dequeue m q of (es, q) \<Rightarrow> Inr es # fifo_run n ops q)"

lemma mod_window_inj:
  fixes p q n :: nat
  assumes "p mod n = q mod n" "p < q + n" "q < p + n"
  shows "p = q"
proof (rule ccontr)
  assume "p \<noteq> q"
  then consider "p < q" | "q < p" by linarith
  then show False
  proof cases
    case 1
    then have "n dvd q - p" using assms(1) by (metis mod_eq_dvd_iff_nat less_imp_le_nat)
    then show False using 1 assms(3) by (auto dest!: dvd_imp_le)
  next
    case 2
    then have "n dvd p - q" using assms(1) by (metis mod_eq_dvd_iff_nat less_imp_le_nat)
    then show False using 2 assms(2) by (auto dest!: dvd_imp_le)
  qed
qed

lemma length_ring_content [simp]: "length (ring_content n r) = enqueue_pos r - dequeue_pos r"
  by (simp add: ring_content_def)

lemma scan_ready_all:
  "(\<And>i. ready \<le> i \<Longrightarrow> i < ready + left \<Longrightarrow> diff i = 0) \<Longrightarrow> scan_ready diff left ready = (ready + left, False)"
  by (induction diff left ready rule: scan_ready.induct) auto

lemma scan_ready_stop:
  assumes "\<And>i. ready \<le> i \<Longrightarrow> i < k \<Longrightarrow> diff i = 0" "diff k < 0" "ready \<le> k" "k < ready + left"
  shows "scan_ready diff left ready = (k, False)"
  using assms
proof (induction diff left ready rule: scan_ready.induct)
  case (2 diff left ready)
  show ?case
  proof (cases "ready = k")
    case True
    then show ?thesis using 2(3) by simp
  next
    case False
    then have "diff ready = 0" using 2(2,4) by simp
    then show ?thesis using 2 False by simp
  qed
qed simp

lemma scan_ready_min:
  assumes "\<And>i. i < k \<Longrightarrow> diff i = 0" "k < m \<Longrightarrow> diff k < 0"
  shows "scan_ready diff m 0 = (min m k, False)"
proof (cases "k < m")
  case True
  then show ?thesis using scan_ready_stop [of 0 k diff m] assms by simp
next
  case False
  then show ?thesis using scan_ready_all [of 0 m diff] assms(1) by simp
qed

lemma publish_pos [simp]:
  "enqueue_pos (publish n pos es r) = enqueue_pos r" "dequeue_pos (publish n pos es r) = dequeue_pos r"
  by (induction n pos es r rule: publish.induct) auto

lemma publish_at:
  assumes "length es \<le> n" "i < length es"
  shows "ring_entry (publish n pos es r) ((pos + i) mod n) = es ! i \<and>
         sequence (publish n pos es r) ((pos + i) mod n) = pos + i + 1"
  using assms
proof (induction es arbitrary: pos i r rule: rev_induct)
  case (snoc e es)
  have snoc_pub: "publish n pos (es @ [e]) r =
      (let r = publish n pos es r in r\<lparr>ring_entry := (ring_entry r)((pos + length es) mod n := e),
         sequence := (sequence r)((pos + length es) mod n := pos + length es + 1)\<rparr>)" for pos r
    by (induction es arbitrary: pos r) (auto simp: Let_def)
  show ?case
  proof (cases "i = length es")
    case True
    then show ?thesis by (simp add: snoc_pub Let_def)
  next
    case False
    then have "(pos + i) mod n \<noteq> (pos + length es) mod n"
      using snoc.prems mod_window_inj [of "pos + i" n "pos + length es"] by auto
    then show ?thesis using snoc False by (simp add: snoc_pub Let_def nth_append)
  qed
qed simp

lemma publish_other:
  assumes "\<And>i. i < length es \<Longrightarrow> j \<noteq> (pos + i) mod n"
  shows "ring_entry (publish n pos es r) j = ring_entry r j \<and> sequence (publish n pos es r) j = sequence r j"
  using assms
proof (induction n pos es r rule: publish.induct)
  case (2 n pos e es r)
  have "j \<noteq> pos mod n" using 2(2) [of 0] by simp
  moreover have "j \<noteq> (pos + 1 + i) mod n" if "i < length es" for i
    using 2(2) [of "Suc i"] that by simp
  ultimately show ?case using 2(1) by simp
qed simp


lemma publish_inv:
  assumes inv: "ring_inv n r" and k: "length es \<le> n - length (ring_content n r)"
  defines "r' \<equiv> publish n (enqueue_pos r) es (r\<lparr>enqueue_pos := enqueue_pos r + length es\<rparr>)"
  shows "ring_inv n r'" "ring_content n r' = ring_content n r @ es"
proof -
  let ?e = "enqueue_pos r" and ?d = "dequeue_pos r"
  have le: "?d \<le> ?e" "?e \<le> ?d + n" and n: "1 < n" using inv by (auto simp: ring_inv_def)
  have room: "?e + length es \<le> ?d + n" using k le by simp
  have es_n: "length es \<le> n" using room le by simp
  have pos: "enqueue_pos r' = ?e + length es" "dequeue_pos r' = ?d" by (simp_all add: r'_def)
  have at: "ring_entry r' (p mod n) = es ! (p - ?e) \<and> sequence r' (p mod n) = p + 1"
    if "?e \<le> p" "p < ?e + length es" for p
    using publish_at [OF es_n, of "p - ?e" ?e "r\<lparr>enqueue_pos := ?e + length es\<rparr>"] that by (simp add: r'_def)
  have other: "ring_entry r' (p mod n) = ring_entry r (p mod n) \<and> sequence r' (p mod n) = sequence r (p mod n)"
    if "?d \<le> p" "p < ?e \<or> ?e + length es \<le> p" "p < ?d + n" for p
  proof -
    have "p mod n \<noteq> (?e + i) mod n" if "i < length es" for i
      using mod_window_inj [of p n "?e + i"] that \<open>?d \<le> p\<close> \<open>p < ?e \<or> ?e + length es \<le> p\<close> \<open>p < ?d + n\<close> room le by auto
    from publish_other [of es, OF this] show ?thesis by (simp add: r'_def)
  qed
  show "ring_inv n r'"
    unfolding ring_inv_def pos
  proof (intro conjI ballI)
    fix p assume p: "p \<in> {?d..<?e + length es}"
    show "sequence r' (p mod n) = p + 1"
    proof (cases "p < ?e")
      case True
      then show ?thesis using other [of p] p inv room by (auto simp: ring_inv_def)
    next
      case False
      then show ?thesis using at [of p] p by simp
    qed
  next
    fix p assume p: "p \<in> {?e + length es..<?d + n}"
    then show "sequence r' (p mod n) = p" using other [of p] inv le by (auto simp: ring_inv_def)
  qed (use n le room in simp_all)
  have "ring_content n r' = map (\<lambda>p. ring_entry r' (p mod n)) ([?d..<?e] @ [?e..<?e + length es])"
    unfolding ring_content_def pos upt_add_eq_append [OF le(1)] ..
  moreover have "map (\<lambda>p. ring_entry r' (p mod n)) [?d..<?e] = ring_content n r"
    unfolding ring_content_def using other le by (auto simp: intro!: map_cong)
  moreover have "map (\<lambda>p. ring_entry r' (p mod n)) [?e..<?e + length es] = es"
    by (rule nth_equalityI) (use at in simp_all)
  ultimately show "ring_content n r' = ring_content n r @ es" by simp
qed

lemma enqueue_batch_refines:
  assumes inv: "ring_inv n r"
  obtains r' where "global_cache_class_enqueue_batch n entries r = Some (fst (fifo_enqueue n entries (ring_content n r)), r')"
    "ring_inv n r'" "ring_content n r' = snd (fifo_enqueue n entries (ring_content n r))"
proof -
  let ?e = "enqueue_pos r" and ?d = "dequeue_pos r"
  let ?room = "n - (?e - ?d)"
  let ?diff = "\<lambda>i. int (sequence r ((?e + i) mod n)) - int (?e + i)"
  let ?k = "min (length entries) ?room"
  have le: "?d \<le> ?e" "?e \<le> ?d + n" "1 < n" using inv by (auto simp: ring_inv_def)
  have ready: "?diff i = 0" if "i < ?room" for i
    using inv that le by (auto simp: ring_inv_def)
  have full: "?diff ?room < 0" if "?room < min (length entries) n"
  proof -
    have "?e + ?room = ?d + n" "?d < ?e" using le that by auto
    moreover have "sequence r ((?d + n) mod n) = ?d + 1" using inv \<open>?d < ?e\<close> by (auto simp: ring_inv_def)
    ultimately show ?thesis using le by (simp only:)
  qed
  have scan: "scan_ready ?diff (min (length entries) n) 0 = (?k, False)"
  proof -
    have "min (min (length entries) n) ?room = ?k" by auto
    with scan_ready_min [of ?room ?diff "min (length entries) n", OF ready full] show ?thesis by simp
  qed
  let ?r' = "publish n ?e (take ?k entries) (r\<lparr>enqueue_pos := ?e + length (take ?k entries)\<rparr>)"
  have pub: "ring_inv n ?r'" "ring_content n ?r' = ring_content n r @ take ?k entries"
    using publish_inv [OF inv, of "take ?k entries"] by simp_all
  have k: "fifo_enqueue n entries (ring_content n r) = (?k, ring_content n r @ take ?k entries)"
    by (simp add: fifo_enqueue_def Let_def)
  show thesis
  proof (cases "entries = [] \<or> ?k = 0")
    case True
    then have "global_cache_class_enqueue_batch n entries r = Some (?k, r)"
      using scan by (auto simp: global_cache_class_enqueue_batch_def Let_def)
    then show thesis using that [of r] True inv k by auto
  next
    case False
    then have "global_cache_class_enqueue_batch n entries r = Some (?k, ?r')"
      using scan by (simp add: global_cache_class_enqueue_batch_def Let_def min_def)
    then show thesis using that [of ?r'] pub k by simp
  qed
qed

lemma withdraw_frame [simp]:
  "enqueue_pos (snd (withdraw n pos k r)) = enqueue_pos r" "dequeue_pos (snd (withdraw n pos k r)) = dequeue_pos r"
  "ring_entry (snd (withdraw n pos k r)) = ring_entry r"
  by (induction n pos k r rule: withdraw.induct) (auto simp: Let_def split: prod.splits)

lemma withdraw_entries:
  "fst (withdraw n pos k r) = map (\<lambda>p. ring_entry r (p mod n)) [pos..<pos + k]"
proof (induction n pos k r rule: withdraw.induct)
  case (2 n pos k r)
  have "[pos..<pos + Suc k] = pos # [pos + 1..<pos + 1 + k]" by (simp add: upt_conv_Cons del: upt_Suc)
  moreover have "fst (withdraw n pos (Suc k) r) =
      ring_entry r (pos mod n) # fst (withdraw n (pos + 1) k (r\<lparr>sequence := (sequence r)(pos mod n := pos + n)\<rparr>))"
    by (simp add: Let_def split: prod.splits)
  ultimately show ?case using 2 by (simp del: upt_Suc)
qed simp

lemma withdraw_other:
  assumes "\<And>p. pos \<le> p \<Longrightarrow> p < pos + k \<Longrightarrow> j \<noteq> p mod n"
  shows "sequence (snd (withdraw n pos k r)) j = sequence r j"
  using assms by (induction n pos k r rule: withdraw.induct) (auto simp: Let_def split: prod.splits)

lemma withdraw_at:
  assumes "k \<le> n" "pos \<le> p" "p < pos + k"
  shows "sequence (snd (withdraw n pos k r)) (p mod n) = p + n"
  using assms
proof (induction n pos k r rule: withdraw.induct)
  case (2 n pos k r)
  let ?r = "r\<lparr>sequence := (sequence r)(pos mod n := pos + n)\<rparr>"
  have step: "snd (withdraw n pos (Suc k) r) = snd (withdraw n (pos + 1) k ?r)"
    by (simp add: Let_def split: prod.splits)
  show ?case
  proof (cases "p = pos")
    case True
    have "pos mod n \<noteq> q mod n" if "pos + 1 \<le> q" "q < pos + 1 + k" for q
      using mod_window_inj [of pos n q] that 2(2) by auto
    then show ?thesis unfolding step using withdraw_other [of "pos + 1" k "pos mod n" n ?r] True by simp
  next
    case False
    then show ?thesis unfolding step using 2 by simp
  qed
qed simp

lemma withdraw_inv:
  assumes inv: "ring_inv n r" and k: "k \<le> length (ring_content n r)"
  defines "w \<equiv> withdraw n (dequeue_pos r) k (r\<lparr>dequeue_pos := dequeue_pos r + k\<rparr>)"
  shows "ring_inv n (snd w)" "fst w = take k (ring_content n r)" "ring_content n (snd w) = drop k (ring_content n r)"
proof -
  let ?e = "enqueue_pos r" and ?d = "dequeue_pos r" and ?r = "snd w"
  have le: "?d + k \<le> ?e" "?e \<le> ?d + n" and n: "1 < n" using inv k by (auto simp: ring_inv_def)
  have frame: "enqueue_pos ?r = ?e" "dequeue_pos ?r = ?d + k" "ring_entry ?r = ring_entry r" by (simp_all add: w_def)
  have freed: "sequence ?r (p mod n) = p" if p: "?d + n \<le> p" "p < ?d + k + n" for p
    using withdraw_at [of k n ?d "p - n" "r\<lparr>dequeue_pos := ?d + k\<rparr>"] p le by (simp add: w_def le_mod_geq)
  have other: "sequence ?r (p mod n) = sequence r (p mod n)" if "?d + k \<le> p" "p < ?d + n" for p
  proof -
    have "p mod n \<noteq> q mod n" if "?d \<le> q" "q < ?d + k" for q
      using mod_window_inj [of p n q] that \<open>?d + k \<le> p\<close> \<open>p < ?d + n\<close> by auto
    then show ?thesis using withdraw_other [of ?d k "p mod n" n "r\<lparr>dequeue_pos := ?d + k\<rparr>"] by (simp add: w_def)
  qed
  show "ring_inv n ?r"
    unfolding ring_inv_def frame
  proof (intro conjI ballI)
    fix p assume "p \<in> {?d + k..<?e}"
    then show "sequence ?r (p mod n) = p + 1" using other [of p] inv le by (auto simp: ring_inv_def)
  next
    fix p assume p: "p \<in> {?e..<?d + k + n}"
    show "sequence ?r (p mod n) = p"
    proof (cases "p < ?d + n")
      case True
      then show ?thesis using other [of p] p inv le by (auto simp: ring_inv_def)
    next
      case False
      then show ?thesis using freed p by simp
    qed
  qed (use n le in simp_all)
  show "fst w = take k (ring_content n r)"
    using le by (simp add: w_def withdraw_entries ring_content_def take_map)
  show "ring_content n ?r = drop k (ring_content n r)"
    by (simp add: ring_content_def frame drop_map)
qed

lemma dequeue_batch_refines:
  assumes inv: "ring_inv n r"
  obtains r' where "global_cache_class_dequeue_batch n m r = Some (fst (fifo_dequeue m (ring_content n r)), r')"
    "ring_inv n r'" "ring_content n r' = snd (fifo_dequeue m (ring_content n r))"
proof -
  let ?e = "enqueue_pos r" and ?d = "dequeue_pos r"
  let ?diff = "\<lambda>i. int (sequence r ((?d + i) mod n)) - int (?d + i + 1)"
  let ?k = "min m (?e - ?d)"
  have le: "?d \<le> ?e" "?e \<le> ?d + n" "1 < n" using inv by (auto simp: ring_inv_def)
  have ready: "?diff i = 0" if "i < ?e - ?d" for i
    using inv that by (auto simp: ring_inv_def)
  have empty: "?diff (?e - ?d) < 0" if "?e - ?d < min m n"
    using inv that le by (auto simp: ring_inv_def)
  have scan: "scan_ready ?diff (min m n) 0 = (?k, False)"
  proof -
    have "min (min m n) (?e - ?d) = ?k" using le by auto
    with scan_ready_min [of "?e - ?d" ?diff "min m n", OF ready empty] show ?thesis by simp
  qed
  let ?w = "withdraw n ?d ?k (r\<lparr>dequeue_pos := ?d + ?k\<rparr>)"
  have w: "ring_inv n (snd ?w)" "fst ?w = take ?k (ring_content n r)" "ring_content n (snd ?w) = drop ?k (ring_content n r)"
    using withdraw_inv [OF inv, of ?k] by simp_all
  have k: "fifo_dequeue m (ring_content n r) = (take ?k (ring_content n r), drop ?k (ring_content n r))"
    by (cases "m \<le> ?e - ?d") (simp_all add: fifo_dequeue_def)
  show thesis
  proof (cases "?k = 0")
    case True
    then have "global_cache_class_dequeue_batch n m r = Some ([], r)"
      using scan by (auto simp: global_cache_class_dequeue_batch_def Let_def)
    then show thesis using that [of r] True inv k by simp
  next
    case False
    then have "global_cache_class_dequeue_batch n m r = Some ?w"
      using scan by (simp add: global_cache_class_dequeue_batch_def Let_def)
    then show thesis using that [of "snd ?w"] w k by (metis fst_conv prod.collapse snd_conv)
  qed
qed

section \<open>The interface of a bounded queue\<close>

text \<open>
  What the frame cache relies on: an enqueue that appends what fits, a dequeue that takes the oldest
  entries, and neither ever failing to return. A client then sees the answers of a queue.
\<close>

locale bounded_queue =
  fixes enq :: "'a list \<Rightarrow> 'r \<Rightarrow> (nat \<times> 'r) option"
    and deq :: "nat \<Rightarrow> 'r \<Rightarrow> ('a list \<times> 'r) option"
    and content :: "'r \<Rightarrow> 'a list"
    and inv :: "'r \<Rightarrow> bool"
    and cap :: nat
  assumes enq_law: "inv r \<Longrightarrow> \<exists>r'. enq xs r = Some (fst (fifo_enqueue cap xs (content r)), r') \<and> inv r' \<and>
                      content r' = snd (fifo_enqueue cap xs (content r))"
    and deq_law: "inv r \<Longrightarrow> \<exists>r'. deq m r = Some (fst (fifo_dequeue m (content r)), r') \<and> inv r' \<and>
                      content r' = snd (fifo_dequeue m (content r))"
begin

lemma run_agrees: "inv r \<Longrightarrow> batch_run enq deq ops r = Some (fifo_run cap ops (content r))"
proof (induction ops arbitrary: r)
  case (Cons op ops)
  show ?case
  proof (cases op)
    case (Enq xs)
    obtain r' where "enq xs r = Some (fst (fifo_enqueue cap xs (content r)), r')" "inv r'"
      "content r' = snd (fifo_enqueue cap xs (content r))" using enq_law [OF Cons.prems] by blast
    then show ?thesis using Enq Cons.IH [of r'] by (simp add: case_prod_beta)
  next
    case (Deq m)
    obtain r' where "deq m r = Some (fst (fifo_dequeue m (content r)), r')" "inv r'"
      "content r' = snd (fifo_dequeue m (content r))" using deq_law [OF Cons.prems] by blast
    then show ?thesis using Deq Cons.IH [of r'] by (simp add: case_prod_beta)
  qed
qed simp

end

interpretation class_ring: bounded_queue "global_cache_class_enqueue_batch n" "global_cache_class_dequeue_batch n"
  "ring_content n" "ring_inv n" n for n
  by unfold_locales (meson enqueue_batch_refines, meson dequeue_batch_refines)

lemma cache_init_inv:
  assumes "1 < n"
  shows "ring_inv n (frame_global_cache_init r)" "ring_content n (frame_global_cache_init r) = []"
  using assms by (auto simp: ring_inv_def ring_content_def frame_global_cache_init_def)

text \<open>
  C20. From its initial state the shared frame cache answers every sequence of batch enqueues and
  dequeues as a first-in first-out queue of 1024 entries does: an enqueue takes as many entries as
  there is room for, a dequeue returns the oldest entries in order, whatever the ring's turn, and every
  call returns.
\<close>

theorem shared_cache_refines_fifo:
  "batch_run (global_cache_class_enqueue_batch GLOBAL_FRAME_CACHE_LIMIT)
     (global_cache_class_dequeue_batch GLOBAL_FRAME_CACHE_LIMIT) ops (frame_global_cache_init r) =
   Some (fifo_run GLOBAL_FRAME_CACHE_LIMIT ops [])"
proof -
  have "1 < GLOBAL_FRAME_CACHE_LIMIT" by (simp add: GLOBAL_FRAME_CACHE_LIMIT_def)
  from class_ring.run_agrees [OF cache_init_inv(1) [OF this]] cache_init_inv(2) [OF this]
  show ?thesis by metis
qed

section \<open>The free-frame pool\<close>

lemma pool_init_inv:
  assumes "1 < n"
  shows "ring_inv n (xdp_frame_pool_init n)" "ring_content n (xdp_frame_pool_init n) = [0..<n]"
  using assms by (auto simp: ring_inv_def ring_content_def xdp_frame_pool_init_def intro!: nth_equalityI)

lemma pool_pop:
  assumes inv: "ring_inv n r" and ok: "\<forall>i \<in> set (ring_content n r). i < n"
  obtains r' where
    "xdp_frame_pool_pop_idx n r = Some (if ring_content n r = [] then None else Some (hd (ring_content n r)), r')"
    "ring_inv n r'" "ring_content n r' = tl (ring_content n r)"
proof (cases "ring_content n r")
  case Nil
  then have e: "dequeue_pos r = enqueue_pos r" using inv by (auto simp: ring_content_def ring_inv_def)
  then have "sequence r (dequeue_pos r mod n) = dequeue_pos r" using inv by (auto simp: ring_inv_def)
  then have "xdp_frame_pool_pop_idx n r = Some (None, r)" by (simp add: xdp_frame_pool_pop_idx_def Let_def)
  then show thesis using that [of r] Nil inv by simp
next
  case (Cons i rest)
  then have lt: "dequeue_pos r < enqueue_pos r" by (metis length_ring_content length_greater_0_conv list.distinct(1) zero_less_diff)
  let ?w = "withdraw n (dequeue_pos r) 1 (r\<lparr>dequeue_pos := dequeue_pos r + 1\<rparr>)"
  have hd: "ring_entry r (dequeue_pos r mod n) = i"
    using Cons lt by (simp add: ring_content_def upt_conv_Cons)
  have w: "ring_inv n (snd ?w)" "ring_content n (snd ?w) = tl (ring_content n r)"
    using withdraw_inv [OF inv, of 1] lt by (simp_all add: drop_Suc)
  have "sequence r (dequeue_pos r mod n) = dequeue_pos r + 1" using inv lt by (auto simp: ring_inv_def)
  then have "xdp_frame_pool_pop_idx n r = Some (Some i, snd ?w)"
    using ok Cons hd by (simp add: xdp_frame_pool_pop_idx_def Let_def)
  then show thesis using that [of "snd ?w"] w Cons by simp
qed

lemma pool_push:
  assumes inv: "ring_inv n r" and idx: "idx < n"
  obtains r' where
    "xdp_frame_pool_push_idx n idx r = Some (length (ring_content n r) < n, r')" "ring_inv n r'"
    "ring_content n r' = (if length (ring_content n r) < n then ring_content n r @ [idx] else ring_content n r)"
proof (cases "length (ring_content n r) < n")
  case True
  let ?r = "publish n (enqueue_pos r) [idx] (r\<lparr>enqueue_pos := enqueue_pos r + 1\<rparr>)"
  have p: "ring_inv n ?r" "ring_content n ?r = ring_content n r @ [idx]"
    using publish_inv [OF inv, of "[idx]"] True by simp_all
  have "sequence r (enqueue_pos r mod n) = enqueue_pos r" using inv True by (auto simp: ring_inv_def)
  then have "xdp_frame_pool_push_idx n idx r = Some (True, ?r)"
    using idx by (simp add: xdp_frame_pool_push_idx_def Let_def)
  then show thesis using that [of ?r] p True by simp
next
  case False
  then have e: "enqueue_pos r = dequeue_pos r + n" "1 < n" using inv by (auto simp: ring_inv_def)
  then have "sequence r (enqueue_pos r mod n) = dequeue_pos r + 1" using inv by (auto simp: ring_inv_def)
  then have "xdp_frame_pool_push_idx n idx r = Some (False, r)"
    using idx e by (simp add: xdp_frame_pool_push_idx_def Let_def)
  then show thesis using that [of r] False inv by simp
qed

end
