(* ===== verification/FrameCache.thy ===== *)
theory FrameCache
  imports FrameRing
begin

text \<open>
  The frame allocator of \<^verbatim>\<open>src/lib/frame_cache.c\<close> and \<^verbatim>\<open>src/lib/frame_cache.h\<close>: a 4096-byte frame is
  cut into slots of one of six size classes; a slot whose last reference goes away is kept in the
  worker's local cache, from where surplus slots spill into the shared cache or give up their share of
  the frame; a frame none of whose slots is live or cached returns to the pool of \<^verbatim>\<open>src/lib/xdp.c\<close>.

  A slot is the pair of its frame's index and its number in the frame. The model has one worker's
  local cache. The shared caches and the pool are the bounded queues that \<open>FrameRing\<close> shows the rings
  to be. The size of \<open>struct xsk_tx_metadata\<close>, which the kernel headers define, is the field \<open>tx_len\<close>.
  Structure sizes are those of a 64-bit target. \<open>mallocs\<close> holds the outcomes of the coming calls of
  \<open>malloc\<close> and \<open>calloc\<close>; an exhausted list stands for success. Allocating a slot does not touch its
  bytes.
\<close>

section \<open>The code\<close>

type_synonym slot = "nat \<times> nat"

record frames =
  bytes_at :: "slot \<Rightarrow> nat \<Rightarrow> u8"
  slot_ref :: "slot \<Rightarrow> nat"
  slot_size :: "slot \<Rightarrow> nat"
  page_ref :: "nat \<Rightarrow> nat"
  local_entries :: "nat \<Rightarrow> slot list"
  global_entries :: "nat \<Rightarrow> slot list"
  free_frames :: "nat list"
  mallocs :: "bool list"
  tx_len :: nat

definition FRAME_PAGE_SIZE :: nat where "FRAME_PAGE_SIZE = 4096"
definition FRAME_SLOT_CLASS_COUNT :: nat where "FRAME_SLOT_CLASS_COUNT = 6"
definition THREAD_FRAME_CACHE_LIMIT :: nat where "THREAD_FRAME_CACHE_LIMIT = 64"
definition THREAD_FRAME_CACHE_LOW :: nat where "THREAD_FRAME_CACHE_LOW = 32"
definition XDP_UMEM_FRAME_CNT :: nat where "XDP_UMEM_FRAME_CNT = 65536"
definition sizeof_page_info :: nat where "sizeof_page_info = 16"
definition sizeof_frame_slot :: nat where "sizeof_frame_slot = 40"

definition FRAME_ALIGN16 :: "nat \<Rightarrow> nat" where
  "FRAME_ALIGN16 v = (v + 15) div 16 * 16"

definition FRAME_SLOT_FULL_HEADROOM :: "nat \<Rightarrow> nat" where
  "FRAME_SLOT_FULL_HEADROOM tx = FRAME_ALIGN16 (FRAME_ALIGN16 sizeof_page_info + sizeof_frame_slot + tx)"

definition FRAME_SLOT_SIZE_6 :: "nat \<Rightarrow> nat" where
  "FRAME_SLOT_SIZE_6 tx = FRAME_PAGE_SIZE - FRAME_SLOT_FULL_HEADROOM tx"

definition g_frame_slot_sizes :: "nat \<Rightarrow> nat list" where
  "g_frame_slot_sizes tx = [128, 254, 512, 1024, 1800, FRAME_SLOT_SIZE_6 tx]"

fun first_index :: "('a \<Rightarrow> bool) \<Rightarrow> nat \<Rightarrow> 'a list \<Rightarrow> nat option" where
  "first_index P i [] = None"
| "first_index P i (x # xs) = (if P x then Some i else first_index P (i + 1) xs)"

definition frame_size_class :: "nat \<Rightarrow> nat \<Rightarrow> nat option" where
  "frame_size_class tx min_data_len =
     (let min_data_len = (if min_data_len = 0 then FRAME_SLOT_SIZE_6 tx else min_data_len)
      in first_index (\<lambda>s. min_data_len \<le> s) 0 (g_frame_slot_sizes tx))"

definition frame_slot_size_class :: "nat \<Rightarrow> nat \<Rightarrow> nat option" where
  "frame_slot_size_class tx n = first_index (\<lambda>s. n = s) 0 (g_frame_slot_sizes tx)"

definition malloc :: "frames \<Rightarrow> bool \<times> frames" where
  "malloc h = (case mallocs h of [] \<Rightarrow> (True, h) | r # rs \<Rightarrow> (r, h\<lparr>mallocs := rs\<rparr>))"

definition xdp_frame_free :: "nat \<Rightarrow> frames \<Rightarrow> frames" where
  "xdp_frame_free p h =
     (if p < XDP_UMEM_FRAME_CNT \<and> length (free_frames h) < XDP_UMEM_FRAME_CNT
      then h\<lparr>free_frames := free_frames h @ [p]\<rparr> else h)"

definition xdp_frame_alloc :: "frames \<Rightarrow> nat option \<times> frames" where
  "xdp_frame_alloc h =
     (case free_frames h of [] \<Rightarrow> (None, h) | p # ps \<Rightarrow> (Some p, h\<lparr>free_frames := ps\<rparr>))"

definition put_page :: "nat \<Rightarrow> frames \<Rightarrow> frames" where
  "put_page p h =
     (if page_ref h p = 0 then h
      else let h' = h\<lparr>page_ref := (page_ref h)(p := page_ref h p - 1)\<rparr>
           in if page_ref h p = 1 then xdp_frame_free p h' else h')"

definition put_pages :: "slot list \<Rightarrow> frames \<Rightarrow> frames" where
  "put_pages ss h = fold (\<lambda>s. put_page (fst s)) ss h"

definition local_cache_push :: "nat \<Rightarrow> slot \<Rightarrow> frames \<Rightarrow> bool \<times> frames" where
  "local_cache_push cls s h =
     (if length (local_entries h cls) \<ge> THREAD_FRAME_CACHE_LIMIT then (False, h)
      else (True, h\<lparr>local_entries := (local_entries h)(cls := local_entries h cls @ [s])\<rparr>))"

definition local_cache_spill :: "nat \<Rightarrow> frames \<Rightarrow> frames" where
  "local_cache_spill cls h =
     (if length (local_entries h cls) \<le> THREAD_FRAME_CACHE_LOW then h
      else let entries = drop THREAD_FRAME_CACHE_LOW (local_entries h cls);
               (pushed, q) = fifo_enqueue GLOBAL_FRAME_CACHE_LIMIT entries (global_entries h cls);
               h = h\<lparr>local_entries := (local_entries h)(cls := take THREAD_FRAME_CACHE_LOW (local_entries h cls)),
                     global_entries := (global_entries h)(cls := q)\<rparr>
           in put_pages (drop pushed entries) h)"

definition push_or_spill :: "nat \<Rightarrow> slot \<Rightarrow> frames \<Rightarrow> frames" where
  "push_or_spill cls s h =
     (case local_cache_push cls s h of (ok, h) \<Rightarrow>
        if ok then h else snd (local_cache_push cls s (local_cache_spill cls h)))"

definition cache_free_slot :: "slot \<Rightarrow> frames \<Rightarrow> frames" where
  "cache_free_slot s h =
     (case frame_slot_size_class (tx_len h) (slot_size h s) of
        None \<Rightarrow> put_page (fst s) h
      | Some cls \<Rightarrow> push_or_spill cls s h)"

text \<open>\<open>INC_REF\<close> and \<open>PUT_REF\<close> of a slot, the latter with \<open>destroy_frame_slot\<close>.\<close>

definition INC_REF :: "slot \<Rightarrow> frames \<Rightarrow> frames" where
  "INC_REF s h = h\<lparr>slot_ref := (slot_ref h)(s := slot_ref h s + 1)\<rparr>"

definition PUT_REF :: "slot \<Rightarrow> frames \<Rightarrow> frames" where
  "PUT_REF s h =
     (if slot_ref h s = 0 then h
      else let h' = h\<lparr>slot_ref := (slot_ref h)(s := slot_ref h s - 1)\<rparr>
           in if slot_ref h s = 1 then cache_free_slot s h' else h')"

definition local_cache_pop :: "nat \<Rightarrow> frames \<Rightarrow> slot option \<times> frames" where
  "local_cache_pop cls h =
     (if local_entries h cls = [] then (None, h)
      else let s = last (local_entries h cls)
           in (Some s, h\<lparr>local_entries := (local_entries h)(cls := butlast (local_entries h cls)),
                         slot_ref := (slot_ref h)(s := 1)\<rparr>))"

definition local_cache_refill :: "nat \<Rightarrow> frames \<Rightarrow> nat \<times> frames" where
  "local_cache_refill cls h =
     (let want = min THREAD_FRAME_CACHE_LOW (THREAD_FRAME_CACHE_LIMIT - length (local_entries h cls));
          (added, q) = fifo_dequeue want (global_entries h cls)
      in (length added, h\<lparr>local_entries := (local_entries h)(cls := local_entries h cls @ added),
                          global_entries := (global_entries h)(cls := q)\<rparr>))"

definition slot_stride :: "nat \<Rightarrow> nat \<Rightarrow> nat" where
  "slot_stride tx cls = FRAME_ALIGN16 (sizeof_frame_slot + tx + g_frame_slot_sizes tx ! cls)"

definition slot_count :: "nat \<Rightarrow> nat \<Rightarrow> nat" where
  "slot_count tx cls = (FRAME_PAGE_SIZE - FRAME_ALIGN16 sizeof_page_info) div slot_stride tx cls"

definition init_slot :: "slot \<Rightarrow> nat \<Rightarrow> bool \<Rightarrow> frames \<Rightarrow> frames" where
  "init_slot s n allocated h =
     h\<lparr>slot_ref := (slot_ref h)(s := (if allocated then 1 else 0)), slot_size := (slot_size h)(s := n)\<rparr>"

fun fill_page :: "nat \<Rightarrow> nat \<Rightarrow> nat list \<Rightarrow> frames \<Rightarrow> frames" where
  "fill_page cls p [] h = h"
| "fill_page cls p (i # is) h =
     (let h = init_slot (p, i) (g_frame_slot_sizes (tx_len h) ! cls) (i = 0) h
      in fill_page cls p is (if i = 0 then h else push_or_spill cls (p, i) h))"

definition alloc_slot_page :: "nat \<Rightarrow> frames \<Rightarrow> slot option \<times> frames" where
  "alloc_slot_page cls h =
     (case xdp_frame_alloc h of
        (None, h) \<Rightarrow> (None, h)
      | (Some p, h) \<Rightarrow>
          let n = slot_count (tx_len h) cls;
              h = h\<lparr>page_ref := (page_ref h)(p := n)\<rparr>
          in (if n = 0 then None else Some (p, 0), fill_page cls p [0..<n] h))"

definition frame_slot_alloc_class :: "nat \<Rightarrow> frames \<Rightarrow> slot option \<times> frames" where
  "frame_slot_alloc_class cls h =
     (case local_cache_pop cls h of
        (Some s, h) \<Rightarrow> (Some s, h)
      | (None, h) \<Rightarrow>
          (case local_cache_refill cls h of (added, h) \<Rightarrow>
             (case (if added \<noteq> 0 then local_cache_pop cls h else (None, h)) of
                (Some s, h) \<Rightarrow> (Some s, h)
              | (None, h) \<Rightarrow> alloc_slot_page cls h)))"

definition frame_slot_alloc :: "nat \<Rightarrow> frames \<Rightarrow> slot option \<times> frames" where
  "frame_slot_alloc min_data_len h =
     (case frame_size_class (tx_len h) min_data_len of
        None \<Rightarrow> (None, h)
      | Some cls \<Rightarrow> frame_slot_alloc_class cls h)"

definition frame_cache_reset :: "frames \<Rightarrow> frames" where
  "frame_cache_reset h =
     (let h' = fold (\<lambda>cls h. put_pages (local_entries h cls) h) [0..<FRAME_SLOT_CLASS_COUNT] h
      in h'\<lparr>local_entries := (\<lambda>_. [])\<rparr>)"

definition frame_global_cache_reset :: "frames \<Rightarrow> frames" where
  "frame_global_cache_reset h =
     (let h' = fold (\<lambda>cls h. put_pages (global_entries h cls) h) [0..<FRAME_SLOT_CLASS_COUNT] h
      in h'\<lparr>global_entries := (\<lambda>_. [])\<rparr>)"

definition frames_init :: "nat \<Rightarrow> frames" where
  "frames_init tx = \<lparr>bytes_at = (\<lambda>_ _. 0), slot_ref = (\<lambda>_. 0), slot_size = (\<lambda>_. 0), page_ref = (\<lambda>_. 0),
     local_entries = (\<lambda>_. []), global_entries = (\<lambda>_. []), free_frames = [0..<XDP_UMEM_FRAME_CNT],
     mallocs = [], tx_len = tx\<rparr>"

section \<open>Slot geometry\<close>

text \<open>The size of the transmit metadata: the kernel accepts lengths below 256.\<close>

definition tx_ok :: "nat \<Rightarrow> bool" where
  "tx_ok tx \<longleftrightarrow> tx < 256"

lemma FRAME_ALIGN16_bounds: "v \<le> FRAME_ALIGN16 v" "FRAME_ALIGN16 v \<le> v + 15"
proof -
  have "16 * ((v + 15) div 16) + (v + 15) mod 16 = v + 15" "(v + 15) mod 16 < 16"
    by (rule mult_div_mod_eq) simp
  then show "v \<le> FRAME_ALIGN16 v" "FRAME_ALIGN16 v \<le> v + 15" unfolding FRAME_ALIGN16_def by linarith+
qed

lemma FRAME_ALIGN16_add16: "FRAME_ALIGN16 (v + 16) = FRAME_ALIGN16 v + 16"
proof -
  have "v + 16 + 15 = v + 15 + 16" by simp
  then show ?thesis unfolding FRAME_ALIGN16_def by (simp only: div_add_self2) simp
qed

lemma size6_bounds:
  assumes "tx_ok tx"
  shows "3700 < FRAME_SLOT_SIZE_6 tx" "FRAME_SLOT_SIZE_6 tx \<le> 4096"
  using assms FRAME_ALIGN16_bounds [of "FRAME_ALIGN16 16 + 40 + tx"] FRAME_ALIGN16_bounds [of 16]
  by (auto simp: tx_ok_def FRAME_SLOT_SIZE_6_def FRAME_SLOT_FULL_HEADROOM_def FRAME_PAGE_SIZE_def
      sizeof_page_info_def sizeof_frame_slot_def)

lemma first_index_Some:
  "first_index P i xs = Some k \<Longrightarrow> i \<le> k \<and> k - i < length xs \<and> P (xs ! (k - i))"
  by (induction P i xs rule: first_index.induct) (auto split: if_splits simp: nth_Cons' Suc_diff_le)

lemma first_index_None: "first_index P i xs = None \<longleftrightarrow> (\<forall>x \<in> set xs. \<not> P x)"
  by (induction P i xs rule: first_index.induct) auto

lemma length_sizes [simp]: "length (g_frame_slot_sizes tx) = FRAME_SLOT_CLASS_COUNT"
  by (simp add: g_frame_slot_sizes_def FRAME_SLOT_CLASS_COUNT_def)

lemma distinct_sizes: "tx_ok tx \<Longrightarrow> distinct (g_frame_slot_sizes tx)"
  using size6_bounds [of tx] by (auto simp: g_frame_slot_sizes_def)

lemma frame_size_class_Some:
  assumes "frame_size_class tx n = Some cls"
  shows "cls < FRAME_SLOT_CLASS_COUNT" "n \<le> g_frame_slot_sizes tx ! cls"
  using first_index_Some [OF assms [unfolded frame_size_class_def Let_def]] by (auto split: if_splits)

lemma frame_slot_size_class_at:
  assumes "tx_ok tx" "cls < FRAME_SLOT_CLASS_COUNT"
  shows "frame_slot_size_class tx (g_frame_slot_sizes tx ! cls) = Some cls"
proof -
  let ?s = "g_frame_slot_sizes tx"
  obtain k where k: "frame_slot_size_class tx (?s ! cls) = Some k"
    unfolding frame_slot_size_class_def using assms first_index_None [of "\<lambda>s. ?s ! cls = s" 0 ?s]
    by (metis length_sizes not_Some_eq nth_mem)
  then have "k < length ?s" "?s ! cls = ?s ! k"
    using first_index_Some [of "\<lambda>s. ?s ! cls = s" 0 ?s k] by (auto simp: frame_slot_size_class_def)
  then show ?thesis using k distinct_sizes [OF assms(1)] assms(2) by (simp add: nth_eq_iff_index_eq)
qed

lemma sizes_le_6: "tx_ok tx \<Longrightarrow> s \<in> set (g_frame_slot_sizes tx) \<Longrightarrow> 0 < s \<and> s \<le> FRAME_SLOT_SIZE_6 tx"
  using size6_bounds [of tx] by (auto simp: g_frame_slot_sizes_def)

text \<open>Every class has at least one slot in a frame, and the slots lie in the frame one behind the other.\<close>

lemma slot_stride_le:
  assumes "tx_ok tx" "cls < FRAME_SLOT_CLASS_COUNT"
  shows "0 < slot_stride tx cls" "slot_stride tx cls \<le> FRAME_PAGE_SIZE - FRAME_ALIGN16 sizeof_page_info"
proof -
  let ?A = "FRAME_ALIGN16 (FRAME_ALIGN16 sizeof_page_info + sizeof_frame_slot + tx)"
  have s: "g_frame_slot_sizes tx ! cls \<le> FRAME_SLOT_SIZE_6 tx" using sizes_le_6 [OF assms(1)] assms(2) by simp
  have a16: "FRAME_ALIGN16 sizeof_page_info = 16" by (simp add: FRAME_ALIGN16_def sizeof_page_info_def)
  have A: "?A = FRAME_ALIGN16 (sizeof_frame_slot + tx) + 16"
    using FRAME_ALIGN16_add16 [of "sizeof_frame_slot + tx"] unfolding a16 by (simp add: ac_simps)
  have "?A < FRAME_PAGE_SIZE"
    using size6_bounds(1) [OF assms(1)] by (simp add: FRAME_SLOT_SIZE_6_def FRAME_SLOT_FULL_HEADROOM_def)
  then have "sizeof_frame_slot + tx + FRAME_SLOT_SIZE_6 tx \<le> 4080"
    using FRAME_ALIGN16_bounds(1) [of "sizeof_frame_slot + tx"] A
    by (simp add: FRAME_SLOT_SIZE_6_def FRAME_SLOT_FULL_HEADROOM_def FRAME_PAGE_SIZE_def)
  then have "sizeof_frame_slot + tx + g_frame_slot_sizes tx ! cls \<le> 4080" using s by simp
  then have "(sizeof_frame_slot + tx + g_frame_slot_sizes tx ! cls + 15) div 16 \<le> (4080 + 15) div 16"
    by (intro div_le_mono) simp
  then show "slot_stride tx cls \<le> FRAME_PAGE_SIZE - FRAME_ALIGN16 sizeof_page_info"
    unfolding a16 unfolding slot_stride_def FRAME_ALIGN16_def FRAME_PAGE_SIZE_def by simp
  show "0 < slot_stride tx cls"
    using FRAME_ALIGN16_bounds(1) [of "sizeof_frame_slot + tx + g_frame_slot_sizes tx ! cls"]
    by (simp add: slot_stride_def sizeof_frame_slot_def)
qed

lemma slot_count_pos: "tx_ok tx \<Longrightarrow> cls < FRAME_SLOT_CLASS_COUNT \<Longrightarrow> 0 < slot_count tx cls"
  using slot_stride_le [of tx cls] by (simp add: slot_count_def div_greater_zero_iff)

section \<open>Accounting of slots and frames\<close>

definition entries :: "frames \<Rightarrow> nat \<Rightarrow> slot list" where
  "entries h c = local_entries h c @ global_entries h c"

definition cached :: "frames \<Rightarrow> slot set" where
  "cached h = (\<Union>c<FRAME_SLOT_CLASS_COUNT. set (entries h c))"

definition live :: "frames \<Rightarrow> slot set" where
  "live h = {s. 0 < slot_ref h s}"

definition class_ok :: "frames \<Rightarrow> nat \<Rightarrow> bool" where
  "class_ok h c \<longleftrightarrow> distinct (entries h c) \<and>
     (\<forall>s \<in> set (entries h c). slot_size h s = g_frame_slot_sizes (tx_len h) ! c \<and> slot_ref h s = 0) \<and>
     length (local_entries h c) \<le> THREAD_FRAME_CACHE_LIMIT \<and> length (global_entries h c) \<le> GLOBAL_FRAME_CACHE_LIMIT"

definition pages_ok :: "slot set \<Rightarrow> frames \<Rightarrow> bool" where
  "pages_ok A h \<longleftrightarrow> finite A \<and> (\<forall>s \<in> A. fst s < XDP_UMEM_FRAME_CNT) \<and>
     (\<forall>p. page_ref h p = card {s \<in> A. fst s = p}) \<and> distinct (free_frames h) \<and>
     (\<forall>p. p \<in> set (free_frames h) \<longleftrightarrow> p < XDP_UMEM_FRAME_CNT \<and> page_ref h p = 0)"

text \<open>
  The invariant, with a set \<open>L\<close> of slots that are on their way between being live and being cached.
  A frame's reference count is the number of its slots that are live, cached or under way, and the
  pool holds exactly the frames with none.
\<close>

definition frames_inv :: "slot set \<Rightarrow> frames \<Rightarrow> bool" where
  "frames_inv L h \<longleftrightarrow> tx_ok (tx_len h) \<and> (\<forall>c < FRAME_SLOT_CLASS_COUNT. class_ok h c) \<and>
     (\<forall>s \<in> live h. slot_size h s \<in> set (g_frame_slot_sizes (tx_len h))) \<and>
     L \<inter> (live h \<union> cached h) = {} \<and> pages_ok (live h \<union> cached h \<union> L) h"

lemma frames_inv_D:
  assumes "frames_inv L h"
  shows inv_tx: "tx_ok (tx_len h)" and inv_class: "c < FRAME_SLOT_CLASS_COUNT \<Longrightarrow> class_ok h c"
    and inv_live_size: "s \<in> live h \<Longrightarrow> slot_size h s \<in> set (g_frame_slot_sizes (tx_len h))"
    and inv_limbo: "L \<inter> (live h \<union> cached h) = {}" and inv_pages: "pages_ok (live h \<union> cached h \<union> L) h"
  using assms by (auto simp: frames_inv_def)

lemma class_ok_entry:
  assumes "class_ok h c" "s \<in> set (entries h c)"
  shows "slot_size h s = g_frame_slot_sizes (tx_len h) ! c" "slot_ref h s = 0"
  using assms by (simp_all add: class_ok_def)

lemma cached_ref:
  assumes "frames_inv L h" "s \<in> cached h"
  shows "slot_ref h s = 0"
  using assms class_ok_entry(2) [OF inv_class [OF assms(1)]] unfolding cached_def by blast

lemma limbo_ref: "frames_inv L h \<Longrightarrow> s \<in> L \<Longrightarrow> slot_ref h s = 0"
  by (auto simp: frames_inv_def live_def)

lemma pages_ok_frame:
  "pages_ok A h \<Longrightarrow> page_ref h' = page_ref h \<Longrightarrow> free_frames h' = free_frames h \<Longrightarrow> pages_ok A h'"
  by (simp add: pages_ok_def)

lemma put_page_frame [simp]:
  "slot_ref (put_page p h) = slot_ref h" "slot_size (put_page p h) = slot_size h"
  "bytes_at (put_page p h) = bytes_at h" "local_entries (put_page p h) = local_entries h"
  "global_entries (put_page p h) = global_entries h" "tx_len (put_page p h) = tx_len h"
  "mallocs (put_page p h) = mallocs h"
  by (simp_all add: put_page_def xdp_frame_free_def Let_def)

lemma put_page_ok:
  assumes ok: "pages_ok A h" and s: "s \<in> A"
  shows "pages_ok (A - {s}) (put_page (fst s) h)"
proof -
  let ?p = "fst s"
  let ?B = "\<lambda>p. {t \<in> A. fst t = p}"
  have fin: "finite A" and cnt: "\<And>p. page_ref h p = card (?B p)" and d: "distinct (free_frames h)"
    and free: "\<And>p. p \<in> set (free_frames h) \<longleftrightarrow> p < XDP_UMEM_FRAME_CNT \<and> page_ref h p = 0"
    and lt: "\<And>s. s \<in> A \<Longrightarrow> fst s < XDP_UMEM_FRAME_CNT"
    using ok by (auto simp: pages_ok_def)
  have "s \<in> ?B ?p" "finite (?B ?p)" using fin s by simp_all
  then have pos: "0 < page_ref h ?p" unfolding cnt card_gt_0_iff by blast
  have minus: "card {t \<in> A - {s}. fst t = p} = (if p = ?p then page_ref h ?p - 1 else page_ref h p)" for p
  proof -
    have "{t \<in> A - {s}. fst t = p} = (if p = ?p then ?B ?p - {s} else ?B p)" by auto
    then show ?thesis using fin s by (simp add: cnt card_Diff_singleton)
  qed
  have notin: "?p \<notin> set (free_frames h)" using free pos by simp
  have "set (free_frames h) \<subset> {..<XDP_UMEM_FRAME_CNT}"
    using free notin lt [OF s] by (metis lessThan_iff psubsetI subsetI)
  then have "card (set (free_frames h)) < card {..<XDP_UMEM_FRAME_CNT}"
    by (rule psubset_card_mono [OF finite_lessThan])
  then have room: "length (free_frames h) < XDP_UMEM_FRAME_CNT" using d by (simp add: distinct_card)
  have refs: "page_ref (put_page ?p h) = (page_ref h)(?p := page_ref h ?p - 1)"
    using pos by (simp add: put_page_def xdp_frame_free_def Let_def)
  have frees: "free_frames (put_page ?p h) = free_frames h @ (if page_ref h ?p = 1 then [?p] else [])"
    using pos room lt [OF s] by (simp add: put_page_def xdp_frame_free_def Let_def)
  show ?thesis
    unfolding pages_ok_def refs frees minus
  proof (intro conjI allI)
    show "q \<in> set (free_frames h @ (if page_ref h ?p = 1 then [?p] else [])) \<longleftrightarrow>
        q < XDP_UMEM_FRAME_CNT \<and> ((page_ref h)(?p := page_ref h ?p - 1)) q = 0" for q
      using notin free [of q] pos lt [OF s] by (cases "q = ?p") auto
  qed (use fin lt d notin in auto)
qed

lemma put_pages_frame [simp]:
  "slot_ref (put_pages ss h) = slot_ref h" "slot_size (put_pages ss h) = slot_size h"
  "bytes_at (put_pages ss h) = bytes_at h" "local_entries (put_pages ss h) = local_entries h"
  "global_entries (put_pages ss h) = global_entries h" "tx_len (put_pages ss h) = tx_len h"
  "mallocs (put_pages ss h) = mallocs h"
  unfolding put_pages_def by (induction ss arbitrary: h) simp_all

lemma put_pages_ok:
  "pages_ok A h \<Longrightarrow> distinct ss \<Longrightarrow> set ss \<subseteq> A \<Longrightarrow> pages_ok (A - set ss) (put_pages ss h)"
proof (induction ss arbitrary: A h)
  case (Cons s ss)
  have "pages_ok (A - {s} - set ss) (put_pages ss (put_page (fst s) h))"
    using Cons.prems by (intro Cons.IH put_page_ok) auto
  moreover have "A - {s} - set ss = A - set (s # ss)" by auto
  ultimately show ?case by (simp add: put_pages_def)
qed (simp add: put_pages_def)

text \<open>Changing the caches of one class.\<close>

lemma cached_update:
  assumes "c < FRAME_SLOT_CLASS_COUNT" "\<And>d. d \<noteq> c \<Longrightarrow> entries h' d = entries h d"
  shows "cached h' = (\<Union>d \<in> {..<FRAME_SLOT_CLASS_COUNT} - {c}. set (entries h d)) \<union> set (entries h' c)"
proof -
  let ?N = "{..<FRAME_SLOT_CLASS_COUNT}"
  have "?N = insert c (?N - {c})" using assms(1) by auto
  then have "cached h' = set (entries h' c) \<union> (\<Union>d \<in> ?N - {c}. set (entries h' d))"
    unfolding cached_def by (metis UN_insert)
  also have "(\<Union>d \<in> ?N - {c}. set (entries h' d)) = (\<Union>d \<in> ?N - {c}. set (entries h d))"
    using assms(2) by (intro SUP_cong) auto
  finally show ?thesis by (simp add: Un_commute)
qed

lemma class_exclusive:
  assumes inv: "frames_inv L h" and "c < FRAME_SLOT_CLASS_COUNT" "d < FRAME_SLOT_CLASS_COUNT" "c \<noteq> d"
  shows "set (entries h c) \<inter> set (entries h d) = {}"
proof -
  have "g_frame_slot_sizes (tx_len h) ! c \<noteq> g_frame_slot_sizes (tx_len h) ! d"
    using assms distinct_sizes [OF inv_tx [OF inv]] by (simp add: nth_eq_iff_index_eq)
  then show ?thesis
    using class_ok_entry(1) [OF inv_class [OF inv assms(2)]] class_ok_entry(1) [OF inv_class [OF inv assms(3)]] by fastforce
qed

lemma cache_move:
  assumes inv: "frames_inv L h" and c: "c < FRAME_SLOT_CLASS_COUNT"
    and same: "slot_ref h' = slot_ref h" "slot_size h' = slot_size h" "tx_len h' = tx_len h"
      "page_ref h' = page_ref h" "free_frames h' = free_frames h" "\<And>d. d \<noteq> c \<Longrightarrow> local_entries h' d = local_entries h d"
      "\<And>d. d \<noteq> c \<Longrightarrow> global_entries h' d = global_entries h d"
    and ok: "class_ok h' c" and moved: "set (entries h' c) \<union> L' = set (entries h c) \<union> L" "L' \<inter> set (entries h' c) = {}"
  shows "frames_inv L' h'"
proof -
  have ent: "entries h' d = entries h d" if "d \<noteq> c" for d using same that by (simp add: entries_def)
  let ?R = "\<Union>d \<in> {..<FRAME_SLOT_CLASS_COUNT} - {c}. set (entries h d)"
  have cached: "cached h' = ?R \<union> set (entries h' c)" "cached h = ?R \<union> set (entries h c)"
    using cached_update [OF c, of h' h] cached_update [OF c, of h h] ent by auto
  have R: "?R \<inter> (set (entries h c) \<union> L) = {}"
    using class_exclusive [OF inv c] inv_limbo [OF inv] unfolding cached(2) by blast
  have live: "live h' = live h" using same by (simp add: live_def)
  have L'live: "L' \<inter> live h = {}"
  proof -
    have "(set (entries h c) \<union> L) \<inter> live h = {}"
      using inv_limbo [OF inv] class_ok_entry(2) [OF inv_class [OF inv c]] by (fastforce simp: live_def)
    then show ?thesis using moved(1) by blast
  qed
  have union: "live h' \<union> cached h' \<union> L' = live h \<union> cached h \<union> L"
    unfolding live cached using moved(1) by blast
  have "class_ok h' d" if "d < FRAME_SLOT_CLASS_COUNT" for d
  proof (cases "d = c")
    case False
    then show ?thesis using inv_class [OF inv that] same ent [of d] by (simp add: class_ok_def)
  qed (use ok in simp)
  moreover have "L' \<inter> (live h' \<union> cached h') = {}" unfolding live cached using L'live moved R by blast
  moreover have "pages_ok (live h' \<union> cached h' \<union> L') h'"
    unfolding union using pages_ok_frame [OF inv_pages [OF inv]] same by blast
  ultimately show ?thesis
    using inv_tx [OF inv] inv_live_size [OF inv] same unfolding frames_inv_def live by simp
qed

text \<open>What the cache moves leave alone.\<close>

lemma local_cache_push_frame [simp]:
  "slot_ref (snd (local_cache_push c s h)) = slot_ref h" "slot_size (snd (local_cache_push c s h)) = slot_size h"
  "bytes_at (snd (local_cache_push c s h)) = bytes_at h" "tx_len (snd (local_cache_push c s h)) = tx_len h"
  "mallocs (snd (local_cache_push c s h)) = mallocs h"
  by (simp_all add: local_cache_push_def)

lemma local_cache_spill_frame [simp]:
  "slot_ref (local_cache_spill c h) = slot_ref h" "slot_size (local_cache_spill c h) = slot_size h"
  "bytes_at (local_cache_spill c h) = bytes_at h" "tx_len (local_cache_spill c h) = tx_len h"
  "mallocs (local_cache_spill c h) = mallocs h"
  by (simp_all add: local_cache_spill_def Let_def split: prod.split)

lemma push_or_spill_eq:
  "push_or_spill c s h =
     (if length (local_entries h c) < THREAD_FRAME_CACHE_LIMIT then snd (local_cache_push c s h)
      else snd (local_cache_push c s (local_cache_spill c h)))"
  by (simp add: push_or_spill_def local_cache_push_def)

lemma push_or_spill_frame [simp]:
  "slot_ref (push_or_spill c s h) = slot_ref h" "slot_size (push_or_spill c s h) = slot_size h"
  "bytes_at (push_or_spill c s h) = bytes_at h" "tx_len (push_or_spill c s h) = tx_len h"
  "mallocs (push_or_spill c s h) = mallocs h"
  by (simp_all add: push_or_spill_eq)

lemma put_pages_inv:
  assumes inv: "frames_inv (L \<union> set ss) h" and ss: "distinct ss" "set ss \<inter> L = {}"
  shows "frames_inv L (put_pages ss h)"
proof -
  let ?h = "put_pages ss h"
  have same: "live ?h = live h" "cached ?h = cached h" "\<And>c. class_ok ?h c = class_ok h c"
    by (simp_all add: live_def cached_def entries_def class_ok_def)
  have "pages_ok (live h \<union> cached h \<union> (L \<union> set ss) - set ss) ?h"
    using put_pages_ok [OF inv_pages [OF inv] ss(1)] by blast
  moreover have "live h \<union> cached h \<union> (L \<union> set ss) - set ss = live h \<union> cached h \<union> L"
    using inv_limbo [OF inv] ss(2) by blast
  ultimately have "pages_ok (live h \<union> cached h \<union> L) ?h" by simp
  then show ?thesis
    using inv_tx [OF inv] inv_class [OF inv] inv_live_size [OF inv] inv_limbo [OF inv]
    unfolding frames_inv_def same by auto
qed

lemma local_cache_push_inv:
  assumes inv: "frames_inv (insert s L) h" and s: "s \<notin> L" and c: "c < FRAME_SLOT_CLASS_COUNT"
    and sz: "slot_size h s = g_frame_slot_sizes (tx_len h) ! c"
    and room: "length (local_entries h c) < THREAD_FRAME_CACHE_LIMIT"
  shows "frames_inv L (snd (local_cache_push c s h))"
proof -
  let ?h = "snd (local_cache_push c s h)"
  have ent: "local_entries ?h = (local_entries h)(c := local_entries h c @ [s])" "global_entries ?h = global_entries h"
    "page_ref ?h = page_ref h" "free_frames ?h = free_frames h"
    using room by (simp_all add: local_cache_push_def)
  have out: "s \<notin> live h" "s \<notin> set (entries h c)"
    using inv_limbo [OF inv] c unfolding cached_def by blast+
  have set: "set (entries ?h c) = insert s (set (entries h c))" by (simp add: ent entries_def)
  show ?thesis
  proof (rule cache_move [OF inv c])
    show "class_ok ?h c"
      using inv_class [OF inv c] out sz room by (auto simp: class_ok_def entries_def ent live_def)
    show "set (entries ?h c) \<union> L = set (entries h c) \<union> insert s L" unfolding set by blast
    show "L \<inter> set (entries ?h c) = {}"
      unfolding set using s inv_limbo [OF inv] c unfolding cached_def by blast
  qed (simp_all add: ent)
qed

lemma local_cache_spill_inv:
  assumes inv: "frames_inv L h" and c: "c < FRAME_SLOT_CLASS_COUNT"
  shows "frames_inv L (local_cache_spill c h)" "length (local_entries (local_cache_spill c h) c) \<le> THREAD_FRAME_CACHE_LOW"
proof -
  let ?l = "local_entries h c" and ?g = "global_entries h c"
  define es where "es = drop THREAD_FRAME_CACHE_LOW ?l"
  define k where "k = min (length es) (GLOBAL_FRAME_CACHE_LIMIT - length ?g)"
  define A where "A = take THREAD_FRAME_CACHE_LOW ?l"
  define B where "B = take k es"
  define D where "D = drop k es"
  let ?h = "h\<lparr>local_entries := (local_entries h)(c := A), global_entries := (global_entries h)(c := ?g @ B)\<rparr>"
  have ok: "class_ok h c" by (rule inv_class [OF inv c])
  have split: "?l = A @ B @ D" by (simp only: A_def B_def D_def es_def append_take_drop_id)
  have lens: "length A \<le> length ?l" "length ?g + length B \<le> max (length ?g) GLOBAL_FRAME_CACHE_LIMIT"
    by (auto simp: A_def B_def k_def)
  have cls: "class_ok ?h c" using ok lens unfolding class_ok_def entries_def split by auto
  have set: "set (entries ?h c) \<union> set D = set (entries h c)" unfolding entries_def split by auto
  have dist: "set D \<inter> set (entries ?h c) = {}" "distinct D"
    using ok unfolding class_ok_def entries_def split by auto
  have "frames_inv (L \<union> set D) ?h"
  proof (rule cache_move [OF inv c _ _ _ _ _ _ _ cls])
    show "set (entries ?h c) \<union> (L \<union> set D) = set (entries h c) \<union> L" using set by blast
    show "(L \<union> set D) \<inter> set (entries ?h c) = {}"
      using dist(1) set inv_limbo [OF inv] c unfolding cached_def by blast
  qed simp_all
  moreover have "set D \<inter> L = {}" using set inv_limbo [OF inv] c unfolding cached_def by blast
  ultimately have put: "frames_inv L (put_pages D ?h)" using dist(2) by (intro put_pages_inv)
  have eq: "local_cache_spill c h = (if length ?l \<le> THREAD_FRAME_CACHE_LOW then h else put_pages D ?h)"
    by (simp add: local_cache_spill_def fifo_enqueue_def Let_def A_def B_def D_def es_def k_def)
  show "frames_inv L (local_cache_spill c h)" unfolding eq using put inv by simp
  show "length (local_entries (local_cache_spill c h) c) \<le> THREAD_FRAME_CACHE_LOW" unfolding eq by (simp add: A_def)
qed

lemma push_or_spill_inv:
  assumes inv: "frames_inv (insert s L) h" and s: "s \<notin> L" and c: "c < FRAME_SLOT_CLASS_COUNT"
    and sz: "slot_size h s = g_frame_slot_sizes (tx_len h) ! c"
  shows "frames_inv L (push_or_spill c s h)"
proof (cases "length (local_entries h c) < THREAD_FRAME_CACHE_LIMIT")
  case True
  then show ?thesis using local_cache_push_inv [OF inv s c sz] by (simp add: push_or_spill_eq)
next
  case False
  note spill = local_cache_spill_inv [OF inv c]
  have "length (local_entries (local_cache_spill c h) c) < THREAD_FRAME_CACHE_LIMIT"
    using spill(2) by (simp add: THREAD_FRAME_CACHE_LOW_def THREAD_FRAME_CACHE_LIMIT_def)
  then show ?thesis
    using local_cache_push_inv [OF spill(1) s c] sz False by (simp add: push_or_spill_eq)
qed

lemma live_to_limbo:
  assumes inv: "frames_inv L h" and s: "slot_ref h s = 1"
  shows "frames_inv (insert s L) (h\<lparr>slot_ref := (slot_ref h)(s := 0)\<rparr>)" "s \<notin> L"
proof -
  let ?h = "h\<lparr>slot_ref := (slot_ref h)(s := 0)\<rparr>"
  have live: "live ?h = live h - {s}" "s \<in> live h" using s by (auto simp: live_def)
  have cached: "cached ?h = cached h" by (simp add: cached_def entries_def)
  have notc: "s \<notin> cached h" using cached_ref [OF inv, of s] s by auto
  show "s \<notin> L" using live(2) inv_limbo [OF inv] by blast
  have cls: "class_ok ?h c" if "c < FRAME_SLOT_CLASS_COUNT" for c
    using inv_class [OF inv that] by (simp add: class_ok_def entries_def)
  have "live ?h \<union> cached ?h \<union> insert s L = live h \<union> cached h \<union> L" unfolding live cached using live(2) by blast
  then have "pages_ok (live ?h \<union> cached ?h \<union> insert s L) ?h"
    using pages_ok_frame [OF inv_pages [OF inv], of ?h] by simp
  then show "frames_inv (insert s L) ?h"
    using cls inv_tx [OF inv] inv_live_size [OF inv] inv_limbo [OF inv] notc
    unfolding frames_inv_def live(1) cached by auto
qed

lemma limbo_to_live:
  assumes inv: "frames_inv (insert s L) h" and L: "s \<notin> L" and sz: "slot_size h s \<in> set (g_frame_slot_sizes (tx_len h))"
  shows "frames_inv L (h\<lparr>slot_ref := (slot_ref h)(s := 1)\<rparr>)"
proof -
  let ?h = "h\<lparr>slot_ref := (slot_ref h)(s := 1)\<rparr>"
  have live: "live ?h = insert s (live h)" by (auto simp: live_def)
  have cached: "cached ?h = cached h" by (simp add: cached_def entries_def)
  have notc: "s \<notin> cached h" using inv_limbo [OF inv] by blast
  have cls: "class_ok ?h c" if "c < FRAME_SLOT_CLASS_COUNT" for c
  proof -
    have "s \<notin> set (entries h c)" using notc that unfolding cached_def by blast
    then show ?thesis using inv_class [OF inv that] by (auto simp: class_ok_def entries_def)
  qed
  have "live ?h \<union> cached ?h \<union> L = live h \<union> cached h \<union> insert s L" unfolding live cached by blast
  then have "pages_ok (live ?h \<union> cached ?h \<union> L) ?h"
    using pages_ok_frame [OF inv_pages [OF inv], of ?h] by simp
  then show ?thesis
    using cls inv_tx [OF inv] inv_live_size [OF inv] inv_limbo [OF inv] notc sz L
    unfolding frames_inv_def live cached by auto
qed

lemma limbo_resize:
  assumes inv: "frames_inv L h" and s: "s \<in> L"
  shows "frames_inv L (h\<lparr>slot_size := (slot_size h)(s := k)\<rparr>)"
proof -
  let ?h = "h\<lparr>slot_size := (slot_size h)(s := k)\<rparr>"
  have same: "live ?h = live h" "cached ?h = cached h" by (simp_all add: live_def cached_def entries_def)
  have out: "s \<notin> live h" "s \<notin> cached h" using inv_limbo [OF inv] s by blast+
  have "class_ok ?h c" if "c < FRAME_SLOT_CLASS_COUNT" for c
  proof -
    have "s \<notin> set (entries h c)" using out(2) that unfolding cached_def by blast
    then show ?thesis using inv_class [OF inv that] by (auto simp: class_ok_def entries_def)
  qed
  then show ?thesis
    using inv_tx [OF inv] inv_live_size [OF inv] inv_limbo [OF inv] out pages_ok_frame [OF inv_pages [OF inv], of ?h]
    unfolding frames_inv_def same by auto
qed

section \<open>The operations keep the accounts\<close>

lemma INC_REF_inv:
  assumes inv: "frames_inv L h" and s: "0 < slot_ref h s"
  shows "frames_inv L (INC_REF s h)"
proof -
  let ?h = "INC_REF s h"
  have same: "live ?h = live h" "cached ?h = cached h" using s by (auto simp: live_def cached_def entries_def INC_REF_def)
  have "class_ok ?h c" if "c < FRAME_SLOT_CLASS_COUNT" for c
  proof -
    have "s \<notin> set (entries h c)" using class_ok_entry(2) [OF inv_class [OF inv that], of s] s by auto
    then show ?thesis using inv_class [OF inv that] by (auto simp: class_ok_def entries_def INC_REF_def)
  qed
  moreover have "pages_ok (live h \<union> cached h \<union> L) ?h"
    using pages_ok_frame [OF inv_pages [OF inv], of ?h] by (simp add: INC_REF_def)
  moreover have "slot_size ?h = slot_size h" "tx_len ?h = tx_len h" by (simp_all add: INC_REF_def)
  ultimately show ?thesis
    using inv_tx [OF inv] inv_live_size [OF inv] inv_limbo [OF inv] unfolding frames_inv_def same by simp
qed

lemma PUT_REF_frame [simp]:
  "slot_ref (PUT_REF s h) = (slot_ref h)(s := slot_ref h s - 1)" "slot_size (PUT_REF s h) = slot_size h"
  "bytes_at (PUT_REF s h) = bytes_at h" "tx_len (PUT_REF s h) = tx_len h" "mallocs (PUT_REF s h) = mallocs h"
  by (auto simp: PUT_REF_def cache_free_slot_def Let_def split: option.split)

lemma PUT_REF_inv:
  assumes inv: "frames_inv L h"
  shows "frames_inv L (PUT_REF s h)"
proof -
  consider "slot_ref h s = 0" | "slot_ref h s = 1" | "1 < slot_ref h s" by linarith
  then show ?thesis
  proof cases
    case 2
    let ?h = "h\<lparr>slot_ref := (slot_ref h)(s := 0)\<rparr>"
    have "slot_size h s \<in> set (g_frame_slot_sizes (tx_len h))"
      using inv_live_size [OF inv, of s] 2 by (simp add: live_def)
    then obtain c where c: "c < FRAME_SLOT_CLASS_COUNT" "slot_size h s = g_frame_slot_sizes (tx_len h) ! c"
      by (auto simp: in_set_conv_nth)
    then have "cache_free_slot s ?h = push_or_spill c s ?h"
      by (simp add: cache_free_slot_def frame_slot_size_class_at [OF inv_tx [OF inv] c(1)])
    moreover have "frames_inv L (push_or_spill c s ?h)"
      using c live_to_limbo [OF inv 2] by (intro push_or_spill_inv) simp_all
    ultimately show ?thesis using 2 by (simp add: PUT_REF_def)
  next
    case 3
    let ?h = "h\<lparr>slot_ref := (slot_ref h)(s := slot_ref h s - 1)\<rparr>"
    have "frames_inv L ?h"
    proof -
      have same: "live ?h = live h" "cached ?h = cached h" using 3 by (auto simp: live_def cached_def entries_def)
      have "class_ok ?h c" if "c < FRAME_SLOT_CLASS_COUNT" for c
      proof -
        have "s \<notin> set (entries h c)" using class_ok_entry(2) [OF inv_class [OF inv that], of s] 3 by auto
        then show ?thesis using inv_class [OF inv that] by (auto simp: class_ok_def entries_def)
      qed
      then show ?thesis
        using inv_tx [OF inv] inv_live_size [OF inv] inv_limbo [OF inv] pages_ok_frame [OF inv_pages [OF inv], of ?h]
        unfolding frames_inv_def same by simp
    qed
    then show ?thesis using 3 by (simp add: PUT_REF_def)
  qed (simp add: PUT_REF_def inv)
qed

text \<open>What an allocation of class \<open>c\<close> may change.\<close>

definition grants :: "nat \<Rightarrow> frames \<Rightarrow> slot option \<Rightarrow> frames \<Rightarrow> bool" where
  "grants c h r h' \<longleftrightarrow> bytes_at h' = bytes_at h \<and> tx_len h' = tx_len h \<and> mallocs h' = mallocs h \<and>
     (\<forall>t \<in> live h. slot_size h' t = slot_size h t) \<and>
     (case r of None \<Rightarrow> slot_ref h' = slot_ref h
      | Some s \<Rightarrow> slot_ref h s = 0 \<and> slot_ref h' = (slot_ref h)(s := 1) \<and>
                  slot_size h' s = g_frame_slot_sizes (tx_len h) ! c)"

lemma local_cache_pop_inv:
  assumes inv: "frames_inv L h" and c: "c < FRAME_SLOT_CLASS_COUNT" and ne: "local_entries h c \<noteq> []"
  defines "s \<equiv> last (local_entries h c)" and "h' \<equiv> snd (local_cache_pop c h)"
  shows "frames_inv L h'" "grants c h (Some s) h'" "fst (local_cache_pop c h) = Some s"
proof -
  let ?l = "local_entries h c"
  let ?h = "h\<lparr>local_entries := (local_entries h)(c := butlast ?l)\<rparr>"
  have l: "?l = butlast ?l @ [s]" using ne by (simp add: s_def)
  have ok: "class_ok h c" by (rule inv_class [OF inv c])
  have s_in: "s \<in> set (entries h c)" unfolding entries_def by (subst l) simp
  note sz = class_ok_entry [OF ok s_in]
  have dist: "distinct (butlast ?l @ [s] @ global_entries h c)"
    using ok l unfolding class_ok_def entries_def by (metis append_assoc)
  have set: "set (entries h c) = insert s (set (entries ?h c))" unfolding entries_def by (subst l) auto
  have notin: "s \<notin> set (entries ?h c)" using dist by (auto simp: entries_def)
  have L: "s \<notin> L" using s_in inv_limbo [OF inv] c unfolding cached_def by blast
  have "frames_inv (insert s L) ?h"
  proof (rule cache_move [OF inv c])
    show "class_ok ?h c"
      using ok dist set by (auto simp: class_ok_def entries_def)
    show "set (entries ?h c) \<union> insert s L = set (entries h c) \<union> L" unfolding set by blast
    show "insert s L \<inter> set (entries ?h c) = {}"
      using notin set inv_limbo [OF inv] c unfolding cached_def by blast
  qed simp_all
  from limbo_to_live [OF this L] have "frames_inv L (?h\<lparr>slot_ref := (slot_ref ?h)(s := 1)\<rparr>)"
    using sz(1) c by simp
  then show "frames_inv L h'" using ne by (simp add: h'_def local_cache_pop_def s_def Let_def)
  show "grants c h (Some s) h'" using ne sz by (simp add: grants_def h'_def local_cache_pop_def s_def Let_def)
  show "fst (local_cache_pop c h) = Some s" using ne by (simp add: local_cache_pop_def s_def Let_def)
qed

lemma local_cache_refill_inv:
  assumes inv: "frames_inv L h" and c: "c < FRAME_SLOT_CLASS_COUNT"
  shows "frames_inv L (snd (local_cache_refill c h))" "grants c h None (snd (local_cache_refill c h))"
    "fst (local_cache_refill c h) \<noteq> 0 \<Longrightarrow> local_entries (snd (local_cache_refill c h)) c \<noteq> []"
proof -
  let ?h = "snd (local_cache_refill c h)" and ?l = "local_entries h c"
  define w where "w = min THREAD_FRAME_CACHE_LOW (THREAD_FRAME_CACHE_LIMIT - length ?l)"
  define A where "A = take w (global_entries h c)"
  define B where "B = drop w (global_entries h c)"
  have g: "global_entries h c = A @ B" by (simp add: A_def B_def)
  have ent: "local_entries ?h = (local_entries h)(c := ?l @ A)" "global_entries ?h = (global_entries h)(c := B)"
    "slot_ref ?h = slot_ref h" "slot_size ?h = slot_size h" "tx_len ?h = tx_len h" "page_ref ?h = page_ref h"
    "free_frames ?h = free_frames h" "bytes_at ?h = bytes_at h" "mallocs ?h = mallocs h"
    by (simp_all add: local_cache_refill_def fifo_dequeue_def Let_def A_def B_def w_def)
  have e: "entries ?h c = entries h c" by (simp add: entries_def ent g)
  have ok: "class_ok h c" by (rule inv_class [OF inv c])
  have "length (?l @ A) \<le> THREAD_FRAME_CACHE_LIMIT" using ok by (auto simp: class_ok_def A_def w_def)
  moreover have "length B \<le> GLOBAL_FRAME_CACHE_LIMIT" using ok g by (auto simp: class_ok_def)
  ultimately have cls: "class_ok ?h c" using ok unfolding class_ok_def e by (simp add: ent)
  show "frames_inv L ?h"
    by (rule cache_move [OF inv c _ _ _ _ _ _ _ cls]) (use inv_limbo [OF inv] c in \<open>auto simp: ent e cached_def\<close>)
  show "grants c h None ?h" by (simp add: grants_def ent)
  show "local_entries ?h c \<noteq> []" if "fst (local_cache_refill c h) \<noteq> 0"
    using that by (auto simp: ent local_cache_refill_def fifo_dequeue_def Let_def A_def w_def)
qed

lemma fill_rest:
  assumes "frames_inv (L \<union> Pair p ` set is) h" "c < FRAME_SLOT_CLASS_COUNT" "0 \<notin> set is" "distinct is"
    "L \<inter> Pair p ` set is = {}"
  shows "frames_inv L (fill_page c p is h) \<and> slot_ref (fill_page c p is h) = slot_ref h \<and>
    bytes_at (fill_page c p is h) = bytes_at h \<and> tx_len (fill_page c p is h) = tx_len h \<and>
    mallocs (fill_page c p is h) = mallocs h \<and>
    (\<forall>t. t \<notin> Pair p ` set is \<longrightarrow> slot_size (fill_page c p is h) t = slot_size h t)"
  using assms
proof (induction "is" arbitrary: h)
  case (Cons i "is")
  let ?L = "L \<union> Pair p ` set is"
  let ?s = "(p, i)"
  let ?h = "h\<lparr>slot_size := (slot_size h)(?s := g_frame_slot_sizes (tx_len h) ! c)\<rparr>"
  have i: "i \<noteq> 0" "i \<notin> set is" "?s \<notin> ?L" using Cons.prems by auto
  have ins: "L \<union> Pair p ` set (i # is) = insert ?s ?L" by auto
  have inv: "frames_inv (insert ?s ?L) h" using Cons.prems(1) unfolding ins .
  have "(slot_ref h)(?s := 0) = slot_ref h" using limbo_ref [OF inv, of ?s] by auto
  then have init: "init_slot ?s (g_frame_slot_sizes (tx_len h) ! c) (i = 0) h = ?h"
    using i(1) by (simp add: init_slot_def)
  have inv': "frames_inv ?L (push_or_spill c ?s ?h)"
    using limbo_resize [OF inv, of ?s] i(3) Cons.prems(2) by (intro push_or_spill_inv) simp_all
  have step: "fill_page c p (i # is) h = fill_page c p is (push_or_spill c ?s ?h)"
    using init i(1) by (simp add: Let_def)
  show ?case
    unfolding step using Cons.IH [OF inv' Cons.prems(2)] Cons.prems(3-5) by auto
qed simp

lemma alloc_slot_page_inv:
  assumes inv: "frames_inv L h" and c: "c < FRAME_SLOT_CLASS_COUNT"
  shows "frames_inv L (snd (alloc_slot_page c h)) \<and>
    grants c h (fst (alloc_slot_page c h)) (snd (alloc_slot_page c h)) \<and>
    (fst (alloc_slot_page c h) = None \<longleftrightarrow> free_frames h = [])"
proof (cases "free_frames h")
  case Nil
  then show ?thesis using inv by (simp add: alloc_slot_page_def xdp_frame_alloc_def grants_def)
next
  case (Cons p ps)
  let ?A = "live h \<union> cached h \<union> L"
  define n where "n = slot_count (tx_len h) c"
  let ?h = "h\<lparr>free_frames := ps, page_ref := (page_ref h)(p := n)\<rparr>"
  let ?N = "Pair p ` {0..<n}"
  have n: "0 < n" unfolding n_def by (rule slot_count_pos [OF inv_tx [OF inv] c])
  have pages: "pages_ok ?A h" by (rule inv_pages [OF inv])
  then have free: "\<And>q. q \<in> set (free_frames h) \<longleftrightarrow> q < XDP_UMEM_FRAME_CNT \<and> page_ref h q = 0"
    and cnt: "\<And>q. page_ref h q = card {s \<in> ?A. fst s = q}" and bnd: "\<forall>s \<in> ?A. fst s < XDP_UMEM_FRAME_CNT"
    and fin: "finite ?A" and dist: "distinct (free_frames h)"
    unfolding pages_ok_def by blast+
  have p: "p < XDP_UMEM_FRAME_CNT" "page_ref h p = 0" using free [of p] Cons by simp_all
  have ps: "p \<notin> set ps" "distinct ps" using dist Cons by simp_all
  have "finite {s \<in> ?A. fst s = p}" using fin by (rule rev_finite_subset) blast
  then have none: "{s \<in> ?A. fst s = p} = {}" using cnt [of p] p(2) by (metis card_0_eq)
  have pok: "pages_ok (?A \<union> ?N) ?h"
    unfolding pages_ok_def
  proof (intro conjI allI)
    show "page_ref ?h q = card {s \<in> ?A \<union> ?N. fst s = q}" for q
    proof (cases "q = p")
      case True
      have "{s \<in> ?A \<union> ?N. fst s = p} = ?N" using none by auto
      moreover have "card ?N = n" by (simp add: card_image inj_on_def)
      ultimately show ?thesis using True by simp
    next
      case False
      then have "{s \<in> ?A \<union> ?N. fst s = q} = {s \<in> ?A. fst s = q}" by auto
      then show ?thesis using False cnt [of q] by simp
    qed
    show "q \<in> set (free_frames ?h) \<longleftrightarrow> q < XDP_UMEM_FRAME_CNT \<and> page_ref ?h q = 0" for q
      using free [of q] Cons p ps n by auto
  qed (use p ps fin bnd in \<open>simp_all add: ball_Un\<close>)
  have same: "live ?h = live h" "cached ?h = cached h" "\<And>d. class_ok ?h d = class_ok h d"
    by (simp_all add: live_def cached_def entries_def class_ok_def)
  have old: "fst t \<noteq> p" if "t \<in> ?A" for t using none that by blast
  have newN: "?N \<inter> ?A = {}" using none by auto
  have invN: "frames_inv (L \<union> ?N) ?h"
    using pok inv_tx [OF inv] inv_class [OF inv] inv_live_size [OF inv] inv_limbo [OF inv] newN
    unfolding frames_inv_def same by (auto simp: Un_assoc)
  let ?R = "Pair p ` set [1..<n]"
  have N: "L \<union> ?N = insert (p, 0) (L \<union> ?R)" using n by (force simp: image_iff)
  have p0: "(p, 0) \<notin> L \<union> ?R" using old [of "(p, 0)"] by auto
  let ?h1 = "init_slot (p, 0) (g_frame_slot_sizes (tx_len h) ! c) True ?h"
  have h1: "?h1 = ?h\<lparr>slot_size := (slot_size h)((p, 0) := g_frame_slot_sizes (tx_len h) ! c)\<rparr>
                     \<lparr>slot_ref := (slot_ref h)((p, 0) := 1)\<rparr>"
    by (simp add: init_slot_def)
  have inv1: "frames_inv (L \<union> ?R) ?h1"
    unfolding h1
    using limbo_to_live [OF limbo_resize [OF invN [unfolded N], of "(p, 0)" "g_frame_slot_sizes (tx_len h) ! c"] p0] c
    by simp
  have rest: "L \<inter> ?R = {}" using old by force
  note fill = fill_rest [OF inv1 c _ _ rest]
  have upt: "[0..<n] = 0 # [1..<n]" using n by (simp add: upt_conv_Cons)
  have res: "alloc_slot_page c h = (Some (p, 0), fill_page c p [1..<n] ?h1)"
    using Cons n by (simp add: alloc_slot_page_def xdp_frame_alloc_def Let_def n_def [symmetric] upt del: upt_Suc)
  have ref0: "slot_ref h (p, 0) = 0" using old [of "(p, 0)"] unfolding live_def by force
  have liveR: "t \<notin> ?R \<and> t \<noteq> (p, 0)" if "t \<in> live h" for t
    using old [of t] that by auto
  define F where "F = fill_page c p [1..<n] ?h1"
  have F: "slot_ref F = slot_ref ?h1" "bytes_at F = bytes_at ?h1" "tx_len F = tx_len ?h1" "mallocs F = mallocs ?h1"
    and sz: "\<And>t. t \<notin> ?R \<Longrightarrow> slot_size F t = slot_size ?h1 t"
    using fill unfolding F_def by auto
  have "slot_size F t = slot_size h t" if "t \<in> live h" for t
    using sz [of t] liveR [OF that] by (simp add: init_slot_def)
  moreover have "slot_size F (p, 0) = g_frame_slot_sizes (tx_len h) ! c" using sz [of "(p, 0)"] p0 by (simp add: init_slot_def)
  ultimately have "grants c h (Some (p, 0)) F"
    using ref0 unfolding grants_def by (simp add: F init_slot_def)
  then show ?thesis using fill Cons unfolding res F_def by simp
qed

lemma grants_trans:
  assumes "grants c h None h1" "grants c h1 r h2"
  shows "grants c h r h2"
proof -
  have "live h1 = live h" using assms(1) by (simp add: grants_def live_def)
  then show ?thesis using assms by (auto simp: grants_def split: option.splits)
qed

lemma alloc_class_inv:
  assumes inv: "frames_inv L h" and c: "c < FRAME_SLOT_CLASS_COUNT"
  shows "frames_inv L (snd (frame_slot_alloc_class c h)) \<and>
    grants c h (fst (frame_slot_alloc_class c h)) (snd (frame_slot_alloc_class c h)) \<and>
    (fst (frame_slot_alloc_class c h) = None \<longrightarrow> free_frames h = [])"
proof (cases "local_entries h c = []")
  case False
  obtain r h' where p: "local_cache_pop c h = (r, h')" by (cases "local_cache_pop c h")
  then have "frame_slot_alloc_class c h = (r, h')" "frames_inv L h'" "grants c h r h'" "r \<noteq> None"
    using local_cache_pop_inv [OF inv c False] by (auto simp: frame_slot_alloc_class_def)
  then show ?thesis by auto
next
  case True
  define h1 where "h1 = snd (local_cache_refill c h)"
  define added where "added = fst (local_cache_refill c h)"
  have ref: "local_cache_refill c h = (added, h1)" by (simp add: h1_def added_def)
  note inv1 = local_cache_refill_inv [OF inv c, folded h1_def added_def]
  have free: "free_frames h1 = free_frames h"
    by (simp add: h1_def local_cache_refill_def Let_def split: prod.split)
  have pop: "local_cache_pop c h = (None, h)" using True by (simp add: local_cache_pop_def)
  show ?thesis
  proof (cases "added = 0")
    case True
    then have "frame_slot_alloc_class c h = alloc_slot_page c h1"
      using pop ref by (simp add: frame_slot_alloc_class_def)
    then show ?thesis
      using alloc_slot_page_inv [OF inv1(1) c] grants_trans [OF inv1(2)] free by simp
  next
    case False
    note pop1 = local_cache_pop_inv [OF inv1(1) c inv1(3) [OF False]]
    obtain r h' where p: "local_cache_pop c h1 = (r, h')" by (cases "local_cache_pop c h1")
    then have "frame_slot_alloc_class c h = (r, h')" "r = Some (last (local_entries h1 c))"
      using pop ref False pop1(3) by (simp_all add: frame_slot_alloc_class_def)
    then show ?thesis using p pop1 grants_trans [OF inv1(2)] by simp
  qed
qed

text \<open>What a caller of \<open>frame_slot_alloc\<close> may rely on.\<close>

lemma frame_slot_alloc_spec:
  assumes inv: "frames_inv L h" and alloc: "frame_slot_alloc n h = (r, h')"
  shows "frames_inv L h'" "bytes_at h' = bytes_at h" "tx_len h' = tx_len h" "mallocs h' = mallocs h"
    "t \<in> live h \<Longrightarrow> slot_size h' t = slot_size h t"
    "r = None \<Longrightarrow> slot_ref h' = slot_ref h \<and> (FRAME_SLOT_SIZE_6 (tx_len h) < n \<or> free_frames h = [])"
    "r = Some s \<Longrightarrow> slot_ref h s = 0 \<and> slot_ref h' = (slot_ref h)(s := 1) \<and> n \<le> slot_size h' s"
proof -
  have "frames_inv L h' \<and> bytes_at h' = bytes_at h \<and> tx_len h' = tx_len h \<and> mallocs h' = mallocs h \<and>
    (\<forall>t \<in> live h. slot_size h' t = slot_size h t) \<and>
    (r = None \<longrightarrow> slot_ref h' = slot_ref h \<and> (FRAME_SLOT_SIZE_6 (tx_len h) < n \<or> free_frames h = [])) \<and>
    (\<forall>s. r = Some s \<longrightarrow> slot_ref h s = 0 \<and> slot_ref h' = (slot_ref h)(s := 1) \<and> n \<le> slot_size h' s)"
  proof (cases "frame_size_class (tx_len h) n")
    case None
    then have "FRAME_SLOT_SIZE_6 (tx_len h) < n"
      unfolding frame_size_class_def Let_def first_index_None by (auto simp: g_frame_slot_sizes_def split: if_splits)
    then show ?thesis using None alloc inv by (simp add: frame_slot_alloc_def)
  next
    case (Some c)
    then have eq: "frame_slot_alloc_class c h = (r, h')" using alloc by (simp add: frame_slot_alloc_def)
    show ?thesis
      using alloc_class_inv [OF inv frame_size_class_Some(1) [OF Some]] frame_size_class_Some(2) [OF Some]
      unfolding eq grants_def by (cases r) simp_all
  qed
  then show "frames_inv L h'" "bytes_at h' = bytes_at h" "tx_len h' = tx_len h" "mallocs h' = mallocs h"
    "t \<in> live h \<Longrightarrow> slot_size h' t = slot_size h t"
    "r = None \<Longrightarrow> slot_ref h' = slot_ref h \<and> (FRAME_SLOT_SIZE_6 (tx_len h) < n \<or> free_frames h = [])"
    "r = Some s \<Longrightarrow> slot_ref h s = 0 \<and> slot_ref h' = (slot_ref h)(s := 1) \<and> n \<le> slot_size h' s"
    by blast+
qed

lemma frames_init_inv: "tx_ok tx \<Longrightarrow> frames_inv {} (frames_init tx)"
  by (auto simp: frames_inv_def frames_init_def class_ok_def entries_def live_def cached_def pages_ok_def)

section \<open>Runs of the allocator\<close>

text \<open>
  Any sequence of allocations, further references to live slots, releases and writes of bytes, by one
  worker, with any outcomes of \<open>malloc\<close>.
\<close>

inductive frame_run :: "nat \<Rightarrow> frames \<Rightarrow> bool" for tx where
  init: "tx_ok tx \<Longrightarrow> frame_run tx (frames_init tx)"
| alloc: "frame_run tx h \<Longrightarrow> frame_run tx (snd (frame_slot_alloc n h))"
| inc: "frame_run tx h \<Longrightarrow> 0 < slot_ref h s \<Longrightarrow> frame_run tx (INC_REF s h)"
| put: "frame_run tx h \<Longrightarrow> frame_run tx (PUT_REF s h)"
| store: "frame_run tx h \<Longrightarrow> frame_run tx (h\<lparr>bytes_at := b\<rparr>)"
| mallocs: "frame_run tx h \<Longrightarrow> frame_run tx (h\<lparr>mallocs := ms\<rparr>)"

lemma frames_inv_bytes [simp]:
  "frames_inv L (h\<lparr>bytes_at := b\<rparr>) = frames_inv L h" "frames_inv L (h\<lparr>mallocs := ms\<rparr>) = frames_inv L h"
  by (simp_all add: frames_inv_def class_ok_def entries_def live_def cached_def pages_ok_def)

lemma frame_run_inv:
  assumes "frame_run tx h"
  shows "frames_inv {} h \<and> tx_len h = tx"
  using assms
proof induction
  case (alloc h n)
  obtain r h' where a: "frame_slot_alloc n h = (r, h')" by (cases "frame_slot_alloc n h")
  then show ?case using alloc.IH frame_slot_alloc_spec(1,3) [of "{}", OF _ a] by simp
qed (simp_all add: frames_init_inv INC_REF_inv PUT_REF_inv, simp_all add: frames_init_def INC_REF_def)

lemma run_accounts:
  assumes "frame_run tx h"
  shows "distinct (free_frames h)"
    and "set (free_frames h) = {p. p < XDP_UMEM_FRAME_CNT \<and> (\<forall>i. (p, i) \<notin> live h \<and> (p, i) \<notin> cached h)}"
    and "live h \<inter> cached h = {}"
    and "page_ref h p = card {i. (p, i) \<in> live h \<or> (p, i) \<in> cached h}"
proof -
  let ?A = "live h \<union> cached h"
  have inv: "frames_inv {} h" using frame_run_inv [OF assms] by simp
  have ok: "pages_ok ?A h" using inv_pages [OF inv] by simp
  then have fin: "finite ?A" and cnt: "\<And>q. page_ref h q = card {s \<in> ?A. fst s = q}"
    and free: "\<And>q. q \<in> set (free_frames h) \<longleftrightarrow> q < XDP_UMEM_FRAME_CNT \<and> page_ref h q = 0"
    unfolding pages_ok_def by blast+
  show "distinct (free_frames h)" using ok by (simp add: pages_ok_def)
  show "live h \<inter> cached h = {}" using cached_ref [OF inv] unfolding live_def by fastforce
  have of_page: "{s \<in> ?A. fst s = q} = Pair q ` {i. (q, i) \<in> ?A}" for q by auto
  have count: "page_ref h q = card {i. (q, i) \<in> ?A}" for q
    unfolding cnt of_page by (simp add: card_image inj_on_def)
  then show "page_ref h p = card {i. (p, i) \<in> live h \<or> (p, i) \<in> cached h}" by simp
  have "finite {s \<in> ?A. fst s = q}" for q using fin by (rule rev_finite_subset) blast
  then have "page_ref h q = 0 \<longleftrightarrow> {s \<in> ?A. fst s = q} = {}" for q unfolding cnt by (simp only: card_0_eq)
  then have "page_ref h q = 0 \<longleftrightarrow> (\<forall>i. (q, i) \<notin> live h \<and> (q, i) \<notin> cached h)" for q by force
  then show "set (free_frames h) = {p. p < XDP_UMEM_FRAME_CNT \<and> (\<forall>i. (p, i) \<notin> live h \<and> (p, i) \<notin> cached h)}"
    using free by blast
qed

text \<open>
  C18. After any sequence of allocations, further references, releases and writes, the pool of free
  frames holds each frame at most once, and holds exactly the frames none of whose slots is referenced
  or cached: no frame is lost, and none is given out while one of its slots is in use. No slot is both
  referenced and cached, and each frame's counter is the number of its slots in use or in a cache.
\<close>

theorem frame_accounts:
  assumes "frame_run tx h"
  shows "distinct (free_frames h) \<and>
    set (free_frames h) = {p. p < XDP_UMEM_FRAME_CNT \<and> (\<forall>i. (p, i) \<notin> live h \<and> (p, i) \<notin> cached h)} \<and>
    live h \<inter> cached h = {} \<and> page_ref h p = card {i. (p, i) \<in> live h \<or> (p, i) \<in> cached h}"
  using run_accounts [OF assms] by blast

lemma frame_accounts_witness:
  "live (PUT_REF (0, 0) (snd (frame_slot_alloc 2000 (frames_init 24)))) \<inter>
   cached (PUT_REF (0, 0) (snd (frame_slot_alloc 2000 (frames_init 24)))) = {}"
  using frame_accounts [OF frame_run.put [OF frame_run.alloc [OF frame_run.init [of 24]]], of "(0, 0)" 2000]
  by (simp add: tx_ok_def)

text \<open>
  C19. An allocation returns a slot nobody holds, with a reference count of one and room for the bytes
  asked for; it changes neither a byte nor the count or size of any slot in use. It fails only when the
  request exceeds the largest slot or the pool has no frame left.
\<close>

theorem frame_alloc_exclusive:
  assumes "frame_run tx h" and "frame_slot_alloc n h = (r, h')"
  shows "bytes_at h' = bytes_at h \<and> (\<forall>t. t \<in> live h \<longrightarrow> slot_size h' t = slot_size h t) \<and>
    (case r of None \<Rightarrow> slot_ref h' = slot_ref h \<and> (FRAME_SLOT_SIZE_6 tx < n \<or> free_frames h = [])
     | Some s \<Rightarrow> s \<notin> live h \<and> slot_ref h' = (slot_ref h)(s := 1) \<and> n \<le> slot_size h' s)"
proof -
  have inv: "frames_inv {} h" "tx_len h = tx" using frame_run_inv [OF assms(1)] by simp_all
  note spec = frame_slot_alloc_spec [OF inv(1) assms(2), unfolded inv(2)]
  have "case r of None \<Rightarrow> slot_ref h' = slot_ref h \<and> (FRAME_SLOT_SIZE_6 tx < n \<or> free_frames h = [])
        | Some s \<Rightarrow> s \<notin> live h \<and> slot_ref h' = (slot_ref h)(s := 1) \<and> n \<le> slot_size h' s"
    using spec(6,7) by (cases r) (auto simp: live_def)
  then show ?thesis using spec(2,5) by blast
qed

lemma frame_alloc_exclusive_witness:
  "\<exists>s h'. frame_slot_alloc 100 (frames_init 24) = (Some s, h') \<and> s \<notin> live (frames_init 24) \<and> 100 \<le> slot_size h' s"
proof -
  obtain r h' where a: "frame_slot_alloc 100 (frames_init 24) = (r, h')" by (cases "frame_slot_alloc 100 (frames_init 24)")
  have "free_frames (frames_init 24) \<noteq> []" by (simp add: frames_init_def XDP_UMEM_FRAME_CNT_def)
  moreover have "\<not> FRAME_SLOT_SIZE_6 24 < 100" using size6_bounds [of 24] by (simp add: tx_ok_def)
  ultimately show ?thesis
    using frame_alloc_exclusive [OF frame_run.init [of 24] a] a by (cases r) (auto simp: tx_ok_def)
qed

end
