(* ===== verification/Skbuff.thy ===== *)
theory Skbuff
  imports Checksum FrameCache "HOL-Library.Multiset"
begin

text \<open>
  Packet buffers, from \<^verbatim>\<open>src/main/skbuff.c\<close> and \<^verbatim>\<open>src/main/skbuff.h\<close>: a packet is the chain of
  \<open>data_info\<close> windows into frame slots that starts at \<open>data0\<close>; the model has \<open>data0\<close> and the list of the
  nodes behind it. A pointer into a slot is its offset from \<open>slot->data\<close>. An empty packet has the zeroed
  \<open>data0\<close>, whose slot is the null pointer; reading the slot of a null pointer (\<open>skb_pre_space\<close> and
  \<open>skb_end_space\<close> of an empty packet) has no defined result in C, and 0 here.

  The slots, their bytes and reference counts are the store of \<open>FrameCache\<close>. The references to the
  interface, the route and the socket are carried along without counting them, and \<open>PUT_REF\<close> of a packet is
  the release of its last reference. Lengths are natural numbers: the \<open>uint32_t\<close> sums do not wrap for
  packets below 4 GiB, and the one difference that can be negative is reduced modulo \<open>2 ^ 32\<close>.
\<close>

section \<open>The code\<close>

record data_info =
  d_slot :: "slot option"
  d_start :: nat
  d_end :: nat
  d_size :: nat

type_synonym ptr = "(slot \<times> nat) option"

record skbuff =
  data0 :: data_info
  nexts :: "data_info list"
  data_num :: nat
  data_total_len :: nat
  family :: int
  protocol :: int
  tx_checksum_offset :: u16
  sock :: "nat option"
  tcp_seq :: u32
  tcp_flag :: u8
  l2_hdr :: ptr
  l3_hdr :: ptr
  l4_hdr :: ptr
  is_clone :: bool
  is_copy :: bool
  is_frag :: bool
  is_defrag :: bool
  is_forward :: bool
  is_hw_rcv_checksum :: bool
  recv_if :: "nat option"
  skb_route :: "nat option"

definition SKB_DATA_MAX_NUM :: nat where "SKB_DATA_MAX_NUM = 32"

definition info_zero :: data_info where
  "info_zero = \<lparr>d_slot = None, d_start = 0, d_end = 0, d_size = 0\<rparr>"

text \<open>The packet \<open>CREATE_REF\<close> makes: all fields zero.\<close>

definition skb_zero :: skbuff where
  "skb_zero = \<lparr>data0 = info_zero, nexts = [], data_num = 0, data_total_len = 0, family = 0, protocol = 0,
     tx_checksum_offset = 0, sock = None, tcp_seq = 0, tcp_flag = 0, l2_hdr = None, l3_hdr = None, l4_hdr = None,
     is_clone = False, is_copy = False, is_frag = False, is_defrag = False, is_forward = False,
     is_hw_rcv_checksum = False, recv_if = None, skb_route = None\<rparr>"

definition chunks :: "skbuff \<Rightarrow> data_info list" where
  "chunks skb = data0 skb # nexts skb"

definition set_chunks :: "data_info list \<Rightarrow> skbuff \<Rightarrow> skbuff" where
  "set_chunks cs skb = skb\<lparr>data0 := hd cs, nexts := tl cs\<rparr>"

definition d_len :: "data_info \<Rightarrow> nat" where
  "d_len d = d_end d - d_start d"

definition skb_end_data_info :: "skbuff \<Rightarrow> data_info" where
  "skb_end_data_info skb = last (chunks skb)"

definition skb_data0_len :: "skbuff \<Rightarrow> nat" where
  "skb_data0_len skb = d_len (data0 skb)"

definition skb_pre_space :: "skbuff \<Rightarrow> nat" where
  "skb_pre_space skb = d_start (data0 skb)"

definition skb_end_space :: "skbuff \<Rightarrow> nat" where
  "skb_end_space skb = d_size (skb_end_data_info skb) - d_end (skb_end_data_info skb)"

definition put_slot :: "slot option \<Rightarrow> frames \<Rightarrow> frames" where
  "put_slot so h = (case so of None \<Rightarrow> h | Some s \<Rightarrow> PUT_REF s h)"

definition free_data_info :: "data_info \<Rightarrow> frames \<Rightarrow> frames" where
  "free_data_info d h = put_slot (d_slot d) h"

definition alloc_data_info :: "nat \<Rightarrow> frames \<Rightarrow> data_info option \<times> frames" where
  "alloc_data_info n h =
     (case frame_slot_alloc n h of
        (None, h) \<Rightarrow> (None, h)
      | (Some s, h) \<Rightarrow>
          (case malloc h of (ok, h) \<Rightarrow>
             if \<not> ok then (None, PUT_REF s h)
             else (Some \<lparr>d_slot = Some s, d_start = 0, d_end = 0, d_size = (if n \<noteq> 0 then n else slot_size h s)\<rparr>, h)))"

text \<open>\<open>memcpy\<close> into a slot, and the bytes of a window and of a packet.\<close>

definition store_bytes :: "slot option \<Rightarrow> nat \<Rightarrow> u8 list \<Rightarrow> frames \<Rightarrow> frames" where
  "store_bytes so off bs h =
     (case so of
        None \<Rightarrow> h
      | Some s \<Rightarrow> h\<lparr>bytes_at := (bytes_at h)(s := (\<lambda>i. if off \<le> i \<and> i < off + length bs then bs ! (i - off)
                                                        else bytes_at h s i))\<rparr>)"

definition chunk_bytes :: "frames \<Rightarrow> data_info \<Rightarrow> u8 list" where
  "chunk_bytes h d = (case d_slot d of None \<Rightarrow> [] | Some s \<Rightarrow> map (bytes_at h s) [d_start d..<d_end d])"

fun chain_bytes :: "frames \<Rightarrow> data_info list \<Rightarrow> u8 list" where
  "chain_bytes h [] = []"
| "chain_bytes h (d # ds) = chunk_bytes h d @ chain_bytes h ds"

definition skb_bytes :: "frames \<Rightarrow> skbuff \<Rightarrow> u8 list" where
  "skb_bytes h skb = chain_bytes h (chunks skb)"

subsection \<open>Consuming and truncating\<close>

fun consume_loop :: "nat \<Rightarrow> data_info \<Rightarrow> data_info list \<Rightarrow> nat \<Rightarrow> frames \<Rightarrow> data_info list \<times> nat \<times> frames" where
  "consume_loop remaining d [] num h =
     (if remaining = 0 then ([d], num, h)
      else if remaining < d_len d then ([d\<lparr>d_start := d_start d + remaining\<rparr>], num, h)
      else ([info_zero], num - 1, put_slot (d_slot d) h))"
| "consume_loop remaining d (n # ns) num h =
     (if remaining = 0 then (d # n # ns, num, h)
      else if remaining < d_len d then (d\<lparr>d_start := d_start d + remaining\<rparr> # n # ns, num, h)
      else if num = 1 then ([info_zero], 0, put_slot (d_slot d) h)
      else consume_loop (remaining - d_len d) n ns (num - 1) (put_slot (d_slot d) h))"

definition skb_consume :: "skbuff \<Rightarrow> nat \<Rightarrow> bool \<Rightarrow> frames \<Rightarrow> nat \<times> skbuff \<times> frames" where
  "skb_consume skb n_bytes linear h =
     (let consumed = min n_bytes (data_total_len skb)
      in if consumed = 0 then (0, skb, h)
         else if linear then
           let consumed = min consumed (skb_data0_len skb);
               d = (data0 skb)\<lparr>d_start := d_start (data0 skb) + consumed\<rparr>;
               total = data_total_len skb - consumed
           in if d_len d \<noteq> 0 then (consumed, skb\<lparr>data0 := d, data_total_len := total\<rparr>, h)
              else if data_num skb > 1
              then (consumed, (set_chunks (nexts skb) skb)\<lparr>data_num := data_num skb - 1, data_total_len := total\<rparr>,
                    put_slot (d_slot d) h)
              else (consumed, skb\<lparr>data0 := info_zero, nexts := [], data_num := 0, data_total_len := total\<rparr>,
                    put_slot (d_slot d) h)
         else case consume_loop consumed (data0 skb) (nexts skb) (data_num skb) h of
                (cs, num, h) \<Rightarrow>
                  (consumed, (set_chunks cs skb)\<lparr>data_num := num, data_total_len := data_total_len skb - consumed\<rparr>, h))"

fun truncate_loop :: "nat \<Rightarrow> nat \<Rightarrow> data_info list \<Rightarrow> (data_info list \<times> data_info list) option" where
  "truncate_loop new_len cum [] = None"
| "truncate_loop new_len cum (d # rest) =
     (if cum + d_len d \<ge> new_len then Some ([d\<lparr>d_end := d_start d + (new_len - cum)\<rparr>], rest)
      else (case truncate_loop new_len (cum + d_len d) rest of
              None \<Rightarrow> None
            | Some (keep, cut_at) \<Rightarrow> Some (d # keep, cut_at)))"

definition skb_truncate :: "skbuff \<Rightarrow> nat \<Rightarrow> frames \<Rightarrow> skbuff \<times> frames" where
  "skb_truncate skb new_len h =
     (if new_len \<ge> data_total_len skb then (skb, h)
      else if new_len = 0
      then (skb\<lparr>data0 := info_zero, nexts := [], data_num := 0, data_total_len := 0\<rparr>,
            put_slot (d_slot (data0 skb)) (fold free_data_info (nexts skb) h))
      else (case truncate_loop new_len 0 (chunks skb) of
              None \<Rightarrow> (skb, h)
            | Some (keep, cut_at) \<Rightarrow>
                ((set_chunks keep skb)\<lparr>data_num := data_num skb - length cut_at, data_total_len := new_len\<rparr>,
                 fold free_data_info cut_at h)))"

subsection \<open>Growing\<close>

definition skb_reserve :: "skbuff \<Rightarrow> nat \<Rightarrow> skbuff" where
  "skb_reserve skb n_bytes =
     skb\<lparr>data0 := (data0 skb)\<lparr>d_start := d_start (data0 skb) + n_bytes, d_end := d_end (data0 skb) + n_bytes\<rparr>\<rparr>"

definition skb_data_expand :: "skbuff \<Rightarrow> nat \<Rightarrow> bool \<Rightarrow> bool \<times> skbuff" where
  "skb_data_expand skb n_bytes begin =
     (if begin then
        if skb_pre_space skb \<ge> n_bytes
        then (True, skb\<lparr>data0 := (data0 skb)\<lparr>d_start := d_start (data0 skb) - n_bytes\<rparr>,
                        data_total_len := data_total_len skb + n_bytes\<rparr>)
        else (False, skb)
      else
        if skb_end_space skb \<ge> n_bytes
        then let di = skb_end_data_info skb
             in (True, (set_chunks (butlast (chunks skb) @ [di\<lparr>d_end := d_end di + n_bytes\<rparr>]) skb)
                         \<lparr>data_total_len := data_total_len skb + n_bytes\<rparr>)
        else (False, skb))"

text \<open>The pointer the caller gets is \<open>skb_start\<close>, so only success is reported.\<close>

definition skb_data_push :: "skbuff \<Rightarrow> nat \<Rightarrow> frames \<Rightarrow> bool \<times> skbuff \<times> frames" where
  "skb_data_push skb n_bytes h =
     (case skb_data_expand skb n_bytes True of (fits, skb) \<Rightarrow>
        if fits then (True, skb, h)
        else if data_num skb \<ge> SKB_DATA_MAX_NUM then (False, skb, h)
        else case malloc h of (ok, h) \<Rightarrow>
          if \<not> ok then (False, skb, h)
          else case frame_slot_alloc n_bytes h of
                 (None, h) \<Rightarrow> (False, skb, h)
               | (Some s, h) \<Rightarrow>
                   (True, skb\<lparr>data0 := \<lparr>d_slot = Some s, d_start = 0, d_end = n_bytes, d_size = slot_size h s\<rparr>,
                              nexts := data0 skb # nexts skb, data_num := data_num skb + 1,
                              data_total_len := data_total_len skb + n_bytes\<rparr>, h))"

definition skb_data_put :: "skbuff \<Rightarrow> nat \<Rightarrow> (slot option \<times> nat) option \<times> skbuff" where
  "skb_data_put skb n_bytes =
     (let di = skb_end_data_info skb
      in case skb_data_expand skb n_bytes False of
           (fits, skb) \<Rightarrow> (if fits then Some (d_slot di, d_end di) else None, skb))"

text \<open>
  The allocation loop of \<open>skb_data_append\<close>: whether it succeeded, and the nodes it made. A capacity of
  zero does not reach the loop with bytes left, since the test before it fails.
\<close>

function append_loop :: "nat \<Rightarrow> nat \<Rightarrow> nat \<Rightarrow> u8 list \<Rightarrow> data_info list \<Rightarrow> frames \<Rightarrow> bool \<times> data_info list \<times> frames" where
  "append_loop pre_size seg_len capacity src new h =
     (if src = [] \<or> capacity = 0 then (True, new, h)
      else case alloc_data_info seg_len h of
             (None, h) \<Rightarrow> (False, new, h)
           | (Some di, h) \<Rightarrow>
               let chunk = min (length src) capacity;
                   di = di\<lparr>d_start := pre_size, d_end := pre_size + chunk\<rparr>
               in append_loop pre_size seg_len capacity (drop chunk src) (new @ [di])
                    (store_bytes (d_slot di) pre_size (take chunk src) h))"
  by pat_completeness auto
termination
  by (relation "measure (\<lambda>(p, s, c, src, n, h). length src)") auto

declare append_loop.simps [simp del]

definition skb_data_append :: "skbuff \<Rightarrow> u8 list \<Rightarrow> nat \<Rightarrow> nat \<Rightarrow> frames \<Rightarrow> bool \<times> skbuff \<times> frames" where
  "skb_data_append skb buf pre_size seg_len h =
     (let capacity = (seg_len + 2 ^ 32 - pre_size) mod 2 ^ 32;
          end_space = skb_end_space skb
      in if end_space + capacity * (SKB_DATA_MAX_NUM - data_num skb) < length buf then (False, skb, h)
         else let use = min (length buf) end_space;
                  di = skb_end_data_info skb;
                  h = (if end_space \<noteq> 0 then store_bytes (d_slot di) (d_end di) (take use buf) h else h);
                  skb1 = (if end_space \<noteq> 0 then snd (skb_data_put skb use) else skb)
              in case append_loop pre_size seg_len capacity (drop use buf) [] h of
                   (ok, new, h) \<Rightarrow>
                     if ok then (True, (set_chunks (chunks skb1 @ new) skb1)
                                         \<lparr>data_num := data_num skb1 + length new,
                                          data_total_len := data_total_len skb1 + sum_list (map d_len new)\<rparr>, h)
                     else (False, skb, fold free_data_info new h))"

subsection \<open>Reading\<close>

fun skip_loop :: "nat \<Rightarrow> nat \<Rightarrow> data_info list \<Rightarrow> nat \<times> data_info list" where
  "skip_loop offset pos [] = (pos, [])"
| "skip_loop offset pos (d # ds) =
     (if pos + d_len d > offset then (pos, d # ds) else skip_loop offset (pos + d_len d) ds)"

fun copy_loop :: "frames \<Rightarrow> nat \<Rightarrow> nat \<Rightarrow> nat \<Rightarrow> data_info list \<Rightarrow> nat \<times> u8 list" where
  "copy_loop h offset pos len [] = (len, [])"
| "copy_loop h offset pos len (d # ds) =
     (if len = 0 then (0, [])
      else let inn = (if offset > pos then offset - pos else 0);
               n = (if d_len d - inn < len then d_len d - inn else len)
           in case copy_loop h (offset + n) (pos + d_len d) (len - n) ds of
                (left, bs) \<Rightarrow> (left, take n (drop inn (chunk_bytes h d)) @ bs))"

text \<open>The bytes \<open>skb_copy_bits\<close> writes to \<open>dst\<close>, or \<open>None\<close> for its result false.\<close>

definition skb_copy_bits :: "frames \<Rightarrow> skbuff \<Rightarrow> nat \<Rightarrow> nat \<Rightarrow> u8 list option" where
  "skb_copy_bits h skb offset len =
     (if len > (data_total_len skb + 2 ^ 32 - offset) mod 2 ^ 32 then None
      else case skip_loop offset 0 (chunks skb) of
             (pos, ds) \<Rightarrow> (case copy_loop h offset pos len ds of
                            (left, bs) \<Rightarrow> if left = 0 then Some bs else None))"

text \<open>A byte left over from an odd chunk is paired with the first byte of the next one.\<close>

definition checksum_even :: "u8 list \<Rightarrow> nat \<Rightarrow> u8 option \<Rightarrow> u32 \<Rightarrow> nat \<times> u8 option \<times> u32" where
  "checksum_even data len pending acc =
     (let ev = length data - length data mod 2;
          acc = (if ev \<noteq> 0 then checksum_partial (take ev data) acc else acc);
          len = len - ev;
          data = drop ev data
      in if data \<noteq> [] then (len - 1, Some (hd data), acc) else (len, pending, acc))"

definition checksum_chunk :: "u8 list \<Rightarrow> nat \<Rightarrow> u8 option \<Rightarrow> u32 \<Rightarrow> nat \<times> u8 option \<times> u32" where
  "checksum_chunk chunk len pending acc =
     (let data = take len chunk
      in case pending of
           Some b \<Rightarrow> if data \<noteq> [] then checksum_even (tl data) (len - 1) None (checksum_partial [b, hd data] acc)
                     else checksum_even data len pending acc
         | None \<Rightarrow> checksum_even data len pending acc)"

fun checksum_chunks :: "u8 list list \<Rightarrow> nat \<Rightarrow> u8 option \<Rightarrow> u32 \<Rightarrow> u8 option \<times> u32" where
  "checksum_chunks [] len pending acc = (pending, acc)"
| "checksum_chunks (chunk # rest) len pending acc =
     (if len = 0 then (pending, acc)
      else case checksum_chunk chunk len pending acc of
             (len, pending, acc) \<Rightarrow> checksum_chunks rest len pending acc)"

definition skb_checksum :: "frames \<Rightarrow> skbuff \<Rightarrow> nat \<Rightarrow> u32 \<Rightarrow> u16" where
  "skb_checksum h skb len start_sum =
     (case checksum_chunks (map (chunk_bytes h) (chunks skb)) len None start_sum of
        (pending, acc) \<Rightarrow>
          ucast (NOT (checksum_fold (case pending of Some b \<Rightarrow> checksum_partial [b] acc | None \<Rightarrow> acc))))"

definition skb_checksum_protocol :: "frames \<Rightarrow> skbuff option \<Rightarrow> nat \<Rightarrow> u32 \<Rightarrow> u32 \<Rightarrow> u8 \<Rightarrow> u16" where
  "skb_checksum_protocol h skb len saddr daddr proto =
     (let acc = checksum_partial (bytes_of_u32 saddr) 0;
          acc = checksum_partial (bytes_of_u32 daddr) acc;
          acc = checksum_partial (bytes_of_u16 (htons (ucast proto))) acc;
          acc = checksum_partial (bytes_of_u16 (htons (of_nat len))) acc
      in case skb of None \<Rightarrow> NOT (checksum [] acc) | Some skb \<Rightarrow> skb_checksum h skb len acc)"

definition skb_checksum_protocol6 :: "frames \<Rightarrow> skbuff option \<Rightarrow> nat \<Rightarrow> u8 list \<Rightarrow> u8 list \<Rightarrow> u8 \<Rightarrow> u16" where
  "skb_checksum_protocol6 h skb len saddr daddr proto =
     (let acc = checksum_partial saddr 0;
          acc = checksum_partial daddr acc;
          acc = checksum_partial (bytes_of_u32 (htonl (of_nat len))) acc;
          acc = checksum_partial [0, 0, 0, proto] acc
      in case skb of None \<Rightarrow> NOT (checksum [] acc) | Some skb \<Rightarrow> skb_checksum h skb len acc)"

subsection \<open>Creating, cloning and destroying\<close>

definition skb_destroy :: "skbuff \<Rightarrow> frames \<Rightarrow> frames" where
  "skb_destroy skb h = put_slot (d_slot (data0 skb)) (fold free_data_info (nexts skb) h)"

definition skb_alloc :: "nat \<Rightarrow> frames \<Rightarrow> skbuff option \<times> frames" where
  "skb_alloc n_bytes h =
     (case malloc h of (ok, h) \<Rightarrow>
        if \<not> ok then (None, h)
        else case frame_slot_alloc n_bytes h of
               (None, h) \<Rightarrow> (None, skb_destroy skb_zero h)
             | (Some s, h) \<Rightarrow>
                 (Some (skb_zero\<lparr>data0 := \<lparr>d_slot = Some s, d_start = 0, d_end = 0,
                                           d_size = (if n_bytes \<noteq> 0 then n_bytes else slot_size h s)\<rparr>,
                                 data_num := 1\<rparr>), h))"

definition skb_alloc_with_data_info :: "data_info list \<Rightarrow> frames \<Rightarrow> skbuff option \<times> frames" where
  "skb_alloc_with_data_info infos h =
     (case malloc h of (ok, h) \<Rightarrow>
        if \<not> ok then (None, h)
        else let ds = take SKB_DATA_MAX_NUM infos
             in (Some ((if ds = [] then skb_zero else set_chunks ds skb_zero)
                         \<lparr>data_num := length ds, data_total_len := sum_list (map d_len ds)\<rparr>), h))"

text \<open>The node of every chunk but the first is allocated; a failure releases what was cloned.\<close>

fun clone_loop :: "data_info list \<Rightarrow> data_info list \<Rightarrow> frames \<Rightarrow> bool \<times> data_info list \<times> frames" where
  "clone_loop [] new h = (True, new, h)"
| "clone_loop (d # ds) new h =
     (case (if new = [] then (True, h) else malloc h) of (ok, h) \<Rightarrow>
        if \<not> ok then (False, new, h)
        else clone_loop ds (new @ [d]) (case d_slot d of None \<Rightarrow> h | Some s \<Rightarrow> INC_REF s h))"

definition destroy_chunks :: "data_info list \<Rightarrow> frames \<Rightarrow> frames" where
  "destroy_chunks cs h = (if cs = [] then skb_destroy skb_zero h else skb_destroy (set_chunks cs skb_zero) h)"

definition skb_clone :: "skbuff \<Rightarrow> frames \<Rightarrow> skbuff option \<times> frames" where
  "skb_clone skb h =
     (case malloc h of (ok, h) \<Rightarrow>
        if \<not> ok then (None, h)
        else case clone_loop (chunks skb) [] h of
               (ok, new, h) \<Rightarrow>
                 if \<not> ok then (None, destroy_chunks new h)
                 else (Some ((set_chunks new skb)\<lparr>data_num := length new, is_clone := True\<rparr>), h))"

definition copy_info :: "bool \<Rightarrow> data_info \<Rightarrow> frames \<Rightarrow> data_info option \<times> frames" where
  "copy_info first d h =
     (if first
      then (case frame_slot_alloc (d_size d) h of
              (None, h) \<Rightarrow> (None, h)
            | (Some s, h) \<Rightarrow> (Some \<lparr>d_slot = Some s, d_start = d_start d, d_end = d_start d + d_len d, d_size = d_size d\<rparr>, h))
      else (case alloc_data_info (d_size d) h of
              (None, h) \<Rightarrow> (None, h)
            | (Some di, h) \<Rightarrow> (Some (di\<lparr>d_start := d_start d, d_end := d_start d + d_len d\<rparr>), h)))"

fun copy_chunks :: "data_info list \<Rightarrow> data_info list \<Rightarrow> frames \<Rightarrow> bool \<times> data_info list \<times> frames" where
  "copy_chunks [] new h = (True, new, h)"
| "copy_chunks (d # ds) new h =
     (case copy_info (new = []) d h of
        (None, h) \<Rightarrow> (False, new, h)
      | (Some di, h) \<Rightarrow>
          copy_chunks ds (new @ [di]) (store_bytes (d_slot di) (d_start di) (chunk_bytes h d) h))"

fun skb_rebase_data_ptr :: "data_info list \<Rightarrow> data_info list \<Rightarrow> ptr \<Rightarrow> ptr" where
  "skb_rebase_data_ptr (a # as) (b # bs) (Some (s, off)) =
     (if d_slot a = Some s \<and> d_start a \<le> off \<and> off < d_end a
      then map_option (\<lambda>t. (t, d_start b + (off - d_start a))) (d_slot b)
      else skb_rebase_data_ptr as bs (Some (s, off)))"
| "skb_rebase_data_ptr _ _ _ = None"

definition skb_copy :: "skbuff \<Rightarrow> frames \<Rightarrow> skbuff option \<times> frames" where
  "skb_copy skb h =
     (case malloc h of (ok, h) \<Rightarrow>
        if \<not> ok then (None, h)
        else case copy_chunks (chunks skb) [] h of
               (ok, new, h) \<Rightarrow>
                 if \<not> ok then (None, destroy_chunks new h)
                 else (Some ((set_chunks new skb)\<lparr>data_num := length new,
                               l2_hdr := skb_rebase_data_ptr (chunks skb) new (l2_hdr skb),
                               l3_hdr := skb_rebase_data_ptr (chunks skb) new (l3_hdr skb),
                               l4_hdr := skb_rebase_data_ptr (chunks skb) new (l4_hdr skb), is_copy := True\<rparr>), h))"

subsection \<open>Splitting and joining\<close>

text \<open>The nodes before the cut, the bytes of the next node that stay, and the nodes from there on.\<close>

fun split_loop :: "nat \<Rightarrow> nat \<Rightarrow> data_info list \<Rightarrow> data_info list \<times> nat \<times> data_info list" where
  "split_loop len cum [] = ([], 0, [])"
| "split_loop len cum (d # ds) =
     (if cum + d_len d > len then ([], len - cum, d # ds)
      else if cum + d_len d = len then ([d], 0, ds)
      else case split_loop len (cum + d_len d) ds of (prev, cut_at, rest) \<Rightarrow> (d # prev, cut_at, rest))"

definition split_tail :: "skbuff \<Rightarrow> nat \<Rightarrow> data_info list \<Rightarrow> skbuff" where
  "split_tail skb len ds =
     (set_chunks ds skb_zero)\<lparr>data_num := length ds, data_total_len := data_total_len skb - len,
        family := family skb, protocol := protocol skb, sock := sock skb, tcp_seq := tcp_seq skb,
        tcp_flag := tcp_flag skb, recv_if := recv_if skb, skb_route := skb_route skb\<rparr>"

definition skb_split :: "skbuff \<Rightarrow> nat \<Rightarrow> frames \<Rightarrow> skbuff option \<times> skbuff \<times> frames" where
  "skb_split skb len h =
     (if len \<ge> data_total_len skb then (None, skb, h)
      else case split_loop len 0 (chunks skb) of (prev, cut_at, ds) \<Rightarrow>
        case malloc h of (ok, h) \<Rightarrow>
          if \<not> ok then (None, skb, h)
          else if cut_at \<noteq> 0 \<and> ds \<noteq> [] then
            let d = hd ds; rest = tl ds
            in case alloc_data_info (d_size d) h of
                 (None, h) \<Rightarrow> (None, skb, h)
               | (Some di, h) \<Rightarrow>
                   let di = di\<lparr>d_start := d_start d, d_end := d_start d + (d_len d - cut_at)\<rparr>;
                       h = store_bytes (d_slot di) (d_start di) (drop cut_at (chunk_bytes h d)) h
                   in (Some (split_tail skb len (di # rest)),
                       (set_chunks (prev @ [d\<lparr>d_end := d_start d + cut_at\<rparr>]) skb)
                         \<lparr>data_num := data_num skb - (length (di # rest) - 1), data_total_len := len\<rparr>, h)
          else if prev = [] \<or> ds = [] then (None, skb, h)
          else (Some (split_tail skb len ds),
                (set_chunks prev skb)\<lparr>data_num := data_num skb - length ds, data_total_len := len\<rparr>, h))"

fun join_loop :: "slot option \<Rightarrow> nat \<Rightarrow> nat \<Rightarrow> data_info list \<Rightarrow> frames \<Rightarrow> frames" where
  "join_loop so dst b_len [] h = h"
| "join_loop so dst b_len (d # ds) h =
     (if b_len = 0 then h
      else join_loop so (dst + d_len d) (b_len - d_len d) ds (store_bytes so dst (chunk_bytes h d) h))"

text \<open>On success \<open>b\<close> is gone.\<close>

definition skb_append_skb :: "skbuff \<Rightarrow> skbuff \<Rightarrow> bool \<Rightarrow> frames \<Rightarrow> bool \<times> skbuff \<times> frames" where
  "skb_append_skb a b data_copy h =
     (if \<not> data_copy \<and> data_num a + data_num b > SKB_DATA_MAX_NUM then (False, a, h)
      else if data_copy then
        (case skb_data_put a (data_total_len b) of
           (None, a) \<Rightarrow> (False, a, h)
         | (Some (so, dst), a) \<Rightarrow> (True, a, skb_destroy b (join_loop so dst (data_total_len b) (chunks b) h)))
      else case malloc h of (ok, h) \<Rightarrow>
        if \<not> ok then (False, a, h)
        else (True, (set_chunks (chunks a @ chunks b) a)
                      \<lparr>data_num := data_num a + data_num b, data_total_len := data_total_len a + data_total_len b\<rparr>,
              skb_destroy (b\<lparr>data0 := info_zero, nexts := []\<rparr>) h))"

section \<open>Ownership of slots\<close>

text \<open>
  \<open>balanced h M\<close>: the allocator's accounts are in order and each slot's reference count is the number of
  times it occurs in \<open>M\<close>, the windows that exist. \<open>keeps M h h'\<close>: the slots of \<open>M\<close> have kept their bytes.
\<close>

definition slot_mset :: "slot option \<Rightarrow> slot multiset" where
  "slot_mset so = (case so of None \<Rightarrow> {#} | Some s \<Rightarrow> {#s#})"

definition info_slots :: "data_info list \<Rightarrow> slot multiset" where
  "info_slots cs = sum_list (map (\<lambda>d. slot_mset (d_slot d)) cs)"

definition balanced :: "frames \<Rightarrow> slot multiset \<Rightarrow> bool" where
  "balanced h M \<longleftrightarrow> frames_inv {} h \<and> slot_ref h = count M"

definition keeps :: "slot multiset \<Rightarrow> frames \<Rightarrow> frames \<Rightarrow> bool" where
  "keeps M h h' \<longleftrightarrow> (\<forall>s \<in># M. bytes_at h' s = bytes_at h s \<and> slot_size h' s = slot_size h s)"

lemma slot_mset_simps [simp]: "slot_mset None = {#}" "slot_mset (Some s) = {#s#}"
  by (simp_all add: slot_mset_def)

lemma info_slots_simps [simp]:
  "info_slots [] = {#}" "info_slots (d # ds) = slot_mset (d_slot d) + info_slots ds"
  "info_slots (cs @ ds) = info_slots cs + info_slots ds"
  by (simp_all add: info_slots_def)

lemma info_slots_mem: "d \<in> set cs \<Longrightarrow> d_slot d = Some s \<Longrightarrow> s \<in># info_slots cs"
  by (induction cs) auto

lemma keeps_refl [simp]: "keeps M h h"
  by (simp add: keeps_def)

lemma keeps_trans: "keeps M h h1 \<Longrightarrow> keeps M h1 h2 \<Longrightarrow> keeps M h h2"
  by (simp add: keeps_def)

lemma keeps_mono: "keeps N h h' \<Longrightarrow> set_mset M \<subseteq> set_mset N \<Longrightarrow> keeps M h h'"
  by (auto simp: keeps_def)

lemma keepsI: "bytes_at h' = bytes_at h \<Longrightarrow> slot_size h' = slot_size h \<Longrightarrow> keeps M h h'"
  by (simp add: keeps_def)

lemma balanced_live: "balanced h M \<Longrightarrow> s \<in># M \<longleftrightarrow> s \<in> live h"
  by (auto simp: balanced_def live_def)

lemma balanced_put: "balanced h (add_mset s M) \<Longrightarrow> balanced (PUT_REF s h) M"
  by (auto simp: balanced_def PUT_REF_inv fun_eq_iff)

lemma balanced_put_slot: "balanced h (slot_mset so + M) \<Longrightarrow> balanced (put_slot so h) M"
  by (cases so) (simp_all add: put_slot_def balanced_put)

lemma put_slot_frame [simp]:
  "bytes_at (put_slot so h) = bytes_at h" "slot_size (put_slot so h) = slot_size h" "mallocs (put_slot so h) = mallocs h"
  by (simp_all add: put_slot_def split: option.split)

lemma free_infos_frame [simp]:
  "bytes_at (fold free_data_info ds h) = bytes_at h" "slot_size (fold free_data_info ds h) = slot_size h"
  by (induction ds arbitrary: h) (simp_all add: free_data_info_def)

lemma balanced_free: "balanced h (info_slots ds + M) \<Longrightarrow> balanced (fold free_data_info ds h) M"
  by (induction ds arbitrary: h) (simp_all add: free_data_info_def balanced_put_slot add.assoc)

lemma malloc_frame:
  assumes "malloc h = (ok, h')"
  shows "bytes_at h' = bytes_at h" "slot_size h' = slot_size h" "balanced h' M = balanced h M" "keeps N h h'"
  using assms by (auto simp: malloc_def balanced_def keeps_def split: list.splits)

lemma balanced_inc: "balanced h M \<Longrightarrow> s \<in># M \<Longrightarrow> balanced (INC_REF s h) (add_mset s M)"
  using INC_REF_inv [of "{}" h s] unfolding balanced_def by (auto simp: INC_REF_def)

lemma balanced_alloc:
  assumes bal: "balanced h M" and a: "frame_slot_alloc n h = (r, h')"
  shows "keeps M h h'" "balanced h' (slot_mset r + M)" "r = Some s \<Longrightarrow> s \<notin># M" "r = Some s \<Longrightarrow> n \<le> slot_size h' s"
proof -
  have inv: "frames_inv {} h" using bal by (simp add: balanced_def)
  note spec = frame_slot_alloc_spec [OF inv a]
  show "keeps M h h'" using spec(2,5) balanced_live [OF bal] by (auto simp: keeps_def)
  show "balanced h' (slot_mset r + M)"
    using bal spec(1,6,7) by (cases r) (auto simp: balanced_def fun_eq_iff)
  show "s \<notin># M" if "r = Some s"
  proof -
    have "count M s = 0" using bal spec(7) [OF that] by (simp add: balanced_def)
    then show ?thesis by (simp add: count_eq_zero_iff)
  qed
  show "n \<le> slot_size h' s" if "r = Some s" using spec(7) [OF that] by simp
qed

lemma store_bytes_frame [simp]:
  "slot_size (store_bytes so off bs h) = slot_size h" "balanced (store_bytes so off bs h) M = balanced h M"
  "mallocs (store_bytes so off bs h) = mallocs h"
  by (simp_all add: store_bytes_def balanced_def split: option.split)

lemma keeps_store: "(\<And>s. so = Some s \<Longrightarrow> s \<notin># M) \<Longrightarrow> keeps M h (store_bytes so off bs h)"
  by (cases so) (auto simp: keeps_def store_bytes_def)

section \<open>Well-formed packets\<close>

definition info_ok :: "frames \<Rightarrow> data_info \<Rightarrow> bool" where
  "info_ok h d \<longleftrightarrow>
     (case d_slot d of None \<Rightarrow> False
      | Some s \<Rightarrow> d_start d \<le> d_end d \<and> d_end d \<le> d_size d \<and> d_size d \<le> slot_size h s)"

definition chain_ok :: "frames \<Rightarrow> data_info list \<Rightarrow> nat \<Rightarrow> bool" where
  "chain_ok h cs num \<longleftrightarrow> cs = [info_zero] \<and> num = 0 \<or> cs \<noteq> [] \<and> (\<forall>d \<in> set cs. info_ok h d) \<and> num = length cs"

definition skb_ok :: "frames \<Rightarrow> skbuff \<Rightarrow> bool" where
  "skb_ok h skb \<longleftrightarrow> chain_ok h (chunks skb) (data_num skb) \<and> data_num skb \<le> SKB_DATA_MAX_NUM \<and>
     data_total_len skb = sum_list (map d_len (chunks skb))"

abbreviation skb_slots :: "skbuff \<Rightarrow> slot multiset" where
  "skb_slots skb \<equiv> info_slots (chunks skb)"

lemma chain_bytes_append [simp]: "chain_bytes h (cs @ ds) = chain_bytes h cs @ chain_bytes h ds"
  by (induction cs) simp_all

lemma info_zero_simps [simp]: "d_slot info_zero = None" "d_len info_zero = 0" "chunk_bytes h info_zero = []"
  by (simp_all add: info_zero_def d_len_def chunk_bytes_def)

lemma set_chunks_simps [simp]:
  "cs \<noteq> [] \<Longrightarrow> chunks (set_chunks cs skb) = cs" "data_num (set_chunks cs skb) = data_num skb"
  "data_total_len (set_chunks cs skb) = data_total_len skb"
  by (simp_all add: set_chunks_def chunks_def)

lemma chunks_update [simp]:
  "chunks (skb\<lparr>data_num := n\<rparr>) = chunks skb" "chunks (skb\<lparr>data_total_len := t\<rparr>) = chunks skb"
  "chunks (skb\<lparr>data0 := d, nexts := ds\<rparr>) = d # ds" "chunks (skb\<lparr>data0 := d\<rparr>) = d # nexts skb"
  by (simp_all add: chunks_def)

lemma chunks_nonempty [simp]: "chunks skb \<noteq> []"
  by (simp add: chunks_def)

lemma length_chunk_bytes: "info_ok h d \<or> d = info_zero \<Longrightarrow> length (chunk_bytes h d) = d_len d"
  by (auto simp: info_ok_def chunk_bytes_def d_len_def info_zero_def split: option.splits)

lemma length_chain_bytes_all:
  "\<forall>d \<in> set cs. info_ok h d \<or> d = info_zero \<Longrightarrow> length (chain_bytes h cs) = sum_list (map d_len cs)"
  by (induction cs) (auto simp: length_chunk_bytes)

lemma length_chain_bytes: "chain_ok h cs num \<Longrightarrow> length (chain_bytes h cs) = sum_list (map d_len cs)"
  by (rule length_chain_bytes_all) (auto simp: chain_ok_def)

lemma length_skb_bytes: "skb_ok h skb \<Longrightarrow> length (skb_bytes h skb) = data_total_len skb"
  using length_chain_bytes [of h "chunks skb" "data_num skb"] by (simp add: skb_ok_def skb_bytes_def)

text \<open>Only the slots of a packet matter to it.\<close>

lemma keeps_chunk:
  assumes "keeps M h h'" "set_mset (slot_mset (d_slot d)) \<subseteq> set_mset M"
  shows "chunk_bytes h' d = chunk_bytes h d" "info_ok h' d = info_ok h d"
  using assms by (auto simp: keeps_def chunk_bytes_def info_ok_def split: option.splits)

lemma keeps_chain:
  assumes "keeps M h h'" "set_mset (info_slots cs) \<subseteq> set_mset M"
  shows "chain_bytes h' cs = chain_bytes h cs" "(\<forall>d \<in> set cs. info_ok h' d) = (\<forall>d \<in> set cs. info_ok h d)"
  using assms(2) by (induction cs) (simp_all add: keeps_chunk [OF assms(1)])

lemma keeps_skb:
  assumes "keeps M h h'" "set_mset (skb_slots skb) \<subseteq> set_mset M"
  shows "skb_bytes h' skb = skb_bytes h skb" "skb_ok h' skb = skb_ok h skb"
  using keeps_chain [OF assms] by (simp_all add: skb_bytes_def skb_ok_def chain_ok_def)

lemma chunk_bytes_frame: "bytes_at h' = bytes_at h \<Longrightarrow> chunk_bytes h' d = chunk_bytes h d"
  by (simp add: chunk_bytes_def split: option.split)

lemma chain_bytes_frame: "bytes_at h' = bytes_at h \<Longrightarrow> chain_bytes h' cs = chain_bytes h cs"
  by (induction cs) (simp_all add: chunk_bytes_def split: option.split)

lemma info_ok_frame: "slot_size h' = slot_size h \<Longrightarrow> info_ok h' d = info_ok h d"
  by (simp add: info_ok_def split: option.split)

lemma chain_ok_frame: "slot_size h' = slot_size h \<Longrightarrow> chain_ok h' cs n = chain_ok h cs n"
  using info_ok_frame [of h' h] by (simp add: chain_ok_def)

lemma chunk_bytes_drop:
  "info_ok h d \<Longrightarrow> chunk_bytes h (d\<lparr>d_start := d_start d + n\<rparr>) = drop n (chunk_bytes h d)"
  by (auto simp: chunk_bytes_def info_ok_def drop_map split: option.splits)

lemma chunk_bytes_take:
  "info_ok h d \<Longrightarrow> n \<le> d_len d \<Longrightarrow> chunk_bytes h (d\<lparr>d_end := d_start d + n\<rparr>) = take n (chunk_bytes h d)"
  by (auto simp: chunk_bytes_def info_ok_def d_len_def take_map split: option.splits)

lemma info_ok_drop: "info_ok h d \<Longrightarrow> n \<le> d_len d \<Longrightarrow> info_ok h (d\<lparr>d_start := d_start d + n\<rparr>)"
  by (auto simp: info_ok_def d_len_def split: option.splits)

lemma info_ok_take: "info_ok h d \<Longrightarrow> n \<le> d_len d \<Longrightarrow> info_ok h (d\<lparr>d_end := d_start d + n\<rparr>)"
  by (auto simp: info_ok_def d_len_def split: option.splits)

section \<open>The operations\<close>

text \<open>
  What an operation does to one packet: it now holds the bytes \<open>bs\<close>, is well formed, the counts are those of
  its windows and of \<open>M\<close>, the windows of all other packets, and the slots of \<open>M\<close> are as before.
\<close>

definition edited :: "slot multiset \<Rightarrow> frames \<Rightarrow> skbuff \<Rightarrow> u8 list \<Rightarrow> frames \<Rightarrow> bool" where
  "edited M h skb bs h' \<longleftrightarrow> balanced h' (skb_slots skb + M) \<and> skb_ok h' skb \<and> skb_bytes h' skb = bs \<and> keeps M h h'"

lemma editedI:
  assumes "chunks skb = cs" "chain_ok h' cs (data_num skb)" "data_num skb \<le> SKB_DATA_MAX_NUM"
    "data_total_len skb = sum_list (map d_len cs)" "chain_bytes h' cs = bs" "balanced h' (info_slots cs + M)" "keeps M h h'"
  shows "edited M h skb bs h'"
  using assms by (simp add: edited_def skb_ok_def skb_bytes_def)

lemma edited_same: "balanced h (skb_slots skb + M) \<Longrightarrow> skb_ok h skb \<Longrightarrow> edited M h skb (skb_bytes h skb) h"
  by (simp add: edited_def)

lemma consume_loop_spec:
  assumes "\<forall>d \<in> set (d # ns). info_ok h d" "num = length (d # ns)" "k \<le> sum_list (map d_len (d # ns))"
    "balanced h (info_slots (d # ns) + M)" "consume_loop k d ns num h = (cs, num', h')"
  shows "chain_ok h' cs num' \<and> num' \<le> num \<and> chain_bytes h' cs = drop k (chain_bytes h (d # ns)) \<and>
    balanced h' (info_slots cs + M) \<and> bytes_at h' = bytes_at h \<and> slot_size h' = slot_size h \<and>
    sum_list (map d_len cs) + k = sum_list (map d_len (d # ns))"
  using assms
proof (induction k d ns num h arbitrary: M rule: consume_loop.induct)
  case (1 k d num h)
  have d: "info_ok h d" and len: "length (chunk_bytes h d) = d_len d" using 1(1) by (simp_all add: length_chunk_bytes)
  consider "k = 0" | "0 < k" "k < d_len d" | "0 < k" "k = d_len d" using 1(3) by force
  then show ?case
  proof cases
    case 2
    then have "cs = [d\<lparr>d_start := d_start d + k\<rparr>]" "num' = num" "h' = h" using 1(5) by auto
    then show ?thesis
      using 1 2 d by (auto simp: chain_ok_def info_ok_drop chunk_bytes_drop) (simp add: d_len_def)
  next
    case 3
    then have "cs = [info_zero]" "num' = num - 1" "h' = put_slot (d_slot d) h" using 1(5) by auto
    then show ?thesis using 1 3 len balanced_put_slot [of h "d_slot d" M] by (simp add: chain_ok_def)
  qed (use 1 d in \<open>auto simp: chain_ok_def\<close>)
next
  case (2 k d n ns num h)
  have d: "info_ok h d" and len: "length (chunk_bytes h d) = d_len d" using 2(2) by (simp_all add: length_chunk_bytes)
  consider "k = 0" | "0 < k" "k < d_len d" | "0 < k" "d_len d \<le> k" by linarith
  then show ?case
  proof cases
    case b: 2
    then have "cs = d\<lparr>d_start := d_start d + k\<rparr> # n # ns" "num' = num" "h' = h" using 2(6) by auto
    then show ?thesis
      using 2(2-5) b d len by (auto simp: chain_ok_def info_ok_drop chunk_bytes_drop) (simp add: d_len_def)
  next
    case c: 3
    let ?h = "put_slot (d_slot d) h"
    have "num \<noteq> 1" using 2(3) by simp
    then have eq: "consume_loop (k - d_len d) n ns (num - 1) ?h = (cs, num', h')" using 2(6) c by simp
    have ok: "\<forall>d \<in> set (n # ns). info_ok ?h d" using 2(2) info_ok_frame [of ?h h] by simp
    have bal: "balanced ?h (info_slots (n # ns) + M)"
      using 2(5) by (intro balanced_put_slot) (simp add: add.assoc)
    have "chain_bytes ?h (n # ns) = chain_bytes h (n # ns)" by (rule chain_bytes_frame) simp
    moreover have "k - d_len d \<le> sum_list (map d_len (n # ns))" "num - 1 = length (n # ns)" using 2(3,4) by auto
    ultimately show ?thesis
      using 2(1) [OF _ _ \<open>num \<noteq> 1\<close> ok _ _ bal eq] 2(3,4) c len by auto
  qed (use 2(2-6) d in \<open>auto simp: chain_ok_def\<close>)
qed

lemma skb_ok_cases:
  assumes "skb_ok h skb" "0 < data_total_len skb"
  shows "\<forall>d \<in> set (chunks skb). info_ok h d" "data_num skb = length (chunks skb)"
  using assms by (auto simp: skb_ok_def chain_ok_def)

lemma skb_consume_spec:
  assumes bal: "balanced h (skb_slots skb + M)" and ok: "skb_ok h skb"
    and c: "skb_consume skb n linear h = (k, skb', h')"
  shows "edited M h skb' (drop k (skb_bytes h skb)) h' \<and> bytes_at h' = bytes_at h \<and> slot_size h' = slot_size h \<and>
    k = (if linear then min (min n (data_total_len skb)) (skb_data0_len skb) else min n (data_total_len skb))"
proof (cases "min n (data_total_len skb) = 0")
  case True
  then show ?thesis using c bal ok by (auto simp: skb_consume_def edited_def)
next
  case pos: False
  then have total: "0 < data_total_len skb" by auto
  note oks = skb_ok_cases [OF ok total]
  have sum: "data_total_len skb = sum_list (map d_len (chunks skb))" and max: "data_num skb \<le> SKB_DATA_MAX_NUM"
    using ok by (simp_all add: skb_ok_def)
  show ?thesis
  proof (cases linear)
    case False
    obtain cs num h1 where l: "consume_loop (min n (data_total_len skb)) (data0 skb) (nexts skb) (data_num skb) h = (cs, num, h1)"
      by (rule prod_cases3)
    then have eqs: "k = min n (data_total_len skb)" "h' = h1"
      "skb' = (set_chunks cs skb)\<lparr>data_num := num, data_total_len := data_total_len skb - k\<rparr>"
      using c pos False by (auto simp: skb_consume_def Let_def)
    have le: "min n (data_total_len skb) \<le> sum_list (map d_len (data0 skb # nexts skb))"
      using sum by (simp add: chunks_def)
    note spec = consume_loop_spec [OF oks(1) [unfolded chunks_def] _ le _ l, of M]
    have "cs \<noteq> []" using spec oks(2) bal by (auto simp: chunks_def chain_ok_def)
    then show ?thesis
      using spec oks(2) bal sum max False
      unfolding eqs edited_def skb_ok_def skb_bytes_def by (auto simp: chunks_def [of skb] intro: keepsI)
  next
    case True
    define j where "j = min (min n (data_total_len skb)) (skb_data0_len skb)"
    let ?d = "(data0 skb)\<lparr>d_start := d_start (data0 skb) + j\<rparr>"
    have d0: "info_ok h (data0 skb)" and len: "length (chunk_bytes h (data0 skb)) = d_len (data0 skb)"
      using oks(1) by (simp_all add: chunks_def length_chunk_bytes)
    have j: "j \<le> d_len (data0 skb)" by (simp add: j_def skb_data0_len_def)
    have dlen: "d_len ?d = d_len (data0 skb) - j" by (simp add: d_len_def)
    have total': "data_total_len skb - j = d_len (data0 skb) - j + sum_list (map d_len (nexts skb))"
      using sum j by (simp add: chunks_def)
    have kj: "k = j" using c pos True by (auto simp: skb_consume_def Let_def j_def split: if_splits)
    show ?thesis
    proof (cases "d_len ?d = 0")
      case False
      then have eqs: "h' = h" "skb' = skb\<lparr>data0 := ?d, data_total_len := data_total_len skb - j\<rparr>"
        using c pos True by (auto simp: skb_consume_def Let_def j_def)
      have "edited M h skb' (drop j (skb_bytes h skb)) h"
      proof (rule editedI)
        show "chunks skb' = ?d # nexts skb" by (simp add: eqs chunks_def)
        show "chain_ok h (?d # nexts skb) (data_num skb')"
          using oks info_ok_drop [OF d0 j] by (simp add: eqs chain_ok_def chunks_def)
        show "chain_bytes h (?d # nexts skb) = drop j (skb_bytes h skb)"
          using chunk_bytes_drop [OF d0, of j] j len by (simp add: skb_bytes_def chunks_def)
        show "data_total_len skb' = sum_list (map d_len (?d # nexts skb))" using total' dlen by (simp add: eqs)
        show "balanced h (info_slots (?d # nexts skb) + M)" using bal by (simp add: chunks_def)
      qed (simp_all add: eqs max)
      then show ?thesis using True kj by (simp add: eqs j_def)
    next
      case False0: True
      then have all: "j = d_len (data0 skb)" using dlen j by linarith
      let ?h = "put_slot (d_slot (data0 skb)) h"
      have bal': "balanced ?h (info_slots (nexts skb) + M)"
        using bal by (intro balanced_put_slot) (simp add: chunks_def add.assoc)
      have bts: "chain_bytes ?h (nexts skb) = drop j (skb_bytes h skb)"
        using chain_bytes_frame [of ?h h "nexts skb"] all len by (simp add: skb_bytes_def chunks_def)
      have iok: "info_ok ?h d = info_ok h d" for d by (rule info_ok_frame) simp
      have "edited M h skb' (drop j (skb_bytes h skb)) h' \<and> h' = ?h"
      proof (cases "nexts skb")
        case Nil
        then have eqs: "h' = ?h"
          "skb' = skb\<lparr>data0 := info_zero, nexts := [], data_num := 0, data_total_len := data_total_len skb - j\<rparr>"
          using c pos True False0 oks(2) by (auto simp: skb_consume_def Let_def chunks_def j_def)
        have "edited M h skb' (drop j (skb_bytes h skb)) ?h"
          by (rule editedI [of _ "[info_zero]"])
             (use bal' bts Nil total' all in \<open>simp_all add: eqs chain_ok_def keepsI\<close>)
        then show ?thesis by (simp add: eqs)
      next
        case (Cons n0 ns)
        then have eqs: "h' = ?h"
          "skb' = (set_chunks (nexts skb) skb)\<lparr>data_num := data_num skb - 1, data_total_len := data_total_len skb - j\<rparr>"
          using c pos True False0 oks(2) by (auto simp: skb_consume_def Let_def chunks_def j_def)
        have "edited M h skb' (drop j (skb_bytes h skb)) ?h"
        proof (rule editedI [of _ "nexts skb"])
          show "chain_ok ?h (nexts skb) (data_num skb')"
            using oks Cons iok by (auto simp: eqs chain_ok_def chunks_def)
        qed (use bal' bts Cons total' all max in \<open>simp_all add: eqs keepsI\<close>)
        then show ?thesis by (simp add: eqs)
      qed
      then show ?thesis using True kj unfolding j_def by auto
    qed
  qed
qed

lemma truncate_loop_spec:
  assumes "\<forall>d \<in> set ds. info_ok h d" "cum < new_len" "new_len - cum \<le> sum_list (map d_len ds)"
  shows "\<exists>keep gone. truncate_loop new_len cum ds = Some (keep, gone) \<and> keep \<noteq> [] \<and> (\<forall>d \<in> set keep. info_ok h d) \<and>
    chain_bytes h keep = take (new_len - cum) (chain_bytes h ds) \<and> info_slots keep + info_slots gone = info_slots ds \<and>
    length keep + length gone = length ds \<and> sum_list (map d_len keep) = new_len - cum"
  using assms
proof (induction ds arbitrary: cum)
  case (Cons d ds)
  have d: "info_ok h d" and len: "length (chunk_bytes h d) = d_len d" using Cons.prems(1) by (simp_all add: length_chunk_bytes)
  show ?case
  proof (cases "new_len \<le> cum + d_len d")
    case True
    then have n: "new_len - cum \<le> d_len d" by simp
    define m where "m = new_len - cum"
    let ?d = "d\<lparr>d_end := d_start d + m\<rparr>"
    have m: "m \<le> d_len d" using n by (simp add: m_def)
    have "truncate_loop new_len cum (d # ds) = Some ([?d], ds)" using True by (simp add: m_def)
    moreover have "d_len ?d = m" by (simp add: d_len_def)
    ultimately show ?thesis
      using info_ok_take [OF d m] chunk_bytes_take [OF d m] m len unfolding m_def [symmetric] by simp
  next
    case False
    then have "cum + d_len d < new_len" "new_len - (cum + d_len d) \<le> sum_list (map d_len ds)" "\<forall>d \<in> set ds. info_ok h d"
      using Cons.prems by auto
    from Cons.IH [OF this(3,1,2)] obtain keep gone where "truncate_loop new_len (cum + d_len d) ds = Some (keep, gone)"
      "keep \<noteq> []" "\<forall>d \<in> set keep. info_ok h d" "chain_bytes h keep = take (new_len - (cum + d_len d)) (chain_bytes h ds)"
      "info_slots keep + info_slots gone = info_slots ds" "length keep + length gone = length ds"
      "sum_list (map d_len keep) = new_len - (cum + d_len d)"
      by blast
    then show ?thesis using False d len by (auto simp: add.assoc)
  qed
qed simp

lemma skb_truncate_spec:
  assumes bal: "balanced h (skb_slots skb + M)" and ok: "skb_ok h skb" and c: "skb_truncate skb n h = (skb', h')"
  shows "edited M h skb' (take n (skb_bytes h skb)) h' \<and> bytes_at h' = bytes_at h \<and> slot_size h' = slot_size h"
proof (cases "data_total_len skb \<le> n")
  case True
  then show ?thesis using c bal ok length_skb_bytes [OF ok] by (auto simp: skb_truncate_def edited_def)
next
  case False
  then have total: "0 < data_total_len skb" by simp
  note oks = skb_ok_cases [OF ok total]
  have sum: "data_total_len skb = sum_list (map d_len (chunks skb))" and max: "data_num skb \<le> SKB_DATA_MAX_NUM"
    using ok by (simp_all add: skb_ok_def)
  show ?thesis
  proof (cases "n = 0")
    case True
    have "balanced (fold free_data_info (nexts skb) h) (slot_mset (d_slot (data0 skb)) + M)"
      using bal by (intro balanced_free) (simp add: chunks_def add.left_commute add.assoc)
    then show ?thesis
      using c False True balanced_put_slot
      by (auto simp: skb_truncate_def edited_def skb_ok_def chain_ok_def skb_bytes_def intro: keepsI)
  next
    case pos: False
    obtain keep gone where t: "truncate_loop n 0 (chunks skb) = Some (keep, gone)"
      "keep \<noteq> []" "\<forall>d \<in> set keep. info_ok h d" "chain_bytes h keep = take n (chain_bytes h (chunks skb))"
      "info_slots keep + info_slots gone = info_slots (chunks skb)" "length keep + length gone = length (chunks skb)"
      "sum_list (map d_len keep) = n"
      using truncate_loop_spec [OF oks(1), of 0 n] pos False sum by auto
    let ?h = "fold free_data_info gone h"
    have "balanced ?h (info_slots keep + M)"
      using bal t(5) by (intro balanced_free) (metis add.assoc add.commute)
    moreover have "chain_bytes ?h keep = chain_bytes h keep" by (rule chain_bytes_frame) simp
    moreover have "info_ok ?h d = info_ok h d" for d by (rule info_ok_frame) simp
    moreover have "skb' = (set_chunks keep skb)\<lparr>data_num := data_num skb - length gone, data_total_len := n\<rparr>" "h' = ?h"
      using c False pos t(1) by (simp_all add: skb_truncate_def)
    ultimately show ?thesis
      using t oks max by (auto simp: edited_def skb_ok_def chain_ok_def skb_bytes_def intro: keepsI)
  qed
qed

end
