(* ===== verification/Packets.thy ===== *)
theory Packets
  imports Skbuff
begin

text \<open>
  What the packet operations of \<open>Skbuff\<close> do: each implements an operation on the list of the packet's bytes,
  leaves the bytes of every other packet alone, and keeps the reference counts of the slots equal to the
  number of windows onto them, also when an allocation fails half way.
\<close>

declare split_paired_All [simp del] split_paired_Ex [simp del]

section \<open>Allocation and release\<close>

lemma skb_destroy_spec:
  assumes "balanced h (skb_slots skb + M)"
  shows "balanced (skb_destroy skb h) M" "bytes_at (skb_destroy skb h) = bytes_at h" "slot_size (skb_destroy skb h) = slot_size h"
proof -
  have "balanced (fold free_data_info (nexts skb) h) (slot_mset (d_slot (data0 skb)) + M)"
    using assms by (intro balanced_free) (simp add: chunks_def add.left_commute add.assoc)
  then show "balanced (skb_destroy skb h) M" unfolding skb_destroy_def by (rule balanced_put_slot)
qed (simp_all add: skb_destroy_def)

lemma skb_destroy_zero [simp]: "skb_destroy skb_zero h = h"
  by (simp add: skb_destroy_def skb_zero_def put_slot_def)

lemma destroy_chunks_spec:
  assumes "balanced h (info_slots cs + M)"
  shows "balanced (destroy_chunks cs h) M" "bytes_at (destroy_chunks cs h) = bytes_at h"
    "slot_size (destroy_chunks cs h) = slot_size h"
  using assms skb_destroy_spec [of h "set_chunks cs skb_zero" M] by (auto simp: destroy_chunks_def)

lemma alloc_data_info_spec:
  assumes bal: "balanced h M" and a: "alloc_data_info n h = (r, h')"
  shows "keeps M h h'" "r = None \<Longrightarrow> balanced h' M"
    "r = Some di \<Longrightarrow> \<exists>s. d_slot di = Some s \<and> s \<notin># M \<and> balanced h' (add_mset s M) \<and> d_size di \<le> slot_size h' s \<and> n \<le> d_size di"
proof -
  obtain r1 h1 where f: "frame_slot_alloc n h = (r1, h1)" by (cases "frame_slot_alloc n h")
  obtain ok h2 where m: "malloc h1 = (ok, h2)" by (cases "malloc h1")
  note fs = balanced_alloc [OF bal f]
  note ms = malloc_frame [OF m]
  have k2: "keeps M h h2" using fs(1) ms(4) by (rule keeps_trans)
  have "keeps M h h' \<and> (r = None \<longrightarrow> balanced h' M) \<and>
    (\<forall>di. r = Some di \<longrightarrow> (\<exists>s. d_slot di = Some s \<and> s \<notin># M \<and> balanced h' (add_mset s M) \<and>
       d_size di \<le> slot_size h' s \<and> n \<le> d_size di))"
  proof (cases r1)
    case None
    then show ?thesis using a f fs by (auto simp: alloc_data_info_def)
  next
    case (Some s)
    have bal2: "balanced h2 (add_mset s M)" using fs(2) Some ms(3) by simp
    show ?thesis
    proof (cases ok)
      case True
      then show ?thesis using a f m Some fs(3,4) bal2 k2 ms(2) by (auto simp: alloc_data_info_def)
    next
      case False
      have "keeps M h (PUT_REF s h2)" using k2 by (simp add: keeps_def)
      then show ?thesis using a f m Some False balanced_put [OF bal2] by (auto simp: alloc_data_info_def)
    qed
  qed
  then show "keeps M h h'" "r = None \<Longrightarrow> balanced h' M"
    "r = Some di \<Longrightarrow> \<exists>s. d_slot di = Some s \<and> s \<notin># M \<and> balanced h' (add_mset s M) \<and> d_size di \<le> slot_size h' s \<and> n \<le> d_size di"
    by blast+
qed

lemma chunk_bytes_store:
  assumes "d_slot d = Some s" "d_start d = off" "d_end d = off + length bs"
  shows "chunk_bytes (store_bytes (Some s) off bs h) d = bs"
  using assms by (auto simp: chunk_bytes_def store_bytes_def intro!: nth_equalityI)

lemma skb_alloc_spec:
  assumes bal: "balanced h M" and a: "skb_alloc n h = (r, h')"
  shows "keeps M h h'" "r = None \<Longrightarrow> balanced h' M" "r = Some skb \<Longrightarrow> edited M h skb [] h'"
proof -
  obtain ok h1 where m: "malloc h = (ok, h1)" by (cases "malloc h")
  note ms = malloc_frame [OF m]
  have bal1: "balanced h1 M" using bal ms(3) by simp
  obtain r1 h2 where f: "frame_slot_alloc n h1 = (r1, h2)" by (cases "frame_slot_alloc n h1")
  note fs = balanced_alloc [OF bal1 f]
  have k2: "keeps M h h2" using ms(4) fs(1) by (rule keeps_trans)
  have "keeps M h h' \<and> (r = None \<longrightarrow> balanced h' M) \<and> (\<forall>skb. r = Some skb \<longrightarrow> edited M h skb [] h')"
  proof (cases "ok \<and> r1 \<noteq> None")
    case False
    then have "r = None" "h' = h1 \<or> r1 = None \<and> h' = h2"
      using a m f by (cases ok; auto simp: skb_alloc_def)+
    then show ?thesis using ms(4) bal1 fs(2) k2 by auto
  next
    case True
    then obtain s where s: "r1 = Some s" by auto
    let ?d = "\<lparr>d_slot = Some s, d_start = 0, d_end = 0, d_size = (if n \<noteq> 0 then n else slot_size h2 s)\<rparr>"
    have r: "r = Some (skb_zero\<lparr>data0 := ?d, data_num := 1\<rparr>)" "h' = h2" using a m f True s by (auto simp: skb_alloc_def)
    have "edited M h (skb_zero\<lparr>data0 := ?d, data_num := 1\<rparr>) [] h2"
      by (rule editedI [of _ "[?d]"])
         (use fs(2,4) s k2 in \<open>simp_all add: chunks_def skb_zero_def chain_ok_def info_ok_def SKB_DATA_MAX_NUM_def
            d_len_def chunk_bytes_def\<close>)
    then show ?thesis using r k2 by simp
  qed
  then show "keeps M h h'" "r = None \<Longrightarrow> balanced h' M" "r = Some skb \<Longrightarrow> edited M h skb [] h'" by blast+
qed

section \<open>Clones and copies\<close>

lemma clone_loop_spec:
  assumes "balanced h (info_slots new + M)" "set_mset (info_slots ds) \<subseteq> set_mset M" "clone_loop ds new h = (ok, new', h')"
  shows "balanced h' (info_slots new' + M) \<and> bytes_at h' = bytes_at h \<and> slot_size h' = slot_size h \<and> (ok \<longrightarrow> new' = new @ ds)"
  using assms
proof (induction ds new h rule: clone_loop.induct)
  case (2 d ds new h)
  obtain ok1 h1 where m: "(if new = [] then (True, h) else malloc h) = (ok1, h1)" by (cases "if new = [] then (True, h) else malloc h")
  have f: "bytes_at h1 = bytes_at h" "slot_size h1 = slot_size h" "balanced h1 (info_slots new + M)"
    using m malloc_frame [of h ok1 h1] 2(2) by (auto split: if_splits)
  let ?h = "case d_slot d of None \<Rightarrow> h1 | Some s \<Rightarrow> INC_REF s h1"
  have bal: "balanced ?h (info_slots (new @ [d]) + M)"
  proof (cases "d_slot d")
    case (Some s)
    then have "s \<in># info_slots new + M" using 2(3) by auto
    from balanced_inc [OF f(3) this] show ?thesis using Some by simp
  qed (use f(3) in simp)
  have frame: "bytes_at ?h = bytes_at h" "slot_size ?h = slot_size h"
    using f by (simp_all add: INC_REF_def split: option.split)
  show ?case
  proof (cases ok1)
    case True
    then have "clone_loop ds (new @ [d]) ?h = (ok, new', h')" using 2(4) m by simp
    with 2(1) [OF m [symmetric] _ bal] True 2(3) frame show ?thesis by auto
  next
    case False
    then show ?thesis using 2(4) m f by auto
  qed
qed simp

lemma skb_clone_spec:
  assumes bal: "balanced h (skb_slots skb + M)" and ok: "skb_ok h skb" and ne: "d_slot (data0 skb) \<noteq> None"
    and a: "skb_clone skb h = (r, h')"
  shows "bytes_at h' = bytes_at h" "slot_size h' = slot_size h" "r = None \<Longrightarrow> balanced h' (skb_slots skb + M)"
    "r = Some c \<Longrightarrow> edited (skb_slots skb + M) h c (skb_bytes h skb) h'"
proof -
  obtain ok1 h1 where m: "malloc h = (ok1, h1)" by (cases "malloc h")
  note ms = malloc_frame [OF m]
  have bal1: "balanced h1 (info_slots [] + (skb_slots skb + M))" using bal ms(3) by simp
  obtain ok2 new h2 where l: "clone_loop (chunks skb) [] h1 = (ok2, new, h2)" by (rule prod_cases3)
  note ls = clone_loop_spec [OF bal1 _ l]
  have res: "bytes_at h' = bytes_at h \<and> slot_size h' = slot_size h \<and> (r = None \<longrightarrow> balanced h' (skb_slots skb + M)) \<and>
    (\<forall>c. r = Some c \<longrightarrow> edited (skb_slots skb + M) h c (skb_bytes h skb) h')"
  proof (cases "ok1 \<and> ok2")
    case False
    then show ?thesis
      using a m l ms ls bal1 destroy_chunks_spec [of h2 new "skb_slots skb + M"] by (auto simp: skb_clone_def split: if_splits)
  next
    case True
    then have new: "new = chunks skb" and r: "r = Some ((set_chunks new skb)\<lparr>data_num := length new, is_clone := True\<rparr>)" "h' = h2"
      using a m l ls by (auto simp: skb_clone_def)
    have same: "bytes_at h2 = bytes_at h" "slot_size h2 = slot_size h" using ls ms(1,2) by simp_all
    have num: "data_num skb = length (chunks skb)" "chain_ok h (chunks skb) (data_num skb)"
      using ok ne by (auto simp: skb_ok_def chain_ok_def chunks_def)
    have "edited (skb_slots skb + M) h ((set_chunks new skb)\<lparr>data_num := length new, is_clone := True\<rparr>) (skb_bytes h skb) h2"
    proof (rule editedI [of _ "chunks skb"])
      show "chunks ((set_chunks new skb)\<lparr>data_num := length new, is_clone := True\<rparr>) = chunks skb"
        unfolding new by (simp add: chunks_def set_chunks_def)
      show "chain_bytes h2 (chunks skb) = skb_bytes h skb"
        using chain_bytes_frame [OF same(1)] by (simp add: skb_bytes_def)
    qed (use ok num ls new same chain_ok_frame [OF same(2)] in \<open>simp_all add: skb_ok_def keepsI\<close>)
    then show ?thesis using r same by simp
  qed
  then show "bytes_at h' = bytes_at h" "slot_size h' = slot_size h" "r = None \<Longrightarrow> balanced h' (skb_slots skb + M)"
    "r = Some c \<Longrightarrow> edited (skb_slots skb + M) h c (skb_bytes h skb) h'" by blast+
qed

text \<open>A window of a fresh slot filled by \<open>memcpy\<close>.\<close>

lemma fill_fresh:
  assumes bal: "balanced h (add_mset s M)" and s: "s \<notin># M" "d_slot di = Some s" "d_end di = d_start di + length bs"
    and fit: "d_end di \<le> d_size di" "d_size di \<le> slot_size h s"
  defines "h' \<equiv> store_bytes (d_slot di) (d_start di) bs h"
  shows "keeps M h h'" "balanced h' (slot_mset (d_slot di) + M)" "info_ok h' di" "chunk_bytes h' di = bs" "d_len di = length bs"
proof -
  show "keeps M h h'" unfolding h'_def by (rule keeps_store) (use s in auto)
  show "balanced h' (slot_mset (d_slot di) + M)" using bal s by (simp add: h'_def)
  show "info_ok h' di" using s fit by (simp add: h'_def info_ok_def)
  show "chunk_bytes h' di = bs" unfolding h'_def s(2) by (rule chunk_bytes_store) (use s in simp_all)
  show "d_len di = length bs" using s by (simp add: d_len_def)
qed

lemma copy_info_spec:
  assumes bal: "balanced h M" and d: "info_ok h d" and a: "copy_info first d h = (r, h')"
  shows "keeps M h h'" "r = None \<Longrightarrow> balanced h' M"
    "r = Some di \<Longrightarrow> \<exists>s. d_slot di = Some s \<and> s \<notin># M \<and> balanced h' (add_mset s M) \<and> d_start di = d_start d \<and>
       d_end di = d_start d + d_len d \<and> d_end di \<le> d_size di \<and> d_size di \<le> slot_size h' s"
proof -
  have e: "d_start d + d_len d = d_end d" "d_end d \<le> d_size d"
    using d by (auto simp: info_ok_def d_len_def split: option.splits)
  have "keeps M h h' \<and> (r = None \<longrightarrow> balanced h' M) \<and>
    (\<forall>di. r = Some di \<longrightarrow> (\<exists>s. d_slot di = Some s \<and> s \<notin># M \<and> balanced h' (add_mset s M) \<and> d_start di = d_start d \<and>
       d_end di = d_start d + d_len d \<and> d_end di \<le> d_size di \<and> d_size di \<le> slot_size h' s))"
  proof (cases first)
    case True
    obtain r1 h1 where f: "frame_slot_alloc (d_size d) h = (r1, h1)" by (cases "frame_slot_alloc (d_size d) h")
    show ?thesis using balanced_alloc [OF bal f] a f True e by (cases r1) (auto simp: copy_info_def)
  next
    case False
    obtain r1 h1 where f: "alloc_data_info (d_size d) h = (r1, h1)" by (cases "alloc_data_info (d_size d) h")
    note fs = alloc_data_info_spec [OF bal f]
    show ?thesis
    proof (cases r1)
      case None
      then show ?thesis using a f False fs(1,2) by (simp add: copy_info_def)
    next
      case (Some di)
      from fs(3) [OF Some] show ?thesis using a f False Some fs(1) e by (auto simp: copy_info_def)
    qed
  qed
  then show "keeps M h h'" "r = None \<Longrightarrow> balanced h' M"
    "r = Some di \<Longrightarrow> \<exists>s. d_slot di = Some s \<and> s \<notin># M \<and> balanced h' (add_mset s M) \<and> d_start di = d_start d \<and>
       d_end di = d_start d + d_len d \<and> d_end di \<le> d_size di \<and> d_size di \<le> slot_size h' s"
    by blast+
qed

lemma copy_chunks_spec:
  assumes "balanced h (info_slots new + M)" "set_mset (info_slots ds) \<subseteq> set_mset M"
    "\<forall>d \<in> set ds. info_ok h d" "\<forall>d \<in> set new. info_ok h d" "copy_chunks ds new h = (ok, new', h')"
  shows "balanced h' (info_slots new' + M) \<and> keeps (info_slots new + M) h h' \<and>
    (ok \<longrightarrow> chain_bytes h' new' = chain_bytes h new @ chain_bytes h ds \<and> (\<forall>d \<in> set new'. info_ok h' d) \<and>
            map d_len new' = map d_len (new @ ds)) \<and> (\<forall>s \<in># info_slots new'. s \<in># info_slots new \<or> s \<notin># M)"
  using assms
proof (induction ds new h rule: copy_chunks.induct)
  case (2 d ds new h)
  let ?N = "info_slots new + M"
  obtain r h1 where c: "copy_info (new = []) d h = (r, h1)" by (cases "copy_info (new = []) d h")
  have d: "info_ok h d" using 2(4) by simp
  note cs = copy_info_spec [OF 2(2) d c]
  have dM: "set_mset (slot_mset (d_slot d)) \<subseteq> set_mset ?N" and dsM: "set_mset (info_slots ds) \<subseteq> set_mset M" using 2(3) by auto
  have len: "length (chunk_bytes h1 d) = d_len d"
    using keeps_chunk [OF cs(1) dM] d by (simp add: length_chunk_bytes)
  show ?case
  proof (cases r)
    case None
    then show ?thesis using 2(6) c cs(1,2) by simp
  next
    case (Some di)
    from cs(3) [OF Some] obtain s where s: "d_slot di = Some s" "s \<notin># ?N" "balanced h1 (add_mset s ?N)"
      "d_start di = d_start d" "d_end di = d_start d + d_len d" "d_end di \<le> d_size di" "d_size di \<le> slot_size h1 s"
      by blast
    let ?h = "store_bytes (d_slot di) (d_start di) (chunk_bytes h1 d) h1"
    note ff = fill_fresh [OF s(3,2,1) _ s(6,7), of "chunk_bytes h1 d"]
    have e: "d_end di = d_start di + length (chunk_bytes h1 d)" using s len by simp
    have k: "keeps ?N h ?h" using cs(1) ff(1) [OF e] by (rule keeps_trans)
    have bal: "balanced ?h (info_slots (new @ [di]) + M)" using ff(2) [OF e] by (simp add: ac_simps)
    have new: "chain_bytes ?h new = chain_bytes h new" "\<forall>d \<in> set new. info_ok ?h d"
      using keeps_chain [OF k, of new] 2(5) by auto
    have ds: "chain_bytes ?h ds = chain_bytes h ds" "\<forall>d \<in> set ds. info_ok ?h d"
      using keeps_chain [OF k, of ds] dsM 2(4) by auto
    have all: "\<forall>d \<in> set (new @ [di]). info_ok ?h d" using new(2) ff(3) [OF e] by simp
    have eq: "copy_chunks ds (new @ [di]) ?h = (ok, new', h')" using 2(6) c Some by simp
    have IH: "balanced h' (info_slots new' + M) \<and> keeps (info_slots (new @ [di]) + M) ?h h' \<and>
      (ok \<longrightarrow> chain_bytes h' new' = chain_bytes ?h (new @ [di]) @ chain_bytes ?h ds \<and> (\<forall>d \<in> set new'. info_ok h' d) \<and>
            map d_len new' = map d_len ((new @ [di]) @ ds)) \<and>
      (\<forall>s \<in># info_slots new'. s \<in># info_slots (new @ [di]) \<or> s \<notin># M)"
      using 2(1) [OF c [symmetric] Some bal dsM ds(2) all eq] .
    moreover have "keeps ?N ?h h'" using IH keeps_mono [of "info_slots (new @ [di]) + M" ?h h' ?N] by auto
    moreover have "chunk_bytes ?h di = chunk_bytes h d" "d_len di = d_len d"
      using ff(4,5) [OF e] keeps_chunk [OF cs(1) dM] len by auto
    moreover have "\<forall>s \<in># info_slots new'. s \<in># info_slots new \<or> s \<notin># M" using IH s(1,2) by auto
    ultimately show ?thesis using keeps_trans [OF k] new(1) ds(1) by auto
  qed
qed simp

lemma skb_copy_spec:
  assumes bal: "balanced h (skb_slots skb + M)" and ok: "skb_ok h skb" and ne: "d_slot (data0 skb) \<noteq> None"
    and a: "skb_copy skb h = (r, h')"
  shows "keeps (skb_slots skb + M) h h'" "r = None \<Longrightarrow> balanced h' (skb_slots skb + M)"
    "r = Some c \<Longrightarrow> edited (skb_slots skb + M) h c (skb_bytes h skb) h' \<and> set_mset (skb_slots c) \<inter> set_mset (skb_slots skb + M) = {}"
proof -
  let ?M = "skb_slots skb + M"
  obtain ok1 h1 where m: "malloc h = (ok1, h1)" by (cases "malloc h")
  note ms = malloc_frame [OF m]
  have bal1: "balanced h1 (info_slots [] + ?M)" using bal ms(3) by simp
  obtain ok2 new h2 where l: "copy_chunks (chunks skb) [] h1 = (ok2, new, h2)" by (rule prod_cases3)
  have num: "data_num skb = length (chunks skb)" "\<forall>d \<in> set (chunks skb). info_ok h d"
    using ok ne by (auto simp: skb_ok_def chain_ok_def chunks_def)
  have oks: "\<forall>d \<in> set (chunks skb). info_ok h1 d" using num(2) info_ok_frame [OF ms(2)] by simp
  note ls = copy_chunks_spec [OF bal1 _ oks _ l]
  have k2: "keeps ?M h h2" using keeps_trans [OF ms(4)] ls by auto
  have "keeps ?M h h' \<and> (r = None \<longrightarrow> balanced h' ?M) \<and>
    (\<forall>c. r = Some c \<longrightarrow> edited ?M h c (skb_bytes h skb) h' \<and> set_mset (skb_slots c) \<inter> set_mset ?M = {})"
  proof (cases "ok1 \<and> ok2")
    case False
    have "keeps ?M h (destroy_chunks new h2)"
      using k2 destroy_chunks_spec [of h2 new ?M] ls by (simp add: keeps_def)
    then show ?thesis
      using False a m l ms(4) ls bal1 destroy_chunks_spec(1) [of h2 new ?M] by (auto simp: skb_copy_def split: if_splits)
  next
    case True
    let ?c = "(set_chunks new skb)\<lparr>data_num := length new,
                               l2_hdr := skb_rebase_data_ptr (chunks skb) new (l2_hdr skb),
                               l3_hdr := skb_rebase_data_ptr (chunks skb) new (l3_hdr skb),
                               l4_hdr := skb_rebase_data_ptr (chunks skb) new (l4_hdr skb), is_copy := True\<rparr>"
    have r: "r = Some ?c" "h' = h2" using a m l True by (auto simp: skb_copy_def)
    have lens: "map d_len new = map d_len (chunks skb)" using ls True by auto
    then have len: "length new = length (chunks skb)" by (metis length_map)
    then have ne: "new \<noteq> []" by auto
    have "edited ?M h ?c (skb_bytes h skb) h2"
    proof (rule editedI [of _ new])
      show "chunks ?c = new" using ne by (simp add: chunks_def set_chunks_def)
      show "chain_bytes h2 new = skb_bytes h skb"
        using ls True chain_bytes_frame [OF ms(1)] by (simp add: skb_bytes_def)
    qed (use ok num ls True lens len ne k2 in \<open>auto simp: skb_ok_def chain_ok_def\<close>)
    moreover have "set_mset (info_slots new) \<inter> set_mset ?M = {}" using ls by auto
    moreover have "chunks ?c = new" using ne by (simp add: chunks_def set_chunks_def)
    ultimately show ?thesis using r k2 by simp
  qed
  then show "keeps ?M h h'" "r = None \<Longrightarrow> balanced h' ?M"
    "r = Some c \<Longrightarrow> edited ?M h c (skb_bytes h skb) h' \<and> set_mset (skb_slots c) \<inter> set_mset ?M = {}" by blast+
qed

section \<open>Splitting\<close>

lemma split_loop_spec:
  assumes "cum \<le> len" "len - cum < sum_list (map d_len ds)" "split_loop len cum ds = (prev, k, rest)"
  shows "ds = prev @ rest \<and> rest \<noteq> [] \<and> sum_list (map d_len prev) + k = len - cum \<and> (k \<noteq> 0 \<longrightarrow> k < d_len (hd rest)) \<and>
    (prev = [] \<and> k = 0 \<longrightarrow> len = cum)"
  using assms
proof (induction len cum ds arbitrary: prev rule: split_loop.induct)
  case (2 len cum d ds)
  consider "len < cum + d_len d" | "cum + d_len d = len" | "cum + d_len d < len" by linarith
  then show ?case
  proof cases
    case 3
    then obtain prev' where p: "split_loop len (cum + d_len d) ds = (prev', k, rest)" "prev = d # prev'"
      using 2(4) by (auto split: prod.splits)
    have "cum + d_len d \<le> len" "len - (cum + d_len d) < sum_list (map d_len ds)" using 3 2(3) by auto
    from 2(1) [OF _ _ this p(1)] 3 p(2) show ?thesis by auto
  qed (use 2 in auto)
qed simp

lemma chain_bytes_split:
  assumes "\<forall>d \<in> set (prev @ d # rest). info_ok h d" "sum_list (map d_len prev) + k = len" "k \<le> d_len d"
  shows "take len (chain_bytes h (prev @ d # rest)) = chain_bytes h prev @ take k (chunk_bytes h d)"
    "drop len (chain_bytes h (prev @ d # rest)) = drop k (chunk_bytes h d) @ chain_bytes h rest"
proof -
  have "length (chain_bytes h prev) = sum_list (map d_len prev)"
  proof (cases "prev = []")
    case False
    then show ?thesis using length_chain_bytes [of h prev "length prev"] assms(1) by (simp add: chain_ok_def)
  qed simp
  moreover have "length (chunk_bytes h d) = d_len d" using assms(1) by (simp add: length_chunk_bytes)
  ultimately show "take len (chain_bytes h (prev @ d # rest)) = chain_bytes h prev @ take k (chunk_bytes h d)"
    "drop len (chain_bytes h (prev @ d # rest)) = drop k (chunk_bytes h d) @ chain_bytes h rest"
    using assms(2,3) by auto
qed

lemma chunks_split_tail [simp]: "ds \<noteq> [] \<Longrightarrow> chunks (split_tail skb len ds) = ds"
  "data_num (split_tail skb len ds) = length ds" "data_total_len (split_tail skb len ds) = data_total_len skb - len"
  by (simp_all add: split_tail_def chunks_def set_chunks_def)

definition split_done :: "slot multiset \<Rightarrow> frames \<Rightarrow> skbuff \<Rightarrow> nat \<Rightarrow> skbuff option \<Rightarrow> skbuff \<Rightarrow> frames \<Rightarrow> bool" where
  "split_done M h skb len r skb' h' \<longleftrightarrow> keeps M h h' \<and>
     (case r of
        None \<Rightarrow> skb' = skb \<and> balanced h' (skb_slots skb + M) \<and> keeps (skb_slots skb + M) h h'
      | Some t \<Rightarrow> balanced h' (skb_slots t + (skb_slots skb' + M)) \<and>
          skb_ok h' skb' \<and> skb_bytes h' skb' = take len (skb_bytes h skb) \<and>
          skb_ok h' t \<and> skb_bytes h' t = drop len (skb_bytes h skb))"

lemma split_inside:
  assumes bal: "balanced h (info_slots (prev @ d # rest) + M)" and oks: "\<forall>d \<in> set (prev @ d # rest). info_ok h d"
    and sum: "sum_list (map d_len prev) + k = len" and k: "k < d_len d" "k \<noteq> 0"
    and cs: "chunks skb = prev @ d # rest" "data_num skb = length (chunks skb)" "data_num skb \<le> SKB_DATA_MAX_NUM"
      "data_total_len skb = sum_list (map d_len (chunks skb))"
    and a: "alloc_data_info (d_size d) h = (Some di0, h1)"
  defines "di \<equiv> di0\<lparr>d_start := d_start d, d_end := d_start d + (d_len d - k)\<rparr>"
  defines "h2 \<equiv> store_bytes (d_slot di) (d_start di) (drop k (chunk_bytes h1 d)) h1"
    and "skb' \<equiv> (set_chunks (prev @ [d\<lparr>d_end := d_start d + k\<rparr>]) skb)
                  \<lparr>data_num := data_num skb - (length (di # rest) - 1), data_total_len := len\<rparr>"
  shows "split_done M h skb len (Some (split_tail skb len (di # rest))) skb' h2"
proof -
  let ?N = "info_slots (prev @ d # rest) + M"
  note as = alloc_data_info_spec [OF bal a]
  from as(3) [OF refl] obtain s where s: "d_slot di0 = Some s" "s \<notin># ?N" "balanced h1 (add_mset s ?N)"
    "d_size di0 \<le> slot_size h1 s" "d_size d \<le> d_size di0" by blast
  have d: "info_ok h d" using oks by simp
  have N: "set_mset (slot_mset (d_slot d)) \<subseteq> set_mset ?N" "set_mset (info_slots prev) \<subseteq> set_mset ?N"
    "set_mset (info_slots rest) \<subseteq> set_mset ?N" by auto
  have cb1: "chunk_bytes h1 d = chunk_bytes h d" using keeps_chunk [OF as(1) N(1)] by simp
  have len: "length (drop k (chunk_bytes h1 d)) = d_len d - k" using cb1 d by (simp add: length_chunk_bytes)
  have fit: "d_end di \<le> d_size di" "d_size di \<le> slot_size h1 s"
    using d s(4,5) by (auto simp: di_def info_ok_def d_len_def split: option.splits)
  have e: "d_end di = d_start di + length (drop k (chunk_bytes h1 d))" using len by (simp add: di_def)
  have slot: "d_slot di = Some s" using s(1) by (simp add: di_def)
  note ff = fill_fresh [OF s(3,2) slot e fit, folded h2_def]
  have keep: "keeps ?N h h2" using as(1) ff(1) by (rule keeps_trans)
  let ?d = "d\<lparr>d_end := d_start d + k\<rparr>"
  have kd: "k \<le> d_len d" using k by simp
  have ok2: "info_ok h2 x = info_ok h x" if "x \<in> set (prev @ d # rest)" for x
  proof (rule keeps_chunk(2) [OF keep])
    show "set_mset (slot_mset (d_slot x)) \<subseteq> set_mset ?N"
      using that info_slots_mem [of x "prev @ d # rest"] by (cases "d_slot x") auto
  qed
  have d2: "info_ok h2 ?d" "chunk_bytes h2 ?d = take k (chunk_bytes h d)"
    using info_ok_take [OF _ kd, of h2] chunk_bytes_take [OF _ kd, of h2] ok2 [of d] d keeps_chunk(1) [OF keep N(1)] by simp_all
  have head: "chunks skb' = prev @ [?d]" by (simp add: skb'_def)
  have lens: "d_len ?d = k" "d_len di = d_len d - k" using ff(5) len by (simp_all add: d_len_def)
  have "balanced h2 (info_slots (di # rest) + (info_slots (prev @ [?d]) + M))"
    using ff(2) by (simp add: ac_simps)
  moreover have "skb_ok h2 skb'"
    unfolding skb_ok_def head using oks ok2 d2 cs sum lens by (auto simp: chain_ok_def skb'_def)
  moreover have "skb_bytes h2 skb' = take len (skb_bytes h skb)"
    unfolding skb_bytes_def head cs(1) chain_bytes_split(1) [OF oks sum kd]
    using keeps_chain(1) [OF keep N(2)] d2(2) by simp
  moreover have "skb_ok h2 (split_tail skb len (di # rest))"
    unfolding skb_ok_def using oks ok2 ff(3) cs sum lens kd by (auto simp: chain_ok_def)
  moreover have "skb_bytes h2 (split_tail skb len (di # rest)) = drop len (skb_bytes h skb)"
    unfolding skb_bytes_def cs(1) chain_bytes_split(2) [OF oks sum kd]
    using keeps_chain(1) [OF keep N(3)] ff(4) cb1 by simp
  moreover have "keeps M h h2" using keep by (rule keeps_mono) auto
  ultimately show ?thesis unfolding split_done_def by (simp add: head)
qed

lemma skb_split_spec:
  assumes bal: "balanced h (skb_slots skb + M)" and ok: "skb_ok h skb" and a: "skb_split skb len h = (r, skb', h')"
  shows "split_done M h skb len r skb' h'"
proof (cases "data_total_len skb \<le> len")
  case True
  then show ?thesis using a bal by (simp add: skb_split_def split_done_def)
next
  case False
  then have total: "0 < data_total_len skb" by simp
  note oks = skb_ok_cases [OF ok total]
  have sum: "data_total_len skb = sum_list (map d_len (chunks skb))" and max: "data_num skb \<le> SKB_DATA_MAX_NUM"
    using ok by (simp_all add: skb_ok_def)
  obtain prev k ds where l: "split_loop len 0 (chunks skb) = (prev, k, ds)" by (rule prod_cases3)
  have sp: "chunks skb = prev @ ds" "ds \<noteq> []" "sum_list (map d_len prev) + k = len" "k \<noteq> 0 \<longrightarrow> k < d_len (hd ds)"
    using split_loop_spec [OF _ _ l] False sum by auto
  obtain d rest where ds: "ds = d # rest" using sp(2) by (cases ds) auto
  obtain ok1 h1 where m: "malloc h = (ok1, h1)" by (cases "malloc h")
  note ms = malloc_frame [OF m]
  have bal1: "balanced h1 (skb_slots skb + M)" using bal ms(3) by simp
  have ok1s: "\<forall>d \<in> set (prev @ d # rest). info_ok h1 d"
    using oks(1) info_ok_frame [OF ms(2)] unfolding sp(1) ds by simp
  have bytes1: "skb_bytes h1 skb = skb_bytes h skb" using chain_bytes_frame [OF ms(1)] by (simp add: skb_bytes_def)
  have lift: "split_done M h skb len r' s' h2" if "split_done M h1 skb len r' s' h2" for r' s' h2
    using that keeps_trans [OF ms(4)] bytes1 unfolding split_done_def by (cases r') auto
  consider "\<not> ok1 \<or> k = 0 \<and> prev = []" | "ok1" "k \<noteq> 0" | "ok1" "k = 0" "prev \<noteq> []" by blast
  then show ?thesis
  proof cases
    case 1
    then have "r = None" "skb' = skb" "h' = h1" using a False l m ds by (auto simp: skb_split_def split: if_splits)
    then show ?thesis using bal1 ms(4) by (simp add: split_done_def)
  next
    case 2
    obtain r1 h2 where al: "alloc_data_info (d_size d) h1 = (r1, h2)" by (cases "alloc_data_info (d_size d) h1")
    note as = alloc_data_info_spec [OF bal1 al]
    show ?thesis
    proof (cases r1)
      case None
      then have "r = None" "skb' = skb" "h' = h2" using 2 a False l m ds al by (auto simp: skb_split_def Let_def)
      moreover have k: "keeps (skb_slots skb + M) h h2" using ms(4) as(1) by (rule keeps_trans)
      moreover have "keeps M h h2" using k by (rule keeps_mono) auto
      ultimately show ?thesis using as(2) None by (simp add: split_done_def)
    next
      case (Some di0)
      have kd: "k < d_len d" using sp(4) 2 ds by simp
      note si = split_inside [OF bal1 [unfolded sp(1) ds] ok1s sp(3) kd 2(2) sp(1) [unfolded ds] oks(2) max sum al [unfolded Some]]
      show ?thesis
        by (rule lift) (use si 2 a False l m ds al Some in \<open>auto simp: skb_split_def Let_def\<close>)
    qed
  next
    case 3
    let ?s = "(set_chunks prev skb)\<lparr>data_num := data_num skb - length ds, data_total_len := len\<rparr>"
    have r: "r = Some (split_tail skb len ds)" "skb' = ?s" "h' = h1"
      using 3 a False l m sp(2) by (auto simp: skb_split_def)
    have "split_done M h1 skb len (Some (split_tail skb len ds)) ?s h1"
      unfolding split_done_def
      using bal1 ok1s 3 sp oks(2) sum max chain_bytes_split [OF ok1s, of 0 len] ds
      by (simp add: skb_ok_def chain_ok_def skb_bytes_def ac_simps)
    then show ?thesis unfolding r by (rule lift)
  qed
qed

section \<open>Growing\<close>

lemma skb_ok_slot:
  assumes "skb_ok h skb" "d_slot (data0 skb) \<noteq> None"
  shows "\<forall>d \<in> set (chunks skb). info_ok h d" "data_num skb = length (chunks skb)" "data_num skb \<le> SKB_DATA_MAX_NUM"
    "data_total_len skb = sum_list (map d_len (chunks skb))"
  using assms by (auto simp: skb_ok_def chain_ok_def chunks_def)

lemma expand_front:
  assumes "info_ok h d" "n \<le> d_start d"
  defines "d' \<equiv> d\<lparr>d_start := d_start d - n\<rparr>"
  shows "info_ok h d'" "d_len d' = n + d_len d" "\<exists>pre. length pre = n \<and> chunk_bytes h d' = pre @ chunk_bytes h d"
proof -
  obtain s where s: "d_slot d = Some s" "d_start d \<le> d_end d" "d_end d \<le> d_size d" "d_size d \<le> slot_size h s"
    using assms(1) by (auto simp: info_ok_def split: option.splits)
  have "[d_start d - n..<d_end d] = [d_start d - n..<d_start d] @ [d_start d..<d_end d]"
    using s(2) upt_add_eq_append [of "d_start d - n" "d_start d" "d_end d - d_start d"] by simp
  then have "chunk_bytes h d' = map (bytes_at h s) [d_start d - n..<d_start d] @ chunk_bytes h d"
    using s(1) by (simp add: chunk_bytes_def d'_def)
  moreover have "length (map (bytes_at h s) [d_start d - n..<d_start d]) = n" using assms(2) by simp
  ultimately show "\<exists>pre. length pre = n \<and> chunk_bytes h d' = pre @ chunk_bytes h d" by blast
  show "info_ok h d'" using s by (simp add: info_ok_def d'_def)
  show "d_len d' = n + d_len d" using s assms(2) by (simp add: d_len_def d'_def)
qed

lemma expand_back:
  assumes "info_ok h d" "d_end d + n \<le> d_size d"
  defines "d' \<equiv> d\<lparr>d_end := d_end d + n\<rparr>"
  shows "info_ok h d'" "d_len d' = d_len d + n"
    "d_slot d = Some s \<Longrightarrow> chunk_bytes h d' = chunk_bytes h d @ map (bytes_at h s) [d_end d..<d_end d + n]"
proof -
  obtain s where s: "d_slot d = Some s" "d_start d \<le> d_end d" "d_end d \<le> d_size d" "d_size d \<le> slot_size h s"
    using assms(1) by (auto simp: info_ok_def split: option.splits)
  show "info_ok h d'" using s assms(2) by (simp add: info_ok_def d'_def)
  show "d_len d' = d_len d + n" using s by (simp add: d_len_def d'_def)
  show "chunk_bytes h d' = chunk_bytes h d @ map (bytes_at h s) [d_end d..<d_end d + n]" if "d_slot d = Some s" for s
    using that by (simp add: chunk_bytes_def d'_def upt_add_eq_append [OF s(2)])
qed

lemma skb_data_push_spec:
  assumes bal: "balanced h (skb_slots skb + M)" and ok: "skb_ok h skb" and ne: "d_slot (data0 skb) \<noteq> None"
    and a: "skb_data_push skb n h = (r, skb', h')"
  shows "if r then \<exists>pre. length pre = n \<and> edited M h skb' (pre @ skb_bytes h skb) h' else edited M h skb' (skb_bytes h skb) h' \<and> skb' = skb"
    "keeps (skb_slots skb + M) h h'"
proof -
  note oks = skb_ok_slot [OF ok ne]
  have d0: "info_ok h (data0 skb)" using oks(1) by (simp add: chunks_def)
  let ?P = "(if r then \<exists>pre. length pre = n \<and> edited M h skb' (pre @ skb_bytes h skb) h'
     else edited M h skb' (skb_bytes h skb) h' \<and> skb' = skb) \<and> keeps (skb_slots skb + M) h h'"
  have ?P
  proof (cases "n \<le> d_start (data0 skb)")
    case True
    let ?d = "(data0 skb)\<lparr>d_start := d_start (data0 skb) - n\<rparr>"
    note ef = expand_front [OF d0 True]
    obtain pre where pre: "length pre = n" "chunk_bytes h ?d = pre @ chunk_bytes h (data0 skb)" using ef(3) by blast
    have r: "r" "h' = h" "skb' = skb\<lparr>data0 := ?d, data_total_len := data_total_len skb + n\<rparr>"
      using a True by (auto simp: skb_data_push_def skb_data_expand_def skb_pre_space_def)
    have "edited M h skb' (pre @ skb_bytes h skb) h"
      by (rule editedI [of _ "?d # nexts skb"])
         (use r oks ef pre bal in \<open>simp_all add: chunks_def chain_ok_def skb_bytes_def\<close>)
    then show ?thesis using r pre(1) by auto
  next
    case False
    then have ex: "skb_data_expand skb n True = (False, skb)" by (simp add: skb_data_expand_def skb_pre_space_def)
    obtain ok1 h1 where m: "malloc h = (ok1, h1)" by (cases "malloc h")
    note ms = malloc_frame [OF m]
    have bal1: "balanced h1 (skb_slots skb + M)" using bal ms(3) by simp
    obtain r1 h2 where f: "frame_slot_alloc n h1 = (r1, h2)" by (cases "frame_slot_alloc n h1")
    note fs = balanced_alloc [OF bal1 f]
    have k: "keeps (skb_slots skb + M) h h2" using ms(4) fs(1) by (rule keeps_trans)
    have kM: "keeps M h h2" using k by (rule keeps_mono) auto
    have ok2: "skb_ok h2 skb" "skb_bytes h2 skb = skb_bytes h skb" "skb_ok h1 skb" "skb_bytes h1 skb = skb_bytes h skb"
      using keeps_skb [OF k] keeps_skb [OF ms(4) [of "skb_slots skb + M"]] ok by auto
    consider "data_num skb \<ge> SKB_DATA_MAX_NUM" | "data_num skb < SKB_DATA_MAX_NUM" "\<not> ok1"
      | "data_num skb < SKB_DATA_MAX_NUM" "ok1" "r1 = None" | s where "data_num skb < SKB_DATA_MAX_NUM" "ok1" "r1 = Some s"
      by (cases r1) force+
    then show ?thesis
    proof cases
      case 1
      then show ?thesis using a ex edited_same [OF bal ok] by (auto simp: skb_data_push_def)
    next
      case 2
      then show ?thesis using a ex m bal1 ok2 ms(4) by (auto simp: skb_data_push_def edited_def)
    next
      case 3
      then show ?thesis using a ex m f fs(2) ok2 k kM by (auto simp: skb_data_push_def edited_def)
    next
      case 4
      let ?d = "\<lparr>d_slot = Some s, d_start = 0, d_end = n, d_size = slot_size h2 s\<rparr>"
      have r: "r" "h' = h2" "skb' = skb\<lparr>data0 := ?d, nexts := data0 skb # nexts skb, data_num := data_num skb + 1,
                              data_total_len := data_total_len skb + n\<rparr>"
        using a ex m f 4 by (auto simp: skb_data_push_def)
      have "edited M h skb' (map (bytes_at h2 s) [0..<n] @ skb_bytes h skb) h2"
      proof (rule editedI [of _ "?d # chunks skb"])
        show "chain_ok h2 (?d # chunks skb) (data_num skb')"
          using skb_ok_slot(1) [OF ok2(1) ne] oks(2) fs(4) 4 by (simp add: r chain_ok_def info_ok_def)
        show "chain_bytes h2 (?d # chunks skb) = map (bytes_at h2 s) [0..<n] @ skb_bytes h skb"
          using ok2(2) by (simp add: skb_bytes_def) (simp add: chunk_bytes_def)
        show "balanced h2 (info_slots (?d # chunks skb) + M)" using fs(2) 4 by (simp add: ac_simps)
      qed (use r oks 4 kM in \<open>simp_all add: chunks_def d_len_def\<close>)
      moreover have "length (map (bytes_at h2 s) [0..<n]) = n" by simp
      ultimately have "\<exists>pre. length pre = n \<and> edited M h skb' (pre @ skb_bytes h skb) h2" by blast
      then show ?thesis using r(1,2) k by simp
    qed
  qed
  then show "if r then \<exists>pre. length pre = n \<and> edited M h skb' (pre @ skb_bytes h skb) h' else edited M h skb' (skb_bytes h skb) h' \<and> skb' = skb"
    "keeps (skb_slots skb + M) h h'" by blast+
qed

lemma chunks_butlast_last: "chunks skb = butlast (chunks skb) @ [skb_end_data_info skb]"
  by (simp add: skb_end_data_info_def)

lemma skb_data_put_spec:
  assumes bal: "balanced h (skb_slots skb + M)" and ok: "skb_ok h skb" and ne: "d_slot (data0 skb) \<noteq> None"
    and s: "d_slot (skb_end_data_info skb) = Some s" and a: "skb_data_put skb n = (r, skb')"
  defines "di \<equiv> skb_end_data_info skb"
  shows "r = None \<Longrightarrow> skb' = skb" "r = None \<longleftrightarrow> skb_end_space skb < n"
    "r = Some e \<Longrightarrow> e = (Some s, d_end di) \<and> chunks skb' = butlast (chunks skb) @ [di\<lparr>d_end := d_end di + n\<rparr>] \<and>
       edited M h skb' (skb_bytes h skb @ map (bytes_at h s) [d_end di..<d_end di + n]) h \<and> skb_slots skb' = skb_slots skb \<and>
       d_end di + n \<le> d_size di \<and> data_num skb' = data_num skb \<and> d_slot (data0 skb') = d_slot (data0 skb)"
proof -
  note oks = skb_ok_slot [OF ok ne]
  let ?d = "di\<lparr>d_end := d_end di + n\<rparr>"
  have cs: "chunks skb = butlast (chunks skb) @ [di]" unfolding di_def by (rule chunks_butlast_last)
  have di: "info_ok h di" using oks(1) cs by (metis in_set_conv_decomp)
  have le: "d_end di \<le> d_size di" using di by (auto simp: info_ok_def split: option.splits)
  show "r = None \<Longrightarrow> skb' = skb" "r = None \<longleftrightarrow> skb_end_space skb < n"
    using a by (auto simp: skb_data_put_def skb_data_expand_def Let_def split: if_splits)
  assume "r = Some e"
  then have sp: "n \<le> skb_end_space skb" and e: "e = (Some s, d_end di)"
    and s': "skb' = (set_chunks (butlast (chunks skb) @ [?d]) skb)\<lparr>data_total_len := data_total_len skb + n\<rparr>"
    using a s by (auto simp: skb_data_put_def skb_data_expand_def Let_def di_def split: if_splits)
  have fit: "d_end di + n \<le> d_size di" using sp le by (simp add: skb_end_space_def di_def)
  note eb = expand_back [OF di fit]
  have cs': "chunks skb' = butlast (chunks skb) @ [?d]" by (simp add: s')
  have "edited M h skb' (skb_bytes h skb @ map (bytes_at h s) [d_end di..<d_end di + n]) h"
  proof (rule editedI [OF cs'])
    show "chain_ok h (butlast (chunks skb) @ [?d]) (data_num skb')"
      using oks(1,2) eb(1) by (auto simp: s' chain_ok_def dest: in_set_butlastD)
    have "chain_bytes h (chunks skb) = chain_bytes h (butlast (chunks skb)) @ chunk_bytes h di" by (subst cs) simp
    then show "chain_bytes h (butlast (chunks skb) @ [?d]) = skb_bytes h skb @ map (bytes_at h s) [d_end di..<d_end di + n]"
      using eb(3) s by (simp add: skb_bytes_def di_def)
    have "sum_list (map d_len (chunks skb)) = sum_list (map d_len (butlast (chunks skb))) + d_len di" by (subst cs) simp
    then show "data_total_len skb' = sum_list (map d_len (butlast (chunks skb) @ [?d]))" using oks(4) eb(2) by (simp add: s')
    have "info_slots (chunks skb) = info_slots (butlast (chunks skb) @ [?d])" by (subst cs) simp
    then show "balanced h (info_slots (butlast (chunks skb) @ [?d]) + M)" using bal by simp
  qed (simp_all add: s' oks(3))
  moreover have "skb_slots skb' = skb_slots skb" unfolding cs' by (subst (2) cs) simp
  moreover have "d_slot (data0 skb') = d_slot (data0 skb)"
    using cs by (cases "nexts skb") (auto simp: s' set_chunks_def chunks_def di_def skb_end_data_info_def)
  ultimately show "e = (Some s, d_end di) \<and> chunks skb' = butlast (chunks skb) @ [di\<lparr>d_end := d_end di + n\<rparr>] \<and>
       edited M h skb' (skb_bytes h skb @ map (bytes_at h s) [d_end di..<d_end di + n]) h \<and> skb_slots skb' = skb_slots skb \<and>
       d_end di + n \<le> d_size di \<and> data_num skb' = data_num skb \<and> d_slot (data0 skb') = d_slot (data0 skb)"
    using e cs' fit by (simp add: s')
qed

section \<open>Appending\<close>

definition keeps_size :: "slot multiset \<Rightarrow> frames \<Rightarrow> frames \<Rightarrow> bool" where
  "keeps_size M h h' \<longleftrightarrow> (\<forall>s \<in># M. slot_size h' s = slot_size h s)"

lemma keeps_size: "keeps M h h' \<Longrightarrow> keeps_size M h h'"
  by (simp add: keeps_def keeps_size_def)

lemma keeps_size_info:
  "keeps_size M h h' \<Longrightarrow> set_mset (info_slots cs) \<subseteq> set_mset M \<Longrightarrow> (\<forall>d \<in> set cs. info_ok h' d) = (\<forall>d \<in> set cs. info_ok h d)"
  by (induction cs) (auto simp: keeps_size_def info_ok_def split: option.splits)

lemma keeps_size_skb: "keeps_size M h h' \<Longrightarrow> set_mset (skb_slots skb) \<subseteq> set_mset M \<Longrightarrow> skb_ok h' skb = skb_ok h skb"
  using keeps_size_info [of M h h' "chunks skb"] by (simp add: skb_ok_def chain_ok_def)

lemma skb_ok_frame: "slot_size h' = slot_size h \<Longrightarrow> skb_ok h' skb = skb_ok h skb"
  using chain_ok_frame [of h' h] by (simp add: skb_ok_def)

lemma store_bytes_Nil [simp]: "store_bytes so off [] h = h"
  by (cases so) (auto simp: store_bytes_def fun_eq_iff intro!: frames.equality)

lemma store_read: "n = length bs \<Longrightarrow> map (bytes_at (store_bytes (Some s) off bs h) s) [off..<off + n] = bs"
  by (auto simp: store_bytes_def intro!: nth_equalityI)

lemma store_beyond: "chunk_bytes (store_bytes (d_slot d) (d_end d) bs h) d = chunk_bytes h d"
  by (cases "d_slot d") (auto simp: chunk_bytes_def store_bytes_def)

lemma append_loop_spec:
  assumes "balanced h (info_slots new + N)" "\<forall>d \<in> set new. info_ok h d" "pre + cap \<le> seg" "cap \<noteq> 0 \<or> src = []"
    "append_loop pre seg cap src new h = (ok, new', h')"
  shows "balanced h' (info_slots new' + N) \<and> keeps (info_slots new + N) h h' \<and>
    (ok \<longrightarrow> chain_bytes h' new' = chain_bytes h new @ src \<and> (\<forall>d \<in> set new'. info_ok h' d) \<and>
            (\<forall>k. length src \<le> cap * k \<longrightarrow> length new' \<le> length new + k))"
  using assms
proof (induction pre seg cap src new h rule: append_loop.induct)
  case (1 pre seg cap src new h)
  show ?case
  proof (cases "src = []")
    case True
    then show ?thesis using 1(2,3,6) by (simp add: append_loop.simps [of pre seg cap])
  next
    case False
    with 1(5) have cap: "cap \<noteq> 0" by simp
    then have go: "\<not> (src = [] \<or> cap = 0)" using False by simp
    obtain r h1 where al: "alloc_data_info seg h = (r, h1)" by (cases "alloc_data_info seg h")
    note as = alloc_data_info_spec [OF 1(2) al]
    show ?thesis
    proof (cases r)
      case None
      then have "ok = False" "new' = new" "h' = h1" using 1(6) go al by (auto simp: append_loop.simps [of pre seg cap src])
      then show ?thesis using as None by simp
    next
      case (Some di0)
      define ch where "ch = min (length src) cap"
      define di where "di = di0\<lparr>d_start := pre, d_end := pre + ch\<rparr>"
      define h2 where "h2 = store_bytes (d_slot di) pre (take ch src) h1"
      from as(3) [OF Some] obtain s where s: "d_slot di0 = Some s" "s \<notin># info_slots new + N"
        "balanced h1 (add_mset s (info_slots new + N))" "d_size di0 \<le> slot_size h1 s" "seg \<le> d_size di0" by blast
      have slot: "d_slot di = Some s" and e: "d_end di = d_start di + length (take ch src)"
        and fit: "d_end di \<le> d_size di" "d_size di \<le> slot_size h1 s"
        using s 1(4) by (auto simp: di_def ch_def)
      have st: "store_bytes (d_slot di) (d_start di) (take ch src) h1 = h2" by (simp add: h2_def di_def)
      note ff = fill_fresh [OF s(3,2) slot e fit, unfolded st]
      have keep: "keeps (info_slots new + N) h h2" using as(1) ff(1) by (rule keeps_trans)
      have bal: "balanced h2 (info_slots (new @ [di]) + N)" using ff(2) by (simp add: ac_simps)
      have new: "chain_bytes h2 new = chain_bytes h new" "\<forall>d \<in> set (new @ [di]). info_ok h2 d"
        using keeps_chain [OF keep, of new] 1(3) ff(3) by auto
      have eq: "append_loop pre seg cap (drop ch src) (new @ [di]) h2 = (ok, new', h')"
        using 1(6) go al Some
        by (simp add: append_loop.simps [of pre seg cap src] Let_def ch_def [symmetric] di_def [symmetric] h2_def [symmetric])
           (simp add: di_def h2_def ch_def)
      have "cap \<noteq> 0 \<or> drop ch src = []" using cap by simp
      from 1(1) [OF go al [symmetric] Some ch_def di_def bal [unfolded h2_def] new(2) [unfolded h2_def] 1(4) this eq [unfolded h2_def]]
      have IH: "balanced h' (info_slots new' + N)" "keeps (info_slots (new @ [di]) + N) h2 h'"
        "ok \<Longrightarrow> chain_bytes h' new' = chain_bytes h2 (new @ [di]) @ drop ch src" "ok \<Longrightarrow> \<forall>d \<in> set new'. info_ok h' d"
        "\<And>k. ok \<Longrightarrow> length (drop ch src) \<le> cap * k \<Longrightarrow> length new' \<le> length (new @ [di]) + k"
        by (auto simp: h2_def)
      have "keeps (info_slots new + N) h2 h'" using IH(2) by (rule keeps_mono) auto
      with keep have kk: "keeps (info_slots new + N) h h'" by (rule keeps_trans)
      have bytes: "chain_bytes h' new' = chain_bytes h new @ src" if ok using IH(3) [OF that] new(1) ff(4) by simp
      have count: "length new' \<le> length new + k" if ok "length src \<le> cap * k" for k
      proof (cases k)
        case 0
        then show ?thesis using that(2) False by simp
      next
        case (Suc j)
        then have "length (drop ch src) \<le> cap * j" using that(2) by (auto simp: ch_def min_def)
        from IH(5) [OF that(1) this] show ?thesis using Suc by simp
      qed
      show ?thesis using IH(1,4) kk bytes count by blast
    qed
  qed
qed

lemma skb_data_append_unfold:
  fixes skb :: skbuff
  defines "use \<equiv> \<lambda>buf. min (length buf) (skb_end_space skb)" and "di \<equiv> skb_end_data_info skb"
  shows "skb_data_append skb buf pre seg h =
     (let capacity = (seg + 2 ^ 32 - pre) mod 2 ^ 32
      in if skb_end_space skb + capacity * (SKB_DATA_MAX_NUM - data_num skb) < length buf then (False, skb, h)
         else let h0 = store_bytes (d_slot di) (d_end di) (take (use buf) buf) h;
                  skb1 = snd (skb_data_put skb (use buf))
              in case append_loop pre seg capacity (drop (use buf) buf) [] h0 of
                   (ok, new, h) \<Rightarrow>
                     if ok then (True, (set_chunks (chunks skb1 @ new) skb1)
                                         \<lparr>data_num := data_num skb1 + length new,
                                          data_total_len := data_total_len skb1 + sum_list (map d_len new)\<rparr>, h)
                     else (False, skb, fold free_data_info new h))"
proof -
  have nop: "snd (skb_data_put skb 0) = skb"
  proof -
    have "butlast (chunks skb) @ [di] = chunks skb" unfolding di_def by (simp add: skb_end_data_info_def)
    then show ?thesis
      by (simp add: skb_data_put_def skb_data_expand_def Let_def di_def [symmetric]) (simp add: set_chunks_def chunks_def)
  qed
  show ?thesis
    unfolding skb_data_append_def use_def di_def [symmetric]
    by (cases "skb_end_space skb = 0") (simp_all add: nop Let_def)
qed

text \<open>The last window of a packet is private when no other window shows the same slot.\<close>

definition tail_private :: "skbuff \<Rightarrow> slot multiset \<Rightarrow> bool" where
  "tail_private skb M \<longleftrightarrow>
     (\<forall>s. d_slot (skb_end_data_info skb) = Some s \<longrightarrow> s \<notin># info_slots (butlast (chunks skb)) + M)"

lemma tail_store:
  assumes bal: "balanced h (skb_slots skb + M)" and ok: "skb_ok h skb" and ne: "d_slot (data0 skb) \<noteq> None"
    and s: "d_slot (skb_end_data_info skb) = Some s" and put: "skb_data_put skb (length bs) = (Some e, skb1)"
  defines "h0 \<equiv> store_bytes (Some s) (d_end (skb_end_data_info skb)) bs h"
  shows "balanced h0 (skb_slots skb1 + M)" "skb_ok h0 skb1" "skb_ok h0 skb"
    "tail_private skb M \<Longrightarrow> keeps M h h0 \<and> skb_bytes h0 skb1 = skb_bytes h skb @ bs \<and> skb_bytes h0 skb = skb_bytes h skb"
proof -
  let ?di = "skb_end_data_info skb"
  note ps = skb_data_put_spec(3) [OF bal ok ne s put refl]
  have ed: "balanced h (skb_slots skb1 + M)" "skb_ok h skb1" using ps unfolding edited_def by blast+
  show "balanced h0 (skb_slots skb1 + M)" using ed by (simp only: h0_def store_bytes_frame)
  have sz: "slot_size h0 = slot_size h" by (simp add: h0_def)
  show "skb_ok h0 skb1" "skb_ok h0 skb" using ed ok skb_ok_frame [OF sz] by simp_all
  assume priv: "tail_private skb M"
  have keep: "keeps (info_slots (butlast (chunks skb)) + M) h h0"
    unfolding h0_def by (rule keeps_store) (use priv s in \<open>auto simp: tail_private_def\<close>)
  have kM: "keeps M h h0" using keep by (rule keeps_mono) auto
  have cs: "chunks skb = butlast (chunks skb) @ [?di]" by (rule chunks_butlast_last)
  have but: "chain_bytes h0 (butlast (chunks skb)) = chain_bytes h (butlast (chunks skb))"
    by (rule keeps_chain [OF keep]) auto
  have di: "info_ok h ?di" using skb_ok_slot(1) [OF ok ne] cs by (metis in_set_conv_decomp)
  have fit: "d_end ?di + length bs \<le> d_size ?di" using ps by simp
  have old: "chunk_bytes h0 ?di = chunk_bytes h ?di" using store_beyond [of ?di bs h] s by (simp add: h0_def)
  have "chunk_bytes h0 (?di\<lparr>d_end := d_end ?di + length bs\<rparr>) = chunk_bytes h ?di @ bs"
    using expand_back(3) [of h0 ?di "length bs" s] di fit s old info_ok_frame [OF sz] store_read [OF refl]
    by (simp add: h0_def)
  moreover have flat: "skb_bytes g skb = chain_bytes g (butlast (chunks skb)) @ chunk_bytes g ?di" for g
    unfolding skb_bytes_def by (subst cs) simp
  moreover have "chunks skb1 = butlast (chunks skb) @ [?di\<lparr>d_end := d_end ?di + length bs\<rparr>]" using ps by blast
  ultimately have "skb_bytes h0 skb1 = skb_bytes h skb @ bs" by (simp add: skb_bytes_def [of _ skb1] but)
  moreover have "skb_bytes h0 skb = skb_bytes h skb" by (simp add: flat but old)
  ultimately show "keeps M h h0 \<and> skb_bytes h0 skb1 = skb_bytes h skb @ bs \<and> skb_bytes h0 skb = skb_bytes h skb" using kM by simp
qed

lemma skb_data_append_spec:
  assumes bal: "balanced h (skb_slots skb + M)" and ok: "skb_ok h skb" and ne: "d_slot (data0 skb) \<noteq> None"
    and seg: "pre \<le> seg" "seg < 2 ^ 32" and a: "skb_data_append skb buf pre seg h = (r, skb', h')"
  shows "balanced h' (skb_slots skb' + M) \<and> skb_ok h' skb' \<and> keeps_size M h h'"
    "tail_private skb M \<Longrightarrow> edited M h skb' (skb_bytes h skb @ (if r then buf else [])) h'"
proof -
  let ?di = "skb_end_data_info skb"
  define n where "n = min (length buf) (skb_end_space skb)"
  define cap where "cap = seg - pre"
  note oks = skb_ok_slot [OF ok ne]
  have capm: "(seg + 2 ^ 32 - pre) mod 2 ^ 32 = cap"
  proof -
    have "seg + 2 ^ 32 - pre = cap + 2 ^ 32" using seg by (simp add: cap_def)
    moreover have "cap < 2 ^ 32" using seg by (simp add: cap_def)
    ultimately show ?thesis by (simp only: mod_add_self2 mod_less)
  qed
  have "info_ok h ?di" using oks(1) by (simp add: skb_end_data_info_def)
  then obtain s where s: "d_slot ?di = Some s" by (auto simp: info_ok_def split: option.splits)
  obtain p skb1 where p: "skb_data_put skb n = (p, skb1)" by (cases "skb_data_put skb n")
  have "p \<noteq> None" using skb_data_put_spec(2) [OF bal ok ne s p] by (simp add: n_def)
  then obtain e where "p = Some e" by blast
  moreover have "length (take n buf) = n" by (simp add: n_def)
  ultimately have e: "skb_data_put skb (length (take n buf)) = (Some e, skb1)" using p by simp
  define h0 where "h0 = store_bytes (Some s) (d_end ?di) (take n buf) h"
  note ts = tail_store [OF bal ok ne s e, folded h0_def]
  note ps = skb_data_put_spec(3) [OF bal ok ne s e refl]
  have sz0: "slot_size h0 = slot_size h" by (simp add: h0_def)
  obtain ok1 new h2 where l: "append_loop pre seg cap (drop n buf) [] h0 = (ok1, new, h2)" by (rule prod_cases3)
  have all: "(balanced h' (skb_slots skb' + M) \<and> skb_ok h' skb' \<and> keeps_size M h h') \<and>
    (tail_private skb M \<longrightarrow> edited M h skb' (skb_bytes h skb @ (if r then buf else [])) h')"
  proof (cases "skb_end_space skb + cap * (SKB_DATA_MAX_NUM - data_num skb) < length buf")
    case True
    then have "r = False" "skb' = skb" "h' = h" using a capm by (auto simp: skb_data_append_unfold)
    then show ?thesis using bal ok by (simp add: edited_def keeps_size_def)
  next
    case False
    have room: "length (drop n buf) \<le> cap * (SKB_DATA_MAX_NUM - data_num skb)" using False by (auto simp: n_def)
    have capne: "cap \<noteq> 0 \<or> drop n buf = []" using room by (cases "cap = 0") simp_all
    have precap: "pre + cap \<le> seg" using seg by (simp add: cap_def)
    let ?N = "skb_slots skb1 + M"
    have "balanced h0 (info_slots [] + ?N)" using ts(1) by simp
    from append_loop_spec [OF this _ precap capne l]
    have ls: "balanced h2 (info_slots new + ?N)" "keeps ?N h0 h2"
      "ok1 \<Longrightarrow> chain_bytes h2 new = drop n buf" "ok1 \<Longrightarrow> \<forall>d \<in> set new. info_ok h2 d"
      "ok1 \<Longrightarrow> length new \<le> SKB_DATA_MAX_NUM - data_num skb"
      using room by auto
    have kM: "keeps M h0 h2" using ls(2) by (rule keeps_mono) auto
    have kS: "keeps_size M h h2" using keeps_size [OF kM] sz0 by (simp add: keeps_size_def)
    have ok2: "skb_ok h2 skb1" "skb_bytes h2 skb1 = skb_bytes h0 skb1" using keeps_skb [OF ls(2), of skb1] ts(2) by auto
    have slots: "skb_slots skb1 = skb_slots skb" using ps by blast
    have ok2': "skb_ok h2 skb" "skb_bytes h2 skb = skb_bytes h0 skb"
      using keeps_skb [OF ls(2), of skb] ts(3) slots by auto
    show ?thesis
    proof (cases ok1)
      case True
      let ?s = "(set_chunks (chunks skb1 @ new) skb1)\<lparr>data_num := data_num skb1 + length new,
                   data_total_len := data_total_len skb1 + sum_list (map d_len new)\<rparr>"
      have r: "r = True" "skb' = ?s" "h' = h2"
        using a capm False l s p True
        by (auto simp: skb_data_append_unfold Let_def n_def [symmetric] h0_def [symmetric])
      have ne1: "d_slot (data0 skb1) \<noteq> None" "data_num skb1 = data_num skb" using ps ne by auto
      note oks1 = skb_ok_slot [OF ok2(1) ne1(1)]
      have cs: "chunks ?s = chunks skb1 @ new" by simp
      have "skb_ok h2 ?s"
        unfolding skb_ok_def cs using oks1 ls(4,5) True ne1(2) oks(3) by (auto simp: chain_ok_def)
      moreover have "balanced h2 (skb_slots ?s + M)" unfolding cs using ls(1) by (simp add: ac_simps)
      moreover have "edited M h ?s (skb_bytes h skb @ buf) h2" if "tail_private skb M"
      proof (rule editedI [OF cs])
        show "chain_bytes h2 (chunks skb1 @ new) = skb_bytes h skb @ buf"
          using ls(3) True ts(4) [OF that] ok2(2) by (simp add: skb_bytes_def)
        show "keeps M h h2" using ts(4) [OF that] kM keeps_trans by blast
      qed (use \<open>skb_ok h2 ?s\<close> \<open>balanced h2 (skb_slots ?s + M)\<close> cs in \<open>simp_all add: skb_ok_def\<close>)
      ultimately show ?thesis using r kS by simp
    next
      case False': False
      let ?h = "fold free_data_info new h2"
      have r: "r = False" "skb' = skb" "h' = ?h"
        using a capm False l s p False'
        by (auto simp: skb_data_append_unfold Let_def n_def [symmetric] h0_def [symmetric])
      have bal': "balanced ?h (skb_slots skb + M)" using ls(1) slots by (intro balanced_free) simp
      have same: "skb_ok ?h skb" "skb_bytes ?h skb = skb_bytes h0 skb"
        using ok2' skb_ok_frame [of ?h h2] chain_bytes_frame [of ?h h2] by (simp_all add: skb_bytes_def)
      have "keeps_size M h ?h" using kS by (simp add: keeps_size_def)
      moreover have "keeps M h ?h" if "tail_private skb M"
      proof -
        have "keeps M h h2" using ts(4) [OF that] kM keeps_trans by blast
        then show ?thesis by (simp add: keeps_def)
      qed
      ultimately show ?thesis using r bal' same ts(4) by (simp add: edited_def)
    qed
  qed
  then show "balanced h' (skb_slots skb' + M) \<and> skb_ok h' skb' \<and> keeps_size M h h'"
    "tail_private skb M \<Longrightarrow> edited M h skb' (skb_bytes h skb @ (if r then buf else [])) h'" by blast+
qed

end
