(* ===== verification/PacketSystem.thy ===== *)
theory PacketSystem
  imports Packets
begin

text \<open>
  Packets as a system: joining two packets, reading and checksumming a chain of windows as one buffer, and
  the invariant of any number of packets that share frame slots through clones, splits and copies.
\<close>

declare split_paired_All [simp del] split_paired_Ex [simp del]

section \<open>Joining\<close>

lemma join_loop_frame [simp]:
  "slot_size (join_loop so dst n cs h) = slot_size h" "balanced (join_loop so dst n cs h) M = balanced h M"
  by (induction so dst n cs h rule: join_loop.induct) simp_all

lemma store_store:
  "store_bytes so (off + length bs) cs (store_bytes so off bs h) = store_bytes so off (bs @ cs) h"
proof (cases so)
  case (Some s)
  show ?thesis
    unfolding Some store_bytes_def option.case
    by (rule frames.equality) (auto simp: fun_eq_iff nth_append)
qed (simp add: store_bytes_def)

lemma join_loop_store:
  assumes "so = Some s" "s \<notin># info_slots cs" "n = sum_list (map d_len cs)" "\<forall>d \<in> set cs. info_ok h d \<or> d = info_zero"
  shows "join_loop so dst n cs h = store_bytes so dst (chain_bytes h cs) h"
  using assms
proof (induction so dst n cs h rule: join_loop.induct)
  case (2 so dst n d ds h)
  have len: "length (chunk_bytes h d) = d_len d" using 2(5) by (simp add: length_chunk_bytes)
  show ?case
  proof (cases "n = 0")
    case True
    then have z: "d_len d = 0" "sum_list (map d_len ds) = 0" using 2(4) by simp_all
    have "chain_bytes h ds = []" using length_chain_bytes_all [of ds h] z(2) 2(5) by simp
    then show ?thesis using True z(1) len by simp
  next
    case False
    let ?h = "store_bytes so dst (chunk_bytes h d) h"
    have "keeps (info_slots ds) h ?h" by (rule keeps_store) (use 2(2,3) in auto)
    from keeps_chain(1) [OF this subset_refl] have same: "chain_bytes ?h ds = chain_bytes h ds" .
    have ok: "\<forall>d \<in> set ds. info_ok ?h d \<or> d = info_zero" using 2(5) info_ok_frame [of ?h h] by simp
    have "join_loop so (dst + d_len d) (n - d_len d) ds ?h = store_bytes so (dst + d_len d) (chain_bytes ?h ds) ?h"
      using 2(1) [OF False 2(2) _ _ ok] 2(3,4) by simp
    then show ?thesis using False store_store [of so dst "chunk_bytes h d" "chain_bytes h ds" h] len same by simp
  qed
qed simp

lemma skb_append_skb_spec:
  assumes bal: "balanced h (skb_slots a + (skb_slots b + M))" and ok: "skb_ok h a" "skb_ok h b"
    and ne: "d_slot (data0 a) \<noteq> None" "\<not> copy \<Longrightarrow> d_slot (data0 b) \<noteq> None"
    and r: "skb_append_skb a b copy h = (r, a', h')"
  shows "\<not> r \<Longrightarrow> a' = a \<and> balanced h' (skb_slots a + (skb_slots b + M)) \<and> bytes_at h' = bytes_at h \<and> slot_size h' = slot_size h"
    "r \<Longrightarrow> balanced h' (skb_slots a' + M) \<and> skb_ok h' a' \<and> keeps_size M h h'"
    "r \<Longrightarrow> copy \<longrightarrow> tail_private a (skb_slots b + M) \<Longrightarrow> edited M h a' (skb_bytes h a @ skb_bytes h b) h'"
proof -
  let ?N = "skb_slots b + M"
  let ?P = "(\<not> r \<longrightarrow> a' = a \<and> balanced h' (skb_slots a + ?N) \<and> bytes_at h' = bytes_at h \<and> slot_size h' = slot_size h) \<and>
    (r \<longrightarrow> balanced h' (skb_slots a' + M) \<and> skb_ok h' a' \<and> keeps_size M h h') \<and>
    (r \<longrightarrow> (copy \<longrightarrow> tail_private a ?N) \<longrightarrow> edited M h a' (skb_bytes h a @ skb_bytes h b) h')"
  note oka = skb_ok_slot [OF ok(1) ne(1)]
  have ?P
  proof (cases copy)
    case True
    have "info_ok h (skb_end_data_info a)" using oka(1) by (simp add: skb_end_data_info_def)
    then obtain s where s: "d_slot (skb_end_data_info a) = Some s" by (auto simp: info_ok_def split: option.splits)
    obtain p a1 where p: "skb_data_put a (data_total_len b) = (p, a1)" by (cases "skb_data_put a (data_total_len b)")
    show ?thesis
    proof (cases p)
      case None
      then have "r = False" "a' = a1" "h' = h" "a1 = a"
        using r True p skb_data_put_spec(1) [OF bal ok(1) ne(1) s p] by (auto simp: skb_append_skb_def)
      then show ?thesis using bal by simp
    next
      case (Some e)
      have blen: "data_total_len b = length (skb_bytes h b)" using length_skb_bytes [OF ok(2)] by simp
      have e: "e = (Some s, d_end (skb_end_data_info a))"
        using skb_data_put_spec(3) [OF bal ok(1) ne(1) s p Some] by simp
      note ts = tail_store [OF bal ok(1) ne(1) s, of "skb_bytes h b" e a1]
      have put: "skb_data_put a (length (skb_bytes h b)) = (Some e, a1)" using p Some blen by simp
      let ?j = "join_loop (Some s) (d_end (skb_end_data_info a)) (data_total_len b) (chunks b) h"
      have res: "r = True" "a' = a1" "h' = skb_destroy b ?j" using r True p Some e by (auto simp: skb_append_skb_def)
      have ed: "edited ?N h a1 (skb_bytes h a @ map (bytes_at h s) [d_end (skb_end_data_info a)..<d_end (skb_end_data_info a) + data_total_len b]) h"
        using skb_data_put_spec(3) [OF bal ok(1) ne(1) s p Some] by blast
      then have "balanced ?j (skb_slots b + (skb_slots a1 + M))" by (simp add: edited_def ac_simps)
      note ds = skb_destroy_spec [OF this]
      have sz: "slot_size h' = slot_size h" using ds(3) by (simp add: res)
      have a1: "balanced h' (skb_slots a1 + M)" "skb_ok h' a1" "keeps_size M h h'"
        using ds ed skb_ok_frame [OF sz] sz by (simp_all add: res edited_def keeps_size_def)
      have "edited M h a1 (skb_bytes h a @ skb_bytes h b) h'" if priv: "tail_private a ?N"
      proof -
        have notb: "s \<notin># skb_slots b" using priv s by (auto simp: tail_private_def)
        have okb: "\<forall>d \<in> set (chunks b). info_ok h d \<or> d = info_zero" "data_total_len b = sum_list (map d_len (chunks b))"
          using ok(2) by (auto simp: skb_ok_def chain_ok_def)
        have j: "?j = store_bytes (Some s) (d_end (skb_end_data_info a)) (skb_bytes h b) h"
          using join_loop_store [OF refl notb okb(2,1)] by (simp add: skb_bytes_def)
        note t4 = ts(4) [OF put priv]
        have "bytes_at h' = bytes_at ?j" using ds(2) by (simp add: res)
        then have "skb_bytes h' a1 = skb_bytes ?j a1" unfolding skb_bytes_def by (rule chain_bytes_frame)
        moreover have "keeps M h h'" using t4 ds(2,3) by (auto simp: res keeps_def j)
        ultimately show ?thesis using a1 t4 by (simp add: edited_def j)
      qed
      then show ?thesis using res(1,2) a1 True by simp
    qed
  next
    case False
    obtain okm h1 where m: "malloc h = (okm, h1)" by (cases "malloc h")
    note ms = malloc_frame [OF m]
    note okb = skb_ok_slot [OF ok(2) ne(2) [OF False]]
    show ?thesis
    proof (cases "data_num a + data_num b > SKB_DATA_MAX_NUM \<or> \<not> okm")
      case True
      then have "r = False" "a' = a" "h' = h \<or> h' = h1" using r False m by (auto simp: skb_append_skb_def split: if_splits)
      then show ?thesis using bal ms by auto
    next
      case go: False
      let ?a = "(set_chunks (chunks a @ chunks b) a)\<lparr>data_num := data_num a + data_num b,
                  data_total_len := data_total_len a + data_total_len b\<rparr>"
      have res: "r = True" "a' = ?a" "h' = h1"
        using r False m go by (auto simp: skb_append_skb_def skb_destroy_def put_slot_def)
      have iok: "info_ok h1 d = info_ok h d" for d by (rule info_ok_frame [OF ms(2)])
      have "edited M h ?a (skb_bytes h a @ skb_bytes h b) h1"
      proof (rule editedI [of _ "chunks a @ chunks b"])
        show "chain_ok h1 (chunks a @ chunks b) (data_num ?a)"
          using oka okb by (auto simp: chain_ok_def iok)
        show "chain_bytes h1 (chunks a @ chunks b) = skb_bytes h a @ skb_bytes h b"
          using chain_bytes_frame [OF ms(1)] by (simp add: skb_bytes_def)
        show "balanced h1 (info_slots (chunks a @ chunks b) + M)" using bal ms(3) by (simp add: ac_simps)
      qed (use go oka okb ms(4) in simp_all)
      then show ?thesis using res keeps_size [OF ms(4)] by (simp add: edited_def)
    qed
  qed
  then show "\<not> r \<Longrightarrow> a' = a \<and> balanced h' (skb_slots a + (skb_slots b + M)) \<and> bytes_at h' = bytes_at h \<and> slot_size h' = slot_size h"
    "r \<Longrightarrow> balanced h' (skb_slots a' + M) \<and> skb_ok h' a' \<and> keeps_size M h h'"
    "r \<Longrightarrow> copy \<longrightarrow> tail_private a (skb_slots b + M) \<Longrightarrow> edited M h a' (skb_bytes h a @ skb_bytes h b) h'" by blast+
qed

section \<open>Reading a chain as one buffer\<close>

lemma copy_loop_zero [simp]: "copy_loop h off pos 0 ds = (0, [])"
  by (cases ds) simp_all

lemma copy_loop_aligned:
  assumes "\<forall>d \<in> set ds. length (chunk_bytes h d) = d_len d"
  shows "copy_loop h pos pos len ds = (len - length (chain_bytes h ds), take len (chain_bytes h ds))"
  using assms
proof (induction ds arbitrary: pos len)
  case (Cons d ds)
  have len: "length (chunk_bytes h d) = d_len d" using Cons.prems by simp
  show ?case
  proof (cases "d_len d < len")
    case True
    then show ?thesis using Cons len by (simp add: Let_def)
  next
    case False
    then show ?thesis using len by (auto simp: Let_def)
  qed
qed simp

lemma copy_loop_first:
  assumes "\<forall>x \<in> set (d # ds). length (chunk_bytes h x) = d_len x" "pos \<le> off" "off < pos + d_len d"
  shows "copy_loop h off pos len (d # ds) =
    (len - (length (chain_bytes h (d # ds)) - (off - pos)), take len (drop (off - pos) (chain_bytes h (d # ds))))"
proof -
  have len: "length (chunk_bytes h d) = d_len d" and ds: "\<forall>x \<in> set ds. length (chunk_bytes h x) = d_len x"
    using assms(1) by simp_all
  define inn where "inn = off - pos"
  have inn: "inn < d_len d" "(if off > pos then off - pos else 0) = inn" using assms(2,3) by (auto simp: inn_def)
  define n where "n = (if d_len d - inn < len then d_len d - inn else len)"
  have unf: "copy_loop h off pos len (d # ds) = (if len = 0 then (0, []) else
      case copy_loop h (off + n) (pos + d_len d) (len - n) ds of (left, bs) \<Rightarrow> (left, take n (drop inn (chunk_bytes h d)) @ bs))"
    by (simp only: copy_loop.simps Let_def inn(2) n_def)
  show ?thesis
  proof (cases "d_len d - inn < len")
    case True
    then have n: "n = d_len d - inn" "len \<noteq> 0" by (auto simp: n_def)
    have al: "off + n = pos + d_len d" using inn(1) assms(2) by (simp add: n inn_def)
    show ?thesis
      unfolding unf al copy_loop_aligned [OF ds] inn_def [symmetric] using True n len inn(1) by simp
  next
    case False
    then have n: "n = len" by (simp add: n_def)
    show ?thesis unfolding unf n inn_def [symmetric] using False len inn(1) by simp
  qed
qed

lemma skip_loop_spec:
  assumes "\<forall>x \<in> set ds. length (chunk_bytes h x) = d_len x" "pos \<le> off"
  shows "case skip_loop off pos ds of (q, rest) \<Rightarrow> pos \<le> q \<and> q \<le> off \<and> chain_bytes h rest = drop (q - pos) (chain_bytes h ds) \<and>
    (\<forall>x \<in> set rest. length (chunk_bytes h x) = d_len x) \<and>
    (rest = [] \<longrightarrow> length (chain_bytes h ds) \<le> off - pos) \<and> (rest \<noteq> [] \<longrightarrow> off < q + d_len (hd rest))"
  using assms
proof (induction off pos ds rule: skip_loop.induct)
  case (2 off pos d ds)
  have len: "length (chunk_bytes h d) = d_len d" using 2(2) by simp
  show ?case
  proof (cases "off < pos + d_len d")
    case True
    then show ?thesis using 2(2,3) by simp
  next
    case False
    have pre: "\<forall>x \<in> set ds. length (chunk_bytes h x) = d_len x" "pos + d_len d \<le> off" using 2(2) False by auto
    show ?thesis using 2(1) [OF False pre] False len by (auto split: prod.splits)
  qed
qed simp

lemma skb_copy_bits_flat:
  assumes ok: "skb_ok h skb" and lt: "data_total_len skb < 2 ^ 32" "off < 2 ^ 32"
  shows "skb_copy_bits h skb off len =
    (if len = 0 \<or> off + len \<le> data_total_len skb then Some (take len (drop off (skb_bytes h skb))) else None)"
proof -
  let ?B = "skb_bytes h skb" and ?T = "data_total_len skb"
  have T: "length ?B = ?T" by (rule length_skb_bytes [OF ok])
  have lens: "\<forall>d \<in> set (chunks skb). length (chunk_bytes h d) = d_len d"
    using ok by (auto simp: skb_ok_def chain_ok_def length_chunk_bytes)
  obtain q rest where sk: "skip_loop off 0 (chunks skb) = (q, rest)" by (cases "skip_loop off 0 (chunks skb)")
  note sp = skip_loop_spec [OF lens, of 0 off, unfolded sk prod.case]
  have sp': "q \<le> off" "chain_bytes h rest = drop q ?B" "\<forall>x \<in> set rest. length (chunk_bytes h x) = d_len x"
    "rest = [] \<Longrightarrow> ?T \<le> off" "rest \<noteq> [] \<Longrightarrow> off < q + d_len (hd rest)"
    using sp T by (auto simp: skb_bytes_def)
  have loop: "copy_loop h off q len rest = (len - (?T - off), take len (drop off ?B))"
  proof (cases rest)
    case Nil
    then show ?thesis using sp'(4) T by simp
  next
    case (Cons d ds)
    have "copy_loop h off q len (d # ds) =
      (len - (length (chain_bytes h (d # ds)) - (off - q)), take len (drop (off - q) (chain_bytes h (d # ds))))"
      by (rule copy_loop_first) (use sp' Cons in simp_all)
    moreover have eq: "chain_bytes h (d # ds) = drop q ?B" using sp'(2) Cons by simp
    ultimately show ?thesis unfolding Cons eq using sp'(1) T by (simp only: drop_drop length_drop) simp
  qed
  have wrap: "(?T + 2 ^ 32 - off) mod 2 ^ 32 = (if off \<le> ?T then ?T - off else ?T + 2 ^ 32 - off)"
  proof (cases "off \<le> ?T")
    case True
    then have "?T + 2 ^ 32 - off = (?T - off) + 2 ^ 32" "?T - off < 2 ^ 32" using lt by simp_all
    then show ?thesis using True by (simp only: mod_add_self2 mod_less if_True)
  next
    case False
    then have "?T + 2 ^ 32 - off < 2 ^ 32" using lt by linarith
    then show ?thesis using False by (simp only: mod_less if_False)
  qed
  show ?thesis unfolding skb_copy_bits_def wrap sk prod.case loop by auto
qed

section \<open>The checksum of a chain\<close>

definition opt_list :: "'a option \<Rightarrow> 'a list" where
  "opt_list x = (case x of None \<Rightarrow> [] | Some a \<Rightarrow> [a])"

lemma opt_list_simps [simp]: "opt_list None = []" "opt_list (Some a) = [a]"
  by (simp_all add: opt_list_def)

text \<open>Adding the even part of a chunk and keeping its last odd byte.\<close>

lemma checksum_even_part:
  fixes data :: "u8 list"
  defines "ev \<equiv> length data - length data mod 2"
  shows "checksum_partial (opt_list (if drop ev data \<noteq> [] then Some (hd (drop ev data)) else None) @ bs)
           (if ev \<noteq> 0 then checksum_partial (take ev data) acc else acc) = checksum_partial (data @ bs) acc"
    "(if drop ev data \<noteq> [] then n - ev - 1 else n - ev) = n - length data"
proof -
  have ev: "even (length (take ev data))" by (simp add: ev_def minus_mod_eq_mult_div)
  have rest: "drop ev data = opt_list (if drop ev data \<noteq> [] then Some (hd (drop ev data)) else None)"
  proof (cases "drop ev data")
    case (Cons b bs)
    then have "length bs = length data - ev - 1" by (metis length_Cons length_drop diff_Suc_1 One_nat_def)
    then have "bs = []" by (simp add: ev_def)
    then show ?thesis using Cons by simp
  qed simp
  have "checksum_partial (data @ bs) acc = checksum_partial (take ev data @ drop ev data @ bs) acc" by (simp flip: append_assoc)
  also have "\<dots> = checksum_partial (drop ev data @ bs) (checksum_partial (take ev data) acc)"
    using ev by (rule checksum_partial_append)
  finally have all: "checksum_partial (data @ bs) acc = checksum_partial (drop ev data @ bs) (checksum_partial (take ev data) acc)" .
  have acc: "(if ev \<noteq> 0 then checksum_partial (take ev data) acc else acc) = checksum_partial (take ev data) acc" by simp
  show "checksum_partial (opt_list (if drop ev data \<noteq> [] then Some (hd (drop ev data)) else None) @ bs)
           (if ev \<noteq> 0 then checksum_partial (take ev data) acc else acc) = checksum_partial (data @ bs) acc"
    by (simp only: all acc rest [symmetric])
  show "(if drop ev data \<noteq> [] then n - ev - 1 else n - ev) = n - length data"
    by (cases "length data mod 2 = 0") (auto simp: ev_def)
qed

lemma checksum_chunk_spec:
  assumes c: "checksum_chunk chunk len pending acc = (len', pending', acc')"
  shows "len' = len - length chunk \<and>
    checksum_partial (opt_list pending' @ bs) acc' = checksum_partial (opt_list pending @ take len chunk @ bs) acc"
proof -
  have step: "n' = n - length data \<and> checksum_partial (opt_list p' @ bs) a' = checksum_partial (data @ bs) a"
    if "checksum_even data n None a = (n', p', a')" for data n a n' p' a'
    using that checksum_even_part(1) [of data bs a] checksum_even_part(2) [of data n]
    by (auto simp: checksum_even_def Let_def split: if_splits)
  show ?thesis
  proof (cases pending)
    case None
    then have "checksum_even (take len chunk) len None acc = (len', pending', acc')" using c by (simp add: checksum_chunk_def)
    from step [OF this] None show ?thesis by auto
  next
    case (Some b)
    show ?thesis
    proof (cases "take len chunk")
      case Nil
      then show ?thesis using c Some by (auto simp: checksum_chunk_def checksum_even_def)
    next
      case (Cons x xs)
      then have len: "Suc (length xs) = min len (length chunk)" by (metis length_Cons length_take min.commute)
      have "checksum_even xs (len - 1) None (checksum_partial [b, x] acc) = (len', pending', acc')"
        using c Some Cons by (simp add: checksum_chunk_def)
      from step [OF this] show ?thesis using Some Cons len by auto
    qed
  qed
qed

lemma checksum_chunks_flat:
  assumes "checksum_chunks cs len pending acc = (p, a)"
  shows "checksum_partial (opt_list p) a = checksum_partial (opt_list pending @ take len (concat cs)) acc"
  using assms
proof (induction cs len pending acc rule: checksum_chunks.induct)
  case (2 chunk rest len pending acc)
  show ?case
  proof (cases "len = 0")
    case True
    then show ?thesis using 2(2) by simp
  next
    case False
    obtain len' pending' acc' where c: "checksum_chunk chunk len pending acc = (len', pending', acc')" by (rule prod_cases3)
    have "checksum_partial (opt_list p) a = checksum_partial (opt_list pending' @ take len' (concat rest)) acc'"
      using 2 c False by simp
    then show ?thesis using checksum_chunk_spec [OF c, of "take len' (concat rest)"] by auto
  qed
qed simp

lemma chain_bytes_concat: "chain_bytes h cs = concat (map (chunk_bytes h) cs)"
  by (induction cs) simp_all

lemma skb_checksum_flat: "skb_checksum h skb len start = checksum (take len (skb_bytes h skb)) start"
proof -
  obtain p a where c: "checksum_chunks (map (chunk_bytes h) (chunks skb)) len None start = (p, a)"
    by (cases "checksum_chunks (map (chunk_bytes h) (chunks skb)) len None start")
  have "(case p of Some b \<Rightarrow> checksum_partial [b] a | None \<Rightarrow> a) = checksum_partial (opt_list p) a"
    by (cases p) simp_all
  then show ?thesis
    using checksum_chunks_flat [OF c] c
    by (simp add: skb_checksum_def checksum_def skb_bytes_def chain_bytes_concat)
qed

section \<open>Runs of packet operations\<close>

text \<open>
  Any sequence of packet operations on any number of packets, with any outcomes of \<open>malloc\<close> and any bytes
  written by the owners of the slots. The packets may be taken in any order. An operation that reads the slot
  of the first window is called on packets that have one.
\<close>

definition has_slot :: "skbuff \<Rightarrow> bool" where
  "has_slot skb \<longleftrightarrow> d_slot (data0 skb) \<noteq> None"

inductive packet_run :: "nat \<Rightarrow> frames \<Rightarrow> skbuff list \<Rightarrow> bool" for tx where
  init: "tx_ok tx \<Longrightarrow> packet_run tx (frames_init tx) []"
| order: "packet_run tx h ps \<Longrightarrow> mset ps' = mset ps \<Longrightarrow> packet_run tx h ps'"
| store: "packet_run tx h ps \<Longrightarrow> packet_run tx (h\<lparr>bytes_at := b\<rparr>) ps"
| mallocs: "packet_run tx h ps \<Longrightarrow> packet_run tx (h\<lparr>mallocs := ms\<rparr>) ps"
| alloc: "packet_run tx h ps \<Longrightarrow> skb_alloc n h = (r, h') \<Longrightarrow> packet_run tx h' (opt_list r @ ps)"
| destroy: "packet_run tx h (p # ps) \<Longrightarrow> packet_run tx (skb_destroy p h) ps"
| clone: "packet_run tx h (p # ps) \<Longrightarrow> has_slot p \<Longrightarrow> skb_clone p h = (r, h') \<Longrightarrow> packet_run tx h' (opt_list r @ p # ps)"
| copy: "packet_run tx h (p # ps) \<Longrightarrow> has_slot p \<Longrightarrow> skb_copy p h = (r, h') \<Longrightarrow> packet_run tx h' (opt_list r @ p # ps)"
| split: "packet_run tx h (p # ps) \<Longrightarrow> skb_split p n h = (r, p', h') \<Longrightarrow> packet_run tx h' (opt_list r @ p' # ps)"
| consume: "packet_run tx h (p # ps) \<Longrightarrow> skb_consume p n linear h = (k, p', h') \<Longrightarrow> packet_run tx h' (p' # ps)"
| truncate: "packet_run tx h (p # ps) \<Longrightarrow> skb_truncate p n h = (p', h') \<Longrightarrow> packet_run tx h' (p' # ps)"
| reserve: "packet_run tx h (p # ps) \<Longrightarrow> has_slot p \<Longrightarrow> d_end (data0 p) + n \<le> d_size (data0 p) \<Longrightarrow>
            packet_run tx h (skb_reserve p n # ps)"
| push: "packet_run tx h (p # ps) \<Longrightarrow> has_slot p \<Longrightarrow> skb_data_push p n h = (ok, p', h') \<Longrightarrow> packet_run tx h' (p' # ps)"
| put: "packet_run tx h (p # ps) \<Longrightarrow> has_slot p \<Longrightarrow> skb_data_put p n = (e, p') \<Longrightarrow> packet_run tx h (p' # ps)"
| append: "packet_run tx h (p # ps) \<Longrightarrow> has_slot p \<Longrightarrow> pre \<le> seg \<Longrightarrow> seg < 2 ^ 32 \<Longrightarrow>
           skb_data_append p buf pre seg h = (ok, p', h') \<Longrightarrow> packet_run tx h' (p' # ps)"
| join: "packet_run tx h (p # q # ps) \<Longrightarrow> has_slot p \<Longrightarrow> has_slot q \<Longrightarrow> skb_append_skb p q by_copy h = (ok, p', h') \<Longrightarrow>
         packet_run tx h' (if ok then p' # ps else p' # q # ps)"

definition all_slots :: "skbuff list \<Rightarrow> slot multiset" where
  "all_slots ps = sum_list (map (\<lambda>p. skb_slots p) ps)"

definition packets_ok :: "frames \<Rightarrow> skbuff list \<Rightarrow> bool" where
  "packets_ok h ps \<longleftrightarrow> balanced h (all_slots ps) \<and> (\<forall>p \<in> set ps. skb_ok h p)"

lemma all_slots_simps [simp]:
  "all_slots [] = {#}" "all_slots (p # ps) = skb_slots p + all_slots ps" "all_slots (ps @ qs) = all_slots ps + all_slots qs"
  by (simp_all add: all_slots_def)

lemma all_slots_order: "mset ps' = mset ps \<Longrightarrow> all_slots ps' = all_slots ps"
  unfolding all_slots_def sum_mset_sum_list [symmetric] by (simp only: mset_map)

lemma all_slots_mem: "p \<in> set ps \<Longrightarrow> set_mset (skb_slots p) \<subseteq> set_mset (all_slots ps)"
  by (induction ps) auto

lemma others_ok: "keeps_size (all_slots ps) h h' \<Longrightarrow> \<forall>p \<in> set ps. skb_ok h p \<Longrightarrow> \<forall>p \<in> set ps. skb_ok h' p"
  using keeps_size_skb all_slots_mem by blast

lemma packets_head:
  assumes "packets_ok h (p # ps)"
  shows "balanced h (skb_slots p + all_slots ps)" "skb_ok h p" "\<forall>p \<in> set ps. skb_ok h p"
  using assms by (simp_all add: packets_ok_def)

lemma packets_edited:
  assumes "packets_ok h (p # ps)" "edited (all_slots ps) h p' bs h'"
  shows "packets_ok h' (p' # ps)"
  using assms others_ok [OF keeps_size, of ps h h'] by (simp add: packets_ok_def edited_def)

lemma reserve_ok:
  assumes "packets_ok h (p # ps)" "has_slot p" "d_end (data0 p) + n \<le> d_size (data0 p)"
  shows "packets_ok h (skb_reserve p n # ps)"
proof -
  note hd = packets_head [OF assms(1)]
  note oks = skb_ok_slot [OF hd(2) assms(2) [unfolded has_slot_def]]
  let ?d = "(data0 p)\<lparr>d_start := d_start (data0 p) + n, d_end := d_end (data0 p) + n\<rparr>"
  have cs: "chunks (skb_reserve p n) = ?d # nexts p" by (simp add: skb_reserve_def)
  have "info_ok h ?d" using oks(1) assms(3) by (auto simp: chunks_def info_ok_def split: option.splits)
  moreover have "d_len ?d = d_len (data0 p)" by (simp add: d_len_def)
  ultimately have "skb_ok h (skb_reserve p n)"
    using oks unfolding skb_ok_def cs by (simp add: chain_ok_def chunks_def skb_reserve_def)
  moreover have "skb_slots (skb_reserve p n) = skb_slots p" unfolding cs by (simp add: chunks_def)
  ultimately show ?thesis using hd by (simp add: packets_ok_def)
qed

lemma packet_run_ok:
  assumes "packet_run tx h ps"
  shows "packets_ok h ps"
  using assms
proof induction
  case init
  then show ?case using frames_init_inv by (simp add: packets_ok_def balanced_def frames_init_def fun_eq_iff)
next
  case (order h ps ps')
  then show ?case using all_slots_order [OF order(2)] mset_eq_setD [OF order(2)] by (simp add: packets_ok_def)
next
  case (store h ps b)
  then show ?case using skb_ok_frame [of "h\<lparr>bytes_at := b\<rparr>" h] by (simp add: packets_ok_def balanced_def)
next
  case (mallocs h ps ms)
  then show ?case using skb_ok_frame [of "h\<lparr>mallocs := ms\<rparr>" h] by (simp add: packets_ok_def balanced_def)
next
  case (alloc h ps n r h')
  then have bal: "balanced h (all_slots ps)" and oks: "\<forall>p \<in> set ps. skb_ok h p" by (simp_all add: packets_ok_def)
  note sp = skb_alloc_spec [OF bal alloc(2)]
  show ?case using sp others_ok [OF keeps_size [OF sp(1)] oks] by (cases r) (auto simp: packets_ok_def edited_def)
next
  case (destroy h p ps)
  note hd = packets_head [OF destroy(2)]
  show ?case using skb_destroy_spec [OF hd(1)] hd(3) skb_ok_frame [OF skb_destroy_spec(3) [OF hd(1)]] by (simp add: packets_ok_def)
next
  case (clone h p ps r h')
  note hd = packets_head [OF clone(4)]
  note sp = skb_clone_spec [OF hd(1,2) clone(2) [unfolded has_slot_def] clone(3)]
  show ?case using sp hd skb_ok_frame [OF sp(2)] by (cases r) (auto simp: packets_ok_def edited_def)
next
  case (copy h p ps r h')
  note hd = packets_head [OF copy(4)]
  note sp = skb_copy_spec [OF hd(1,2) copy(2) [unfolded has_slot_def] copy(3)]
  have "\<forall>q \<in> set (p # ps). skb_ok h' q" using others_ok [of "p # ps" h h'] keeps_size [OF sp(1)] hd by simp
  then show ?case using sp by (cases r) (auto simp: packets_ok_def edited_def)
next
  case (split h p ps n r p' h')
  note hd = packets_head [OF split(3)]
  note sp = skb_split_spec [OF hd(1,2) split(2), unfolded split_done_def]
  have ps: "\<forall>q \<in> set ps. skb_ok h' q" using others_ok [OF keeps_size hd(3)] sp by blast
  show ?case
  proof (cases r)
    case None
    then have "skb_ok h' p" using keeps_skb(2) [of "skb_slots p + all_slots ps" h h' p] hd(2) sp by simp
    then show ?thesis using sp ps None by (simp add: packets_ok_def)
  qed (use sp ps in \<open>simp add: packets_ok_def\<close>)
next
  case (consume h p ps n linear k p' h')
  note hd = packets_head [OF consume(3)]
  show ?case using packets_edited [OF consume(3)] skb_consume_spec [OF hd(1,2) consume(2)] by blast
next
  case (truncate h p ps n p' h')
  note hd = packets_head [OF truncate(3)]
  show ?case using packets_edited [OF truncate(3)] skb_truncate_spec [OF hd(1,2) truncate(2)] by blast
next
  case (reserve h p ps n)
  then show ?case by (intro reserve_ok)
next
  case (push h p ps n ok p' h')
  note hd = packets_head [OF push(4)]
  show ?case using packets_edited [OF push(4)] skb_data_push_spec(1) [OF hd(1,2) push(2) [unfolded has_slot_def] push(3)]
    by (metis (full_types))
next
  case (put h p ps n e p')
  note hd = packets_head [OF put(4)]
  have "info_ok h (skb_end_data_info p)"
    using skb_ok_slot(1) [OF hd(2) put(2) [unfolded has_slot_def]] by (simp add: skb_end_data_info_def)
  then obtain s where s: "d_slot (skb_end_data_info p) = Some s" by (auto simp: info_ok_def split: option.splits)
  note sp = skb_data_put_spec [OF hd(1,2) put(2) [unfolded has_slot_def] s put(3)]
  show ?case using packets_edited [OF put(4)] sp(1,3) put(4) by (cases e) blast+
next
  case (append h p ps pre seg buf ok p' h')
  note hd = packets_head [OF append(6)]
  note sp = skb_data_append_spec(1) [OF hd(1,2) append(2) [unfolded has_slot_def] append(3,4,5)]
  show ?case using sp others_ok [OF _ hd(3)] by (simp add: packets_ok_def)
next
  case (join h p q ps by_copy ok p' h')
  note hd = packets_head [OF join(5)]
  have q: "skb_ok h q" "\<forall>r \<in> set ps. skb_ok h r" and bal: "balanced h (skb_slots p + (skb_slots q + all_slots ps))"
    using hd by simp_all
  note sp = skb_append_skb_spec [OF bal hd(2) q(1) join(2) [unfolded has_slot_def] join(3) [unfolded has_slot_def] join(4)]
  show ?case
  proof (cases ok)
    case True
    then show ?thesis using sp(2) others_ok [OF _ q(2)] by (simp add: packets_ok_def)
  next
    case False
    then show ?thesis using sp(1) q hd(2) skb_ok_frame [of h' h] by (simp add: packets_ok_def)
  qed
qed

section \<open>The properties\<close>

lemma others_bytes: "keeps (all_slots ps) h h' \<Longrightarrow> q \<in> set ps \<Longrightarrow> skb_bytes h' q = skb_bytes h q"
  using keeps_skb(1) all_slots_mem by blast

lemma others_bytes_frame: "bytes_at h' = bytes_at h \<Longrightarrow> skb_bytes h' q = skb_bytes h q"
  unfolding skb_bytes_def by (rule chain_bytes_frame)

text \<open>A packet of three bytes, for the examples.\<close>

lemma sample_append:
  fixes p :: skbuff
  assumes ch: "chunks p = [d]" and room: "length buf \<le> d_size d - d_end d"
    and a: "skb_data_append p buf pre seg h = (ok, p', h')"
  shows "ok" "length (chunks p') = 1" "d_slot (data0 p') = d_slot d"
proof -
  have e: "skb_end_data_info p = d" "skb_end_space p = d_size d - d_end d"
    by (simp_all add: skb_end_space_def skb_end_data_info_def ch)
  then have m: "min (length buf) (skb_end_space p) = length buf" using room by simp
  have "data0 p = d" "nexts p = []" using ch by (simp_all add: chunks_def)
  note one = this
  have al: "append_loop x y z [] [] g = (True, [], g)" for x y z g by (simp add: append_loop.simps)
  have "ok \<and> length (chunks p') = 1 \<and> d_slot (data0 p') = d_slot d"
    using a room by (auto simp: skb_data_append_unfold m al Let_def e one skb_data_put_def skb_data_expand_def
        chunks_def set_chunks_def split: if_splits)
  then show "ok" "length (chunks p') = 1" "d_slot (data0 p') = d_slot d" by simp_all
qed

lemma sample_packet:
  "\<exists>h p. packet_run 24 h [p] \<and> has_slot p \<and> tail_private p {#} \<and> skb_bytes h p = [1, 2, 3]"
proof -
  have tx: "tx_ok 24" by (simp add: tx_ok_def)
  let ?h0 = "frames_init 24"
  have run0: "packet_run 24 ?h0 []" using tx by (rule packet_run.init)
  obtain r h1 where f: "frame_slot_alloc 100 ?h0 = (r, h1)" by (cases "frame_slot_alloc 100 ?h0")
  note fs = frame_slot_alloc_spec [OF frames_init_inv [OF tx] f]
  have "r \<noteq> None"
    using fs(6) size6_bounds [OF tx] by (auto simp: frames_init_def XDP_UMEM_FRAME_CNT_def)
  then obtain s where s: "r = Some s" by auto
  define d where "d = \<lparr>d_slot = Some s, d_start = 0, d_end = 0, d_size = 100\<rparr>"
  define p where "p = skb_zero\<lparr>data0 := d, data_num := 1\<rparr>"
  have "skb_alloc 100 ?h0 = (Some p, h1)" using f s by (simp add: skb_alloc_def malloc_def frames_init_def p_def d_def)
  with packet_run.alloc [OF run0] have run1: "packet_run 24 h1 [p]" by fastforce
  have ch: "chunks p = [d]" and slot: "has_slot p"
    by (simp_all add: chunks_def skb_zero_def has_slot_def p_def d_def)
  obtain ok p' h' where a: "skb_data_append p [1, 2, 3] 0 100 h1 = (ok, p', h')" by (rule prod_cases3)
  have "length [1, 2, 3 :: u8] \<le> d_size d - d_end d" by (simp add: d_def)
  note ap = sample_append [OF ch this a]
  have run2: "packet_run 24 h' [p']" by (rule packet_run.append [OF run1 slot _ _ a]) simp_all
  note hd = packets_head [OF packet_run_ok [OF run1]]
  have "tail_private p (all_slots [])" by (simp add: tail_private_def ch)
  then have ed: "edited {#} h1 p' (skb_bytes h1 p @ [1, 2, 3]) h'"
    using skb_data_append_spec(2) [OF hd(1,2) slot [unfolded has_slot_def] _ _ a] ap(1) by simp
  have "skb_bytes h1 p = []" by (simp add: skb_bytes_def ch chunk_bytes_def d_def)
  with ed have "skb_bytes h' p' = [1, 2, 3]" by (simp add: edited_def)
  moreover have "has_slot p'" "tail_private p' {#}"
    using ap(2,3) by (auto simp: has_slot_def d_def tail_private_def chunks_def)
  ultimately show ?thesis using run2 by blast
qed

text \<open>
  C21. However packets are allocated, cloned, copied, split, joined, grown, cut and destroyed, and whichever
  allocations fail on the way, the reference count of every frame slot is the number of windows onto it,
  every window lies inside its slot, a packet's length fields count its bytes and at most 32 windows, and
  when the last packet is destroyed no slot is referenced: nothing leaks and nothing is freed early.
\<close>

theorem packet_references:
  assumes "packet_run tx h ps"
  shows "(\<forall>s. slot_ref h s = count (all_slots ps) s) \<and> (ps = [] \<longrightarrow> live h = {}) \<and>
    (\<forall>p \<in> set ps. data_total_len p = length (skb_bytes h p) \<and> data_num p \<le> SKB_DATA_MAX_NUM \<and>
       (\<forall>d \<in> set (chunks p). \<forall>s. d_slot d = Some s \<longrightarrow> s \<in> live h \<and> d_start d \<le> d_end d \<and> d_end d \<le> slot_size h s))"
proof -
  have ok: "packets_ok h ps" by (rule packet_run_ok [OF assms])
  then have bal: "balanced h (all_slots ps)" by (simp add: packets_ok_def)
  have "data_total_len p = length (skb_bytes h p) \<and> data_num p \<le> SKB_DATA_MAX_NUM \<and>
      (\<forall>d \<in> set (chunks p). \<forall>s. d_slot d = Some s \<longrightarrow> s \<in> live h \<and> d_start d \<le> d_end d \<and> d_end d \<le> slot_size h s)"
    if p: "p \<in> set ps" for p
  proof -
    have skb: "skb_ok h p" using ok p by (simp add: packets_ok_def)
    have "s \<in> live h \<and> d_start d \<le> d_end d \<and> d_end d \<le> slot_size h s"
      if "d \<in> set (chunks p)" "d_slot d = Some s" for d s
    proof -
      have "s \<in># all_slots ps" using info_slots_mem [OF that] all_slots_mem [OF p] by blast
      moreover have "info_ok h d" using skb that by (auto simp: skb_ok_def chain_ok_def)
      ultimately show ?thesis using balanced_live [OF bal] that(2) by (auto simp: info_ok_def)
    qed
    then show ?thesis using length_skb_bytes [OF skb] skb by (simp add: skb_ok_def)
  qed
  moreover have "ps = [] \<longrightarrow> live h = {}" using bal by (auto simp: balanced_def live_def)
  ultimately show ?thesis using bal by (simp add: balanced_def)
qed

lemma packet_references_witness:
  "\<exists>h p. packet_run 24 h [p] \<and> length (skb_bytes h p) = 3 \<and> data_total_len p = 3 \<and> live (skb_destroy p h) = {}"
proof -
  obtain h p where s: "packet_run 24 h [p]" "skb_bytes h p = [1, 2, 3]" using sample_packet by blast
  have "data_total_len p = 3" using packet_references [OF s(1)] s(2) by simp
  moreover have "live (skb_destroy p h) = {}" using packet_references [OF packet_run.destroy [OF s(1)]] by simp
  ultimately show ?thesis using s by (intro exI [of _ h] exI [of _ p]) simp
qed

text \<open>
  C22. Consuming, truncating and splitting a packet are dropping, taking and splitting the list of its bytes,
  wherever the cut falls in the chain of windows, and reading a range gives that range of the list or fails
  exactly when the range is not there. The bytes of all other packets stay as they are, also of those that
  share slots with it.
\<close>

theorem packet_cuts_refine:
  assumes "packet_run tx h (p # ps)"
  shows "(\<forall>n k p' h'. skb_consume p n False h = (k, p', h') \<longrightarrow> k = min n (length (skb_bytes h p)) \<and>
            skb_bytes h' p' = drop n (skb_bytes h p) \<and> (\<forall>q \<in> set ps. skb_bytes h' q = skb_bytes h q)) \<and>
    (\<forall>n p' h'. skb_truncate p n h = (p', h') \<longrightarrow>
            skb_bytes h' p' = take n (skb_bytes h p) \<and> (\<forall>q \<in> set ps. skb_bytes h' q = skb_bytes h q)) \<and>
    (\<forall>n r p' h'. skb_split p n h = (r, p', h') \<longrightarrow> (\<forall>q \<in> set ps. skb_bytes h' q = skb_bytes h q) \<and>
            (case r of None \<Rightarrow> skb_bytes h' p' = skb_bytes h p
             | Some t \<Rightarrow> skb_bytes h' p' = take n (skb_bytes h p) \<and> skb_bytes h' t = drop n (skb_bytes h p))) \<and>
    (\<forall>off len. length (skb_bytes h p) < 2 ^ 32 \<longrightarrow> off < 2 ^ 32 \<longrightarrow> skb_copy_bits h p off len =
            (if len = 0 \<or> off + len \<le> length (skb_bytes h p) then Some (take len (drop off (skb_bytes h p))) else None))"
proof -
  note hd = packets_head [OF packet_run_ok [OF assms]]
  have len: "length (skb_bytes h p) = data_total_len p" by (rule length_skb_bytes [OF hd(2)])
  have "k = min n (length (skb_bytes h p)) \<and> skb_bytes h' p' = drop n (skb_bytes h p) \<and>
      (\<forall>q \<in> set ps. skb_bytes h' q = skb_bytes h q)" if "skb_consume p n False h = (k, p', h')" for n k p' h'
    using skb_consume_spec [OF hd(1,2) that] len others_bytes_frame [of h' h] by (auto simp: edited_def min_def)
  moreover have "skb_bytes h' p' = take n (skb_bytes h p) \<and> (\<forall>q \<in> set ps. skb_bytes h' q = skb_bytes h q)"
    if "skb_truncate p n h = (p', h')" for n p' h'
    using skb_truncate_spec [OF hd(1,2) that] others_bytes_frame [of h' h] by (simp add: edited_def)
  moreover have "(\<forall>q \<in> set ps. skb_bytes h' q = skb_bytes h q) \<and>
      (case r of None \<Rightarrow> skb_bytes h' p' = skb_bytes h p
       | Some t \<Rightarrow> skb_bytes h' p' = take n (skb_bytes h p) \<and> skb_bytes h' t = drop n (skb_bytes h p))"
    if "skb_split p n h = (r, p', h')" for n r p' h'
    using skb_split_spec [OF hd(1,2) that] others_bytes [of ps h h'] keeps_skb(1) [of "skb_slots p + all_slots ps" h h' p]
    by (auto simp: split_done_def split: option.splits)
  moreover have "skb_copy_bits h p off len =
      (if len = 0 \<or> off + len \<le> length (skb_bytes h p) then Some (take len (drop off (skb_bytes h p))) else None)"
    if "length (skb_bytes h p) < 2 ^ 32" "off < 2 ^ 32" for off len
    using skb_copy_bits_flat [OF hd(2)] that len by simp
  ultimately show ?thesis by blast
qed

lemma packet_cuts_refine_witness:
  "\<exists>h p p' h'. packet_run 24 h [p] \<and> skb_bytes h p = [1, 2, 3] \<and> skb_truncate p 2 h = (p', h') \<and> skb_bytes h' p' = [1, 2]"
proof -
  obtain h p where s: "packet_run 24 h [p]" "skb_bytes h p = [1, 2, 3]" using sample_packet by blast
  obtain p' h' where t: "skb_truncate p 2 h = (p', h')" by (cases "skb_truncate p 2 h")
  then have "skb_bytes h' p' = take 2 [1, 2, 3]" using packet_cuts_refine [OF s(1)] s(2) by simp
  then show ?thesis using s t by fastforce
qed



text \<open>
  C24. The checksum of a packet is the checksum of its bytes as one buffer: odd bytes at the ends of windows are
  paired across them. The pseudo-header checksum of a whole packet is that of the flat segment.
\<close>

theorem packet_checksum_flat:
  "skb_checksum h skb len start = checksum (take len (skb_bytes h skb)) start \<and>
   skb_checksum_protocol h (Some skb) (length (skb_bytes h skb)) saddr daddr proto =
     checksum_protocol (skb_bytes h skb) saddr daddr proto"
proof -
  have e: "even (length (bytes_of_u32 w))" "even (length (bytes_of_u16 v))" for w v
    by (simp_all add: bytes_of_u32_def bytes_of_u16_def)
  have hi: "\<not> bit proto (8 + n)" for n using bit_imp_le_length [of proto "8 + n"] by auto
  have p: "bytes_of_u16 (htons (ucast proto)) = [0, proto]"
    by (auto simp: bytes_of_u16_def htons_def bit_simps hi intro!: bit_word_eqI)
  show ?thesis
    by (simp add: skb_checksum_flat skb_checksum_protocol_def checksum_protocol_def pseudo_head_def Let_def
        checksum_partial_append e p)
qed

end
