(* ===== verification/TimerWheel.thy ===== *)
theory TimerWheel
  imports Prelude
begin

text \<open>
  The tasks and the two-level timing wheel of \<^verbatim>\<open>src/lib/thread.c\<close>. A thread has 100 slots of one millisecond
  and 100 slots of a tenth of a second, each a list of timer tasks; a cursor per level says which slot is current.
  The lists are the intrusive lists of \<open>DList\<close>, kept here as the list of the tasks they link: unlinking a task
  removes it from the list it is in. Callbacks are a parameter: what a callback does to the tasks is a sequence of
  registrations and releases, and it may change a memory of its own. The outcomes of system calls are a list in
  the state. Times are milliseconds of a monotonic clock, natural numbers below \<open>2 ^ 64\<close>; the places where the
  code cuts a difference to 32 bits are written out.

  The invariant: a task is linked once, exactly while it is a registered timer that is not freed, in a slot that the
  cursor reaches no later than the deadline. Placing a timer, turning the wheel and moving the timers of a
  second-level slot keep it; theory \<open>TimerPass\<close> has the passes over the timers.
\<close>

section \<open>Tasks and threads\<close>

datatype task_type = TASK_TYPE_FD_READ | TASK_TYPE_FD_WRITE | TASK_TYPE_FD_RW | TASK_TYPE_TIMER | TASK_TYPE_LOOP

record task =
  task_type :: task_type
  reg_task_type :: "task_type option"
  parent_thread :: "nat option"
  task_fd :: nat
  timeout :: nat
  cb_timer :: bool
  registered :: bool
  task_live :: bool

definition WHEEL_0_SIZE :: nat where "WHEEL_0_SIZE = 100"
definition WHEEL_0_TICK_MS :: nat where "WHEEL_0_TICK_MS = 1"
definition WHEEL_1_SIZE :: nat where "WHEEL_1_SIZE = 100"
definition WHEEL_1_TICK_MS :: nat where "WHEEL_1_TICK_MS = WHEEL_0_TICK_MS * WHEEL_0_SIZE"

lemmas wheel_consts = WHEEL_0_SIZE_def WHEEL_0_TICK_MS_def WHEEL_1_SIZE_def WHEEL_1_TICK_MS_def

text \<open>The list heads of a thread's wheels: the thread, and the index of the slot.\<close>

datatype wheel_slot = Wheel0 nat nat | Wheel1 nat nat

text \<open>
  All threads and tasks: the wheel lists, the loop tasks, the cursors and the last check of each thread, the
  interest set of each thread's epoll descriptor, the tasks, the running thread's clock, the memory of the
  callbacks, and the timers fired so far with their deadlines, newest first.
\<close>

record 'w threads =
  slots :: "wheel_slot \<Rightarrow> nat list"
  loop_tasks :: "nat \<Rightarrow> nat list"
  wheel0_cursor :: "nat \<Rightarrow> nat"
  wheel1_cursor :: "nat \<Rightarrow> nat"
  last_timer_check_ms :: "nat \<Rightarrow> nat"
  epoll_set :: "nat \<Rightarrow> nat \<Rightarrow> (nat \<times> bool \<times> bool) option"
  nonblock :: "nat \<Rightarrow> bool"
  syscalls :: "bool list"
  tasks :: "nat \<Rightarrow> task"
  current_time_ms :: nat
  world :: 'w
  fired :: "(nat \<times> nat) list"

definition upd_task :: "nat \<Rightarrow> (task \<Rightarrow> task) \<Rightarrow> 'w threads \<Rightarrow> 'w threads" where
  "upd_task tk f s = s\<lparr>tasks := (tasks s)(tk := f (tasks s tk))\<rparr>"

definition syscall :: "'w threads \<Rightarrow> bool \<times> 'w threads" where
  "syscall s = (case syscalls s of [] \<Rightarrow> (True, s) | ok # rest \<Rightarrow> (ok, s\<lparr>syscalls := rest\<rparr>))"

definition set_fd_nonblock :: "nat \<Rightarrow> 'w threads \<Rightarrow> int \<times> 'w threads" where
  "set_fd_nonblock fd s =
     (case syscall s of (ok, s) \<Rightarrow>
        if \<not> ok then (-1, s)
        else if nonblock s fd then (0, s)
        else case syscall s of (ok, s) \<Rightarrow>
               if \<not> ok then (-1, s) else (0, s\<lparr>nonblock := (nonblock s)(fd := True)\<rparr>))"

definition create_task :: "int \<Rightarrow> bool \<Rightarrow> task option" where
  "create_task type calloc_ok =
     (if type < 1 \<or> type > 5 then None
      else if \<not> calloc_ok then None
      else Some \<lparr>task_type = [TASK_TYPE_FD_READ, TASK_TYPE_FD_WRITE, TASK_TYPE_FD_RW, TASK_TYPE_TIMER, TASK_TYPE_LOOP] ! nat (type - 1),
                 reg_task_type = None, parent_thread = None, task_fd = 0, timeout = 0, cb_timer = False,
                 registered = False, task_live = True\<rparr>)"

section \<open>The wheel\<close>

definition wheel_timer_slot :: "nat \<Rightarrow> nat \<Rightarrow> nat \<Rightarrow> 'w threads \<Rightarrow> wheel_slot" where
  "wheel_timer_slot t tk now_ms s =
     (if timeout (tasks s tk) \<le> now_ms then Wheel0 t (wheel0_cursor s t)
      else let delta_ms = timeout (tasks s tk) - now_ms;
               l0_ticks = ((delta_ms + WHEEL_0_TICK_MS - 1) div WHEEL_0_TICK_MS) mod 2 ^ 32
           in if l0_ticks < WHEEL_0_SIZE then Wheel0 t ((wheel0_cursor s t + l0_ticks) mod WHEEL_0_SIZE)
              else let l1_ticks = (delta_ms div WHEEL_1_TICK_MS) mod 2 ^ 32;
                       l1_ticks = (if l1_ticks \<ge> WHEEL_1_SIZE then WHEEL_1_SIZE - 1 else l1_ticks)
                   in Wheel1 t ((wheel1_cursor s t + l1_ticks) mod WHEEL_1_SIZE))"

definition unlink_timer :: "nat \<Rightarrow> 'w threads \<Rightarrow> 'w threads" where
  "unlink_timer tk s = s\<lparr>slots := (\<lambda>a. removeAll tk (slots s a))\<rparr>"

definition wheel_add_timer_at_locked :: "nat \<Rightarrow> nat \<Rightarrow> nat \<Rightarrow> 'w threads \<Rightarrow> 'w threads" where
  "wheel_add_timer_at_locked t tk now_ms s =
     (let a = wheel_timer_slot t tk now_ms s in s\<lparr>slots := (slots s)(a := tk # slots s a)\<rparr>)"

definition wheel_requeue_timer_locked :: "nat \<Rightarrow> nat \<Rightarrow> nat \<Rightarrow> 'w threads \<Rightarrow> 'w threads" where
  "wheel_requeue_timer_locked t tk now_ms s =
     (let a = wheel_timer_slot t tk now_ms s in s\<lparr>slots := (slots s)(a := slots s a @ [tk])\<rparr>)"

text \<open>
  The loop reads the next node before it moves the current one, and a moved task goes to the front of a list, so
  it visits the tasks the slot had at the start.
\<close>

fun cascade_loop :: "nat \<Rightarrow> nat \<Rightarrow> nat list \<Rightarrow> 'w threads \<Rightarrow> 'w threads" where
  "cascade_loop t now_ms [] s = s"
| "cascade_loop t now_ms (tk # rest) s =
     cascade_loop t now_ms rest (wheel_add_timer_at_locked t tk now_ms (unlink_timer tk s))"

definition wheel_cascade_l1 :: "nat \<Rightarrow> 'w threads \<Rightarrow> 'w threads" where
  "wheel_cascade_l1 t s = cascade_loop t (current_time_ms s) (slots s (Wheel1 t (wheel1_cursor s t))) s"

definition wheel_add_timer :: "nat \<Rightarrow> nat \<Rightarrow> 'w threads \<Rightarrow> 'w threads" where
  "wheel_add_timer t tk s =
     (if registered (tasks s tk) then wheel_add_timer_at_locked t tk (current_time_ms s) s else s)"

text \<open>Unlinking a task that is not attached changes nothing, so the test of the code needs no branch.\<close>

definition wheel_remove_timer :: "nat \<Rightarrow> 'w threads \<Rightarrow> 'w threads" where
  "wheel_remove_timer tk s = unlink_timer tk s"

definition wheel_advance :: "nat \<Rightarrow> 'w threads \<Rightarrow> 'w threads" where
  "wheel_advance t s =
     (let s = s\<lparr>wheel0_cursor := (wheel0_cursor s)(t := (wheel0_cursor s t + 1) mod WHEEL_0_SIZE)\<rparr>
      in if wheel0_cursor s t = 0
         then wheel_cascade_l1 t (s\<lparr>wheel1_cursor := (wheel1_cursor s)(t := (wheel1_cursor s t + 1) mod WHEEL_1_SIZE)\<rparr>)
         else s)"

text \<open>A new thread has empty wheels; the clock is read (\<open>read_ms\<close>) and is the time of its last check.\<close>

definition create_thread :: "nat \<Rightarrow> nat \<Rightarrow> 'w threads \<Rightarrow> bool \<times> 'w threads" where
  "create_thread t read_ms s =
     (case syscall s of (ok, s) \<Rightarrow>
        if \<not> ok then (False, s)
        else case syscall s of (ok, s) \<Rightarrow>
          if \<not> ok then (False, s)
          else case syscall s of (ok, s) \<Rightarrow>
            if \<not> ok then (False, s)
            else (True, s\<lparr>current_time_ms := read_ms,
                          last_timer_check_ms := (last_timer_check_ms s)(t := read_ms),
                          slots := (\<lambda>a. case a of Wheel0 u i \<Rightarrow> if u = t then [] else slots s a
                                              | Wheel1 u i \<Rightarrow> if u = t then [] else slots s a),
                          loop_tasks := (loop_tasks s)(t := []),
                          wheel0_cursor := (wheel0_cursor s)(t := 0), wheel1_cursor := (wheel1_cursor s)(t := 0),
                          epoll_set := (epoll_set s)(t := (\<lambda>_. None))\<rparr>))"

section \<open>Registration\<close>

definition unregister_loop_task :: "nat \<Rightarrow> 'w threads \<Rightarrow> 'w threads" where
  "unregister_loop_task tk s =
     (case parent_thread (tasks s tk) of
        None \<Rightarrow> s
      | Some t \<Rightarrow> upd_task tk (\<lambda>k. k\<lparr>registered := False, parent_thread := None\<rparr>)
                   (s\<lparr>loop_tasks := (\<lambda>i. removeAll tk (loop_tasks s i))\<rparr>))"

definition task_events :: "task_type \<Rightarrow> bool \<times> bool" where
  "task_events ty =
     (case ty of TASK_TYPE_FD_READ \<Rightarrow> (True, False) | TASK_TYPE_FD_WRITE \<Rightarrow> (False, True)
      | TASK_TYPE_FD_RW \<Rightarrow> (True, True) | _ \<Rightarrow> (False, False))"

definition epoll_set_events :: "nat \<Rightarrow> nat \<Rightarrow> 'w threads \<Rightarrow> 'w threads" where
  "epoll_set_events t tk s =
     s\<lparr>epoll_set := (epoll_set s)(t := (epoll_set s t)(task_fd (tasks s tk) := Some (tk, task_events (task_type (tasks s tk)))))\<rparr>"

definition epoll_del :: "nat option \<Rightarrow> nat \<Rightarrow> 'w threads \<Rightarrow> 'w threads" where
  "epoll_del po fd s =
     (case syscall s of (ok, s) \<Rightarrow>
        case po of Some p \<Rightarrow> if ok then s\<lparr>epoll_set := (epoll_set s)(p := (epoll_set s p)(fd := None))\<rparr> else s
                 | None \<Rightarrow> s)"

definition update_fd_task :: "nat \<Rightarrow> nat \<Rightarrow> 'w threads \<Rightarrow> int \<times> 'w threads" where
  "update_fd_task t tk s =
     (let k = tasks s tk
      in if reg_task_type k = Some (task_type k) \<and> parent_thread k = Some t then (0, s)
         else let s = (if parent_thread k \<noteq> Some t then epoll_del (parent_thread k) (task_fd k) s else s)
              in case syscall s of (ok, s) \<Rightarrow>
                   if \<not> ok then (-1, s)
                   else (0, upd_task tk (\<lambda>k. k\<lparr>reg_task_type := Some (task_type k), parent_thread := Some t\<rparr>)
                             (epoll_set_events t tk s)))"

definition add_fd_task :: "nat \<Rightarrow> nat \<Rightarrow> 'w threads \<Rightarrow> int \<times> 'w threads" where
  "add_fd_task t tk s =
     (case set_fd_nonblock (task_fd (tasks s tk)) s of (ret, s) \<Rightarrow>
        if ret < 0 then (-1, s)
        else case syscall s of (ok, s) \<Rightarrow>
               if \<not> ok then (-1, s)
               else (0, upd_task tk (\<lambda>k. k\<lparr>registered := True, reg_task_type := Some (task_type k), parent_thread := Some t\<rparr>)
                         (epoll_set_events t tk s)))"

definition register_timer :: "nat \<Rightarrow> nat \<Rightarrow> 'w threads \<Rightarrow> 'w threads" where
  "register_timer t tk s =
     (let s = (if registered (tasks s tk) then wheel_remove_timer tk s else s);
          s = upd_task tk (\<lambda>k. k\<lparr>registered := True, parent_thread := Some t\<rparr>) s
      in wheel_add_timer t tk s)"

definition register_task :: "nat \<Rightarrow> nat \<Rightarrow> 'w threads \<Rightarrow> int \<times> 'w threads" where
  "register_task t tk s =
     (let k = tasks s tk
      in if task_type k = TASK_TYPE_LOOP
         then if registered k \<and> parent_thread k = Some t then (0, s)
              else let s = (if registered k then unregister_loop_task tk s else s);
                       s = upd_task tk (\<lambda>k. k\<lparr>parent_thread := Some t, registered := True\<rparr>) s
                   in (0, s\<lparr>loop_tasks := (loop_tasks s)(t := tk # loop_tasks s t)\<rparr>)
         else if registered k \<and> task_type k \<noteq> TASK_TYPE_TIMER then update_fd_task t tk s
         else if task_type k = TASK_TYPE_TIMER then (0, register_timer t tk s)
         else add_fd_task t tk s)"

definition unregister_task :: "nat \<Rightarrow> 'w threads \<Rightarrow> 'w threads" where
  "unregister_task tk s =
     (let k = tasks s tk
      in if \<not> registered k then s
         else if task_type k = TASK_TYPE_LOOP then unregister_loop_task tk s
         else let s = (if task_type k = TASK_TYPE_TIMER
                       then if parent_thread k \<noteq> None then wheel_remove_timer tk s else s
                       else epoll_del (parent_thread k) (task_fd k) s)
              in upd_task tk (\<lambda>k. k\<lparr>registered := False, parent_thread := None\<rparr>) s)"

definition destroy_task :: "nat \<Rightarrow> 'w threads \<Rightarrow> 'w threads" where
  "destroy_task tk s = upd_task tk (\<lambda>k. k\<lparr>task_live := False\<rparr>) (unregister_task tk s)"

definition update_task_timer :: "nat \<Rightarrow> nat \<Rightarrow> nat \<Rightarrow> 'w threads \<Rightarrow> int \<times> 'w threads" where
  "update_task_timer t tk time s = register_task t tk (upd_task tk (\<lambda>k. k\<lparr>timeout := time\<rparr>) s)"

section \<open>Timer passes\<close>

text \<open>What a callback does to the tasks.\<close>

datatype task_op = Arm nat nat nat | Disarm nat | Destroy nat

fun run_op :: "task_op \<Rightarrow> 'w threads \<Rightarrow> 'w threads" where
  "run_op (Arm t tk time) s = snd (update_task_timer t tk time s)"
| "run_op (Disarm tk) s = unregister_task tk s"
| "run_op (Destroy tk) s = destroy_task tk s"

type_synonym 'w callback = "nat \<Rightarrow> 'w threads \<Rightarrow> task_op list \<times> 'w"

definition call_timer :: "'w callback \<Rightarrow> nat \<Rightarrow> 'w threads \<Rightarrow> 'w threads" where
  "call_timer cb tk s = (case cb tk s of (ops, w) \<Rightarrow> fold run_op ops (s\<lparr>world := w\<rparr>))"

definition fire_timer_task :: "'w callback \<Rightarrow> nat \<Rightarrow> nat \<Rightarrow> 'w threads \<Rightarrow> nat \<times> 'w threads" where
  "fire_timer_task cb tk now_ms s =
     (if timeout (tasks s tk) > now_ms then (0, s)
      else let s = upd_task tk (\<lambda>k. k\<lparr>registered := False\<rparr>) (s\<lparr>fired := (tk, timeout (tasks s tk)) # fired s\<rparr>)
           in if \<not> cb_timer (tasks s tk) then (0, s) else (1, call_timer cb tk s))"

partial_function (option) process_current_timer_slot ::
  "'w callback \<Rightarrow> nat \<Rightarrow> nat \<Rightarrow> nat \<Rightarrow> 'w threads \<Rightarrow> (nat \<times> 'w threads) option" where
  "process_current_timer_slot cb t now_ms do_sum s =
     (case slots s (Wheel0 t (wheel0_cursor s t)) of
        [] \<Rightarrow> Some (do_sum, s)
      | tk # _ \<Rightarrow>
          let s = unlink_timer tk s
          in if timeout (tasks s tk) > now_ms
             then process_current_timer_slot cb t now_ms do_sum (wheel_requeue_timer_locked t tk now_ms s)
             else case fire_timer_task cb tk now_ms s of
                    (n, s) \<Rightarrow> process_current_timer_slot cb t now_ms (do_sum + n) s)"

fun tick_loop :: "'w callback \<Rightarrow> nat \<Rightarrow> nat \<Rightarrow> nat \<Rightarrow> nat \<Rightarrow> 'w threads \<Rightarrow> (nat \<times> 'w threads) option" where
  "tick_loop cb t now_ms 0 do_sum s = Some (do_sum, s)"
| "tick_loop cb t now_ms (Suc n) do_sum s =
     (case process_current_timer_slot cb t now_ms do_sum (wheel_advance t s) of
        None \<Rightarrow> None
      | Some (do_sum, s) \<Rightarrow> tick_loop cb t now_ms n do_sum s)"

definition do_timer_tasks :: "'w callback \<Rightarrow> nat \<Rightarrow> 'w threads \<Rightarrow> (nat \<times> 'w threads) option" where
  "do_timer_tasks cb t s =
     (let now_ms = current_time_ms s;
          elapsed_ms = (now_ms + 2 ^ 64 - last_timer_check_ms s t) mod 2 ^ 64;
          elapsed_ticks = elapsed_ms div WHEEL_0_TICK_MS
      in case process_current_timer_slot cb t now_ms 0 s of
           None \<Rightarrow> None
         | Some (do_sum, s) \<Rightarrow>
             (case tick_loop cb t now_ms elapsed_ticks do_sum s of
                None \<Rightarrow> None
              | Some (do_sum, s) \<Rightarrow>
                  Some (do_sum, s\<lparr>last_timer_check_ms := (last_timer_check_ms s)(t := last_timer_check_ms s t + elapsed_ticks * WHEEL_0_TICK_MS)\<rparr>)))"

section \<open>The invariant of the wheels\<close>

fun slot_thread :: "wheel_slot \<Rightarrow> nat" where
  "slot_thread (Wheel0 t i) = t"
| "slot_thread (Wheel1 t i) = t"

fun slot_index :: "wheel_slot \<Rightarrow> nat" where
  "slot_index (Wheel0 t i) = i"
| "slot_index (Wheel1 t i) = i"

definition armed :: "task \<Rightarrow> bool" where
  "armed k \<longleftrightarrow> task_live k \<and> task_type k = TASK_TYPE_TIMER \<and> registered k"

definition linked :: "'w threads \<Rightarrow> nat \<Rightarrow> bool" where
  "linked s tk \<longleftrightarrow> (\<exists>a. tk \<in> set (slots s a))"

text \<open>
  A task is linked once, in a slot of its parent thread, exactly when it is an armed timer; the tasks of \<open>X\<close>
  have been taken out of their slots.
\<close>

definition wheel_wf :: "nat set \<Rightarrow> 'w threads \<Rightarrow> bool" where
  "wheel_wf X s \<longleftrightarrow>
     (\<forall>t. wheel0_cursor s t < 100 \<and> wheel1_cursor s t < 100) \<and> (\<forall>a. distinct (slots s a)) \<and>
     (\<forall>a b tk. tk \<in> set (slots s a) \<longrightarrow> tk \<in> set (slots s b) \<longrightarrow> a = b) \<and>
     (\<forall>a tk. tk \<in> set (slots s a) \<longrightarrow> armed (tasks s tk) \<and> parent_thread (tasks s tk) = Some (slot_thread a) \<and>
              slot_index a < 100 \<and> tk \<notin> X) \<and>
     (\<forall>tk. tk \<notin> X \<longrightarrow> armed (tasks s tk) \<longrightarrow> linked s tk)"

text \<open>
  A slot is reached in time: when the cursor stands for time \<open>C\<close>, a millisecond slot \<open>k > 0\<close> steps ahead is reached
  at \<open>C + k\<close>, and a slot of the second level \<open>m\<close> turns ahead when the first level has gone round \<open>m\<close> times.
\<close>

definition ahead :: "nat \<Rightarrow> nat \<Rightarrow> nat" where
  "ahead c i = (if c \<le> i then i - c else i + 100 - c)"

fun in_time :: "nat \<Rightarrow> nat \<Rightarrow> nat \<Rightarrow> wheel_slot \<Rightarrow> nat \<Rightarrow> bool" where
  "in_time C c0 c1 (Wheel0 t i) time = (ahead c0 i = 0 \<or> C + ahead c0 i \<le> time)"
| "in_time C c0 c1 (Wheel1 t i) time = (C + 100 * (if ahead c1 i = 0 then 100 else ahead c1 i) \<le> time + c0)"

definition timing :: "nat set \<Rightarrow> nat \<Rightarrow> nat \<Rightarrow> 'w threads \<Rightarrow> bool" where
  "timing R t C s \<longleftrightarrow>
     (\<forall>a tk. tk \<in> set (slots s a) \<longrightarrow> slot_thread a = t \<longrightarrow> tk \<notin> R \<longrightarrow>
        in_time C (wheel0_cursor s t) (wheel1_cursor s t) a (timeout (tasks s tk)))"

lemma timing_mono: "timing R t C s \<Longrightarrow> R \<subseteq> R' \<Longrightarrow> timing R' t C s"
  by (auto simp: timing_def)

lemma ahead_add: "c < 100 \<Longrightarrow> k < 100 \<Longrightarrow> ahead c ((c + k) mod 100) = k"
  by (auto simp: ahead_def mod_if)

lemma ahead_zero: "c < 100 \<Longrightarrow> i < 100 \<Longrightarrow> ahead c i = 0 \<longleftrightarrow> i = c"
  by (auto simp: ahead_def)

lemma ahead_next: "c < 100 \<Longrightarrow> i < 100 \<Longrightarrow> i \<noteq> c \<Longrightarrow> ahead ((c + 1) mod 100) i = ahead c i - 1"
  by (auto simp: ahead_def mod_if)

lemma slot_placed:
  fixes t tk :: nat
  assumes wf: "wheel_wf X s" and C: "C \<le> now"
  defines "a \<equiv> wheel_timer_slot t tk now s"
  shows "slot_thread a = t" "slot_index a < 100"
    "in_time C (wheel0_cursor s t) (wheel1_cursor s t) a (timeout (tasks s tk))"
proof -
  have c: "wheel0_cursor s t < 100" "wheel1_cursor s t < 100" using wf by (auto simp: wheel_wf_def)
  show "slot_thread a = t" by (simp add: a_def wheel_timer_slot_def Let_def)
  show "slot_index a < 100" using c by (simp add: a_def wheel_timer_slot_def Let_def wheel_consts)
  define d where "d = timeout (tasks s tk) - now"
  define l0 where "l0 = d mod 2 ^ 32"
  define l1 where "l1 = (d div 100) mod 2 ^ 32"
  show "in_time C (wheel0_cursor s t) (wheel1_cursor s t) a (timeout (tasks s tk))"
  proof (cases "timeout (tasks s tk) \<le> now")
    case True
    then show ?thesis by (simp add: a_def wheel_timer_slot_def ahead_def)
  next
    case False
    have a: "a = (if l0 < 100 then Wheel0 t ((wheel0_cursor s t + l0) mod 100)
                  else Wheel1 t ((wheel1_cursor s t + min l1 99) mod 100))"
      using False by (simp add: a_def wheel_timer_slot_def Let_def wheel_consts d_def l0_def l1_def min_def)
    have tm: "timeout (tasks s tk) = now + d" using False by (simp add: d_def)
    have le: "l0 \<le> d" "100 * l1 \<le> d" using mod_less_eq_dividend [of "d div 100" "2 ^ 32"] by (simp_all add: l0_def l1_def)
    show ?thesis
    proof (cases "l0 < 100")
      case True
      then show ?thesis using a tm le C ahead_add [OF c(1)] by simp
    next
      case False
      have "0 < d div 100" using False le by simp
      then have "l1 = 0 \<Longrightarrow> 2 ^ 32 \<le> d div 100"
        unfolding l1_def by (metis dvd_imp_le mod_0_imp_dvd)
      then have "l1 = 0 \<Longrightarrow> 10000 \<le> d" by simp
      then show ?thesis using a tm le C False ahead_add [OF c(2), of "min l1 99"] by (auto simp: min_def)
    qed
  qed
qed

section \<open>What the wheel operations keep\<close>

lemma unlink_wf: "wheel_wf X s \<Longrightarrow> wheel_wf (insert tk X) (unlink_timer tk s)"
  unfolding wheel_wf_def unlink_timer_def linked_def by (auto simp: distinct_removeAll)

lemma unlink_timing: "timing R t C s \<Longrightarrow> timing R t C (unlink_timer tk s)"
  by (auto simp: timing_def unlink_timer_def)

lemma unlink_id: "\<not> linked s tk \<Longrightarrow> unlink_timer tk s = s"
  unfolding linked_def unlink_timer_def by (simp add: removeAll_id)

lemma linked_armed: "wheel_wf X s \<Longrightarrow> linked s tk \<Longrightarrow> armed (tasks s tk) \<and> parent_thread (tasks s tk) \<noteq> None \<and> tk \<notin> X"
  unfolding wheel_wf_def linked_def by fastforce

lemma wf_slot:
  assumes "wheel_wf X s" "tk \<in> set (slots s a)"
  shows "armed (tasks s tk)" "parent_thread (tasks s tk) = Some (slot_thread a)" "slot_index a < 100" "tk \<notin> X" "linked s tk"
  using assms unfolding wheel_wf_def linked_def by blast+

lemma wf_distinct: "wheel_wf X s \<Longrightarrow> distinct (slots s a)"
  unfolding wheel_wf_def by blast

lemma wf_unique: "wheel_wf X s \<Longrightarrow> tk \<in> set (slots s a) \<Longrightarrow> tk \<in> set (slots s b) \<Longrightarrow> a = b"
  unfolding wheel_wf_def by blast

lemma upd_wf:
  assumes "wheel_wf X s" "\<not> linked s tk" "tk \<in> X \<or> \<not> armed (f (tasks s tk))"
  shows "wheel_wf X (upd_task tk f s)"
  using assms unfolding wheel_wf_def upd_task_def linked_def by auto

lemma upd_timing: "timing R t C s \<Longrightarrow> \<not> linked s tk \<Longrightarrow> timing R t C (upd_task tk f s)"
  by (auto simp: timing_def upd_task_def linked_def)

lemma unlinked [simp]: "\<not> linked (unlink_timer tk s) tk"
  by (simp add: linked_def unlink_timer_def)

lemma wf_weaken: "wheel_wf (insert tk X) s \<Longrightarrow> \<not> armed (tasks s tk) \<Longrightarrow> wheel_wf X s"
  unfolding wheel_wf_def by auto

lemma link_wf:
  assumes "wheel_wf {tk} s" "armed (tasks s tk)" "parent_thread (tasks s tk) = Some (slot_thread a)" "slot_index a < 100"
    "set xs = insert tk (set (slots s a))" "distinct xs"
  shows "wheel_wf {} (s\<lparr>slots := (slots s)(a := xs)\<rparr>)"
proof -
  have no: "tk \<notin> set (slots s b)" for b using assms(1) by (auto simp: wheel_wf_def)
  let ?s = "s\<lparr>slots := (slots s)(a := xs)\<rparr>"
  have mem: "x \<in> set (slots ?s b) \<longleftrightarrow> x \<in> set (slots s b) \<or> b = a \<and> x = tk" for x b using assms(5) by auto
  have 1: "\<forall>b. distinct (slots ?s b)" using assms(1,6) by (simp add: wheel_wf_def)
  have 2: "\<forall>b c x. x \<in> set (slots ?s b) \<longrightarrow> x \<in> set (slots ?s c) \<longrightarrow> b = c"
    unfolding mem using no assms(1) unfolding wheel_wf_def by blast
  have 3: "\<forall>b x. x \<in> set (slots ?s b) \<longrightarrow> armed (tasks s x) \<and> parent_thread (tasks s x) = Some (slot_thread b) \<and> slot_index b < 100"
    unfolding mem using assms(1-4) unfolding wheel_wf_def by blast
  have 4: "armed (tasks s x) \<longrightarrow> linked ?s x" for x
    unfolding linked_def mem using assms(1) unfolding wheel_wf_def linked_def by blast
  have 5: "\<forall>t. wheel0_cursor s t < 100 \<and> wheel1_cursor s t < 100" using assms(1) unfolding wheel_wf_def by blast
  have same: "tasks ?s = tasks s" "wheel0_cursor ?s = wheel0_cursor s" "wheel1_cursor ?s = wheel1_cursor s" by simp_all
  show ?thesis unfolding wheel_wf_def same using 1 2 3 4 5 by blast
qed

lemma link_timing:
  assumes "timing (insert tk R) t C s" "slot_thread a = t \<Longrightarrow> in_time C (wheel0_cursor s t) (wheel1_cursor s t) a (timeout (tasks s tk))"
    "set xs = insert tk (set (slots s a))" "\<not> linked s tk"
  shows "timing R t C (s\<lparr>slots := (slots s)(a := xs)\<rparr>)"
  using assms unfolding timing_def linked_def by (auto split: if_splits)

lemma placed:
  assumes wf: "wheel_wf {tk} s" and tm: "timing (insert tk R) t C s" and C: "C \<le> now"
    and k: "armed (tasks s tk)" "parent_thread (tasks s tk) = Some t"
  shows "wheel_wf {} (wheel_add_timer_at_locked t tk now s)" "timing R t C (wheel_add_timer_at_locked t tk now s)"
    "wheel_wf {} (wheel_requeue_timer_locked t tk now s)" "timing R t C (wheel_requeue_timer_locked t tk now s)"
proof -
  let ?a = "wheel_timer_slot t tk now s"
  note a = slot_placed [OF wf C, of t tk]
  have no: "distinct (slots s ?a)" "\<not> linked s tk" using wf by (auto simp: wheel_wf_def linked_def)
  then have "tk \<notin> set (slots s ?a)" by (simp add: linked_def)
  note no = no this
  show "wheel_wf {} (wheel_add_timer_at_locked t tk now s)"
    unfolding wheel_add_timer_at_locked_def Let_def by (rule link_wf [OF wf k(1)]) (use k a no in auto)
  show "wheel_wf {} (wheel_requeue_timer_locked t tk now s)"
    unfolding wheel_requeue_timer_locked_def Let_def by (rule link_wf [OF wf k(1)]) (use k a no in auto)
  show "timing R t C (wheel_add_timer_at_locked t tk now s)"
    unfolding wheel_add_timer_at_locked_def Let_def by (rule link_timing [OF tm]) (use a no in auto)
  show "timing R t C (wheel_requeue_timer_locked t tk now s)"
    unfolding wheel_requeue_timer_locked_def Let_def by (rule link_timing [OF tm]) (use a no in auto)
qed

lemma cascade_spec:
  assumes "wheel_wf {} s" "timing (set xs) t C s" "C \<le> now" "distinct xs"
    "\<forall>tk \<in> set xs. linked s tk \<and> parent_thread (tasks s tk) = Some t"
  shows "wheel_wf {} (cascade_loop t now xs s) \<and> timing {} t C (cascade_loop t now xs s)"
  using assms
proof (induction xs arbitrary: s)
  case (Cons tk xs)
  let ?u = "unlink_timer tk s"
  let ?s = "wheel_add_timer_at_locked t tk now ?u"
  have k: "armed (tasks ?u tk)" "parent_thread (tasks ?u tk) = Some t"
    using linked_armed [OF Cons.prems(1), of tk] Cons.prems(5) by (auto simp: unlink_timer_def)
  have wf: "wheel_wf {tk} ?u" by (rule unlink_wf [OF Cons.prems(1)])
  have tm: "timing (insert tk (set xs)) t C ?u" using unlink_timing [OF Cons.prems(2)] by simp
  note p = placed [OF wf tm Cons.prems(3) k]
  have "linked ?s x \<and> parent_thread (tasks ?s x) = Some t" if x: "x \<in> set xs" for x
  proof -
    obtain a where "x \<in> set (slots s a)" using Cons.prems(5) x by (auto simp: linked_def)
    then have "x \<in> set (slots ?s a)" using x Cons.prems(4)
      by (auto simp: wheel_add_timer_at_locked_def unlink_timer_def Let_def)
    then have "linked ?s x" unfolding linked_def by blast
    moreover have "tasks ?s = tasks s" by (simp add: wheel_add_timer_at_locked_def unlink_timer_def Let_def)
    ultimately show ?thesis using Cons.prems(5) x by simp
  qed
  then show ?case using Cons.IH [OF p(1,2) Cons.prems(3)] Cons.prems(4) by simp
qed simp

lemma cascade_frame:
  "wheel0_cursor (cascade_loop t now xs s) = wheel0_cursor s" "wheel1_cursor (cascade_loop t now xs s) = wheel1_cursor s"
  "tasks (cascade_loop t now xs s) = tasks s" "current_time_ms (cascade_loop t now xs s) = current_time_ms s"
  "last_timer_check_ms (cascade_loop t now xs s) = last_timer_check_ms s" "fired (cascade_loop t now xs s) = fired s"
  "world (cascade_loop t now xs s) = world s"
  by (induction xs arbitrary: s) (simp_all add: wheel_add_timer_at_locked_def unlink_timer_def Let_def)

lemma advance_frame:
  "tasks (wheel_advance t s) = tasks s" "current_time_ms (wheel_advance t s) = current_time_ms s"
  "last_timer_check_ms (wheel_advance t s) = last_timer_check_ms s" "fired (wheel_advance t s) = fired s"
  "world (wheel_advance t s) = world s"
  by (simp_all add: wheel_advance_def Let_def wheel_cascade_l1_def cascade_frame)

lemma wf_cursors:
  assumes "wheel_wf X s" "slots s' = slots s" "tasks s' = tasks s"
    "\<forall>t. wheel0_cursor s' t < 100 \<and> wheel1_cursor s' t < 100"
  shows "wheel_wf X s'"
proof -
  have "linked s' x = linked s x" for x using assms(2) by (simp add: linked_def)
  then show ?thesis using assms(1,4) unfolding wheel_wf_def assms(2,3) by blast
qed

text \<open>Turning to the next slot keeps all deadlines in reach, when the slot left behind is empty.\<close>

lemma wheel_advance_spec:
  assumes wf: "wheel_wf {} s" and tm: "timing {} t C s" and C: "Suc C \<le> current_time_ms s"
    and empty: "slots s (Wheel0 t (wheel0_cursor s t)) = []"
  shows "wheel_wf {} (wheel_advance t s) \<and> timing {} t (Suc C) (wheel_advance t s)"
proof -
  let ?c0 = "wheel0_cursor s t" and ?c1 = "wheel1_cursor s t"
  have c: "\<forall>u. wheel0_cursor s u < 100 \<and> wheel1_cursor s u < 100" using wf unfolding wheel_wf_def by blast
  then have c0: "?c0 < 100" "?c1 < 100" by blast+
  have ix: "slot_index a < 100" if "x \<in> set (slots s a)" for a x using wf that unfolding wheel_wf_def by blast
  have L0: "in_time (Suc C) ((?c0 + 1) mod 100) c' (Wheel0 t i) (timeout (tasks s x))"
    if "x \<in> set (slots s (Wheel0 t i))" for x i c'
  proof -
    have i: "i < 100" "i \<noteq> ?c0" using ix [OF that] that empty by auto
    have "C + ahead ?c0 i \<le> timeout (tasks s x)"
      using tm that i ahead_zero [OF c0(1) i(1)] by (fastforce simp: timing_def)
    then show ?thesis using ahead_next [OF c0(1) i] ahead_zero [OF c0(1) i(1)] i by simp
  qed
  have L1: "C + 100 * (if ahead ?c1 i = 0 then 100 else ahead ?c1 i) \<le> timeout (tasks s x) + ?c0"
    if "x \<in> set (slots s (Wheel1 t i))" for x i
    using tm that by (fastforce simp: timing_def)
  show ?thesis
  proof (cases "(?c0 + 1) mod 100 = 0")
    case False
    let ?s = "s\<lparr>wheel0_cursor := (wheel0_cursor s)(t := (?c0 + 1) mod 100)\<rparr>"
    have s: "wheel_advance t s = ?s" using False by (simp add: wheel_advance_def wheel_consts)
    have suc: "(?c0 + 1) mod 100 = ?c0 + 1" using c0 False by (cases "?c0 = 99") simp_all
    have "wheel_wf {} ?s" by (rule wf_cursors [OF wf]) (use c in auto)
    moreover have "timing {} t (Suc C) ?s"
      unfolding timing_def
    proof (intro allI impI)
      fix a x
      assume "x \<in> set (slots ?s a)" "slot_thread a = t"
      then show "in_time (Suc C) (wheel0_cursor ?s t) (wheel1_cursor ?s t) a (timeout (tasks ?s x))"
        using L0 [of x] L1 [of x] suc by (cases a) (auto simp del: in_time.simps(1))
    qed
    ultimately show ?thesis using s by simp
  next
    case True
    then have c99: "?c0 = 99" using c0 by (cases "?c0 < 99") simp_all
    let ?n1 = "(?c1 + 1) mod 100"
    let ?s = "s\<lparr>wheel0_cursor := (wheel0_cursor s)(t := 0), wheel1_cursor := (wheel1_cursor s)(t := ?n1)\<rparr>"
    let ?xs = "slots s (Wheel1 t ?n1)"
    have s: "wheel_advance t s = cascade_loop t (current_time_ms s) ?xs ?s"
      using True by (simp add: wheel_advance_def wheel_cascade_l1_def wheel_consts)
    have wf': "wheel_wf {} ?s" by (rule wf_cursors [OF wf]) (use c in auto)
    have "timing (set ?xs) t (Suc C) ?s"
      unfolding timing_def
    proof (intro allI impI)
      fix a x
      assume x: "x \<in> set (slots ?s a)" "slot_thread a = t" "x \<notin> set ?xs"
      show "in_time (Suc C) (wheel0_cursor ?s t) (wheel1_cursor ?s t) a (timeout (tasks ?s x))"
      proof (cases a)
        case (Wheel0 u i)
        then show ?thesis using L0 [of x i ?n1] x True by simp
      next
        case (Wheel1 u i)
        have i: "i < 100" "i \<noteq> ?n1" using ix [of x a] x Wheel1 by auto
        have "Suc C + 100 * ahead ?n1 i \<le> timeout (tasks s x) \<and> ahead ?n1 i \<noteq> 0"
          using L1 [of x i] x Wheel1 i c0 c99 ahead_next [of ?c1 i] ahead_zero [of ?n1 i] ahead_zero [of ?c1 i]
          by (cases "i = ?c1") (auto simp: ahead_def mod_if split: if_splits)
        then show ?thesis using Wheel1 by simp
      qed
    qed
    moreover have "\<forall>x \<in> set ?xs. linked ?s x \<and> parent_thread (tasks ?s x) = Some t" "distinct ?xs"
      using wf_slot(2,5) [OF wf'] wf_distinct [OF wf] by simp_all
    ultimately show ?thesis using s cascade_spec [OF wf', of ?xs t "Suc C" "current_time_ms s"] C by simp
  qed
qed

end
