(* ===== verification/TimerPass.thy ===== *)
theory TimerPass
  imports TimerWheel
begin

text \<open>
  Passes over the timers, from \<^verbatim>\<open>src/lib/thread.c\<close>: whatever the callbacks register, release or free, a pass
  fires no timer before its deadline and leaves no timer behind whose deadline has passed, however long the thread
  was away; and a pass ends, when the callbacks do not keep arming timers that are due at once. The locale
  \<open>alarm_service\<close> is what a client of the wheel relies on.
\<close>

section \<open>Callbacks\<close>

fun op_task :: "task_op \<Rightarrow> nat" where
  "op_task (Arm t tk time) = tk"
| "op_task (Disarm tk) = tk"
| "op_task (Destroy tk) = tk"

text \<open>
  A callback that runs on thread \<open>t\<close> works on tasks that are not freed, and arms timers on its own thread. It may rely
  on, and keeps, an invariant \<open>I\<close> of its memory and of which tasks exist.
\<close>

fun op_ok :: "nat \<Rightarrow> task_op \<Rightarrow> 'w threads \<Rightarrow> bool" where
  "op_ok t (Arm u tk time) s = (u = t \<and> task_live (tasks s tk) \<and> task_type (tasks s tk) = TASK_TYPE_TIMER)"
| "op_ok t (Disarm tk) s = task_live (tasks s tk)"
| "op_ok t (Destroy tk) s = task_live (tasks s tk)"

fun ops_ok :: "nat \<Rightarrow> task_op list \<Rightarrow> 'w threads \<Rightarrow> bool" where
  "ops_ok t [] s = True"
| "ops_ok t (op # ops) s = (op_ok t op s \<and> ops_ok t ops (run_op op s))"

type_synonym 'w ownership = "(nat \<Rightarrow> bool \<times> task_type) \<Rightarrow> 'w \<Rightarrow> bool"

definition owned :: "'w ownership \<Rightarrow> 'w threads \<Rightarrow> bool" where
  "owned I s \<longleftrightarrow> I (\<lambda>tk. (task_live (tasks s tk), task_type (tasks s tk))) (world s)"

definition callback_ok :: "nat \<Rightarrow> 'w ownership \<Rightarrow> 'w callback \<Rightarrow> bool" where
  "callback_ok t I cb \<longleftrightarrow>
     (\<forall>tk s. wheel_wf {} s \<longrightarrow> owned I s \<longrightarrow>
        ops_ok t (fst (cb tk s)) (s\<lparr>world := snd (cb tk s)\<rparr>) \<and> owned I (call_timer cb tk s))"

lemma owned_same:
  "world s' = world s \<Longrightarrow> (\<And>x. task_live (tasks s' x) = task_live (tasks s x) \<and> task_type (tasks s' x) = task_type (tasks s x)) \<Longrightarrow>
   owned I s' = owned I s"
  by (simp add: owned_def)

definition spares :: "nat set \<Rightarrow> 'w callback \<Rightarrow> bool" where
  "spares U cb \<longleftrightarrow> (\<forall>tk s. \<forall>op \<in> set (fst (cb tk s)). op_task op \<notin> U)"

lemma arm_eq:
  assumes wf: "wheel_wf {} s" and ty: "task_type (tasks s tk) = TASK_TYPE_TIMER"
  shows "run_op (Arm t tk time) s =
    wheel_add_timer_at_locked t tk (current_time_ms s)
      (upd_task tk (\<lambda>k. k\<lparr>timeout := time, registered := True, parent_thread := Some t\<rparr>) (unlink_timer tk s))"
proof -
  have "\<not> registered (tasks s tk) \<Longrightarrow> \<not> linked s tk" using linked_armed [OF wf] by (auto simp: armed_def)
  then have "\<not> registered (tasks s tk) \<Longrightarrow> unlink_timer tk s = s" by (rule unlink_id)
  then show ?thesis
    using ty by (cases "registered (tasks s tk)")
      (simp_all add: update_task_timer_def register_task_def register_timer_def wheel_remove_timer_def
        wheel_add_timer_def upd_task_def unlink_timer_def Let_def)
qed

text \<open>Operations that keep the cursors, the clock, the log of fired timers and the callbacks' memory.\<close>

definition same_clock :: "'w threads \<Rightarrow> 'w threads \<Rightarrow> bool" where
  "same_clock s s' \<longleftrightarrow> wheel0_cursor s' = wheel0_cursor s \<and> wheel1_cursor s' = wheel1_cursor s \<and>
     current_time_ms s' = current_time_ms s \<and> last_timer_check_ms s' = last_timer_check_ms s"

lemma unregister_cases:
  "unregister_task tk s = s \<and> \<not> registered (tasks s tk) \<or>
   (\<exists>s'. unregister_task tk s = upd_task tk (\<lambda>k. k\<lparr>registered := False, parent_thread := None\<rparr>) s' \<and>
      slots s' = slots s \<and> tasks s' = tasks s \<and> same_clock s s' \<and> fired s' = fired s \<and> world s' = world s \<and>
      (task_type (tasks s tk) = TASK_TYPE_TIMER \<longrightarrow> parent_thread (tasks s tk) = None)) \<or>
   unregister_task tk s = s \<and> task_type (tasks s tk) = TASK_TYPE_LOOP \<or>
   unregister_task tk s = upd_task tk (\<lambda>k. k\<lparr>registered := False, parent_thread := None\<rparr>) (unlink_timer tk s)"
  by (cases "task_type (tasks s tk)")
    (auto simp: unregister_task_def unregister_loop_task_def wheel_remove_timer_def epoll_del_def syscall_def Let_def
      same_clock_def split: option.splits list.splits)

lemma disarm_spec:
  assumes wf: "wheel_wf {} s" and tm: "timing {} t C s"
  shows "wheel_wf {} (unregister_task tk s) \<and> timing {} t C (unregister_task tk s) \<and>
    \<not> linked (unregister_task tk s) tk"
proof -
  let ?f = "\<lambda>k :: task. k\<lparr>registered := False, parent_thread := None\<rparr>"
  consider (a) "unregister_task tk s = s" "\<not> armed (tasks s tk)"
    | (b) s' where "unregister_task tk s = upd_task tk ?f s'" "slots s' = slots s" "tasks s' = tasks s" "same_clock s s'"
        "task_type (tasks s tk) = TASK_TYPE_TIMER \<Longrightarrow> parent_thread (tasks s tk) = None"
    | (c) "unregister_task tk s = upd_task tk ?f (unlink_timer tk s)"
    using unregister_cases [of tk s] by (auto simp: armed_def)
  then show ?thesis
  proof cases
    case a
    then show ?thesis using wf tm linked_armed [OF wf] by auto
  next
    case b
    have no: "\<not> linked s tk" using linked_armed [OF wf, of tk] b(5) by (auto simp: armed_def)
    then have no': "\<not> linked s' tk" using b(2) by (simp add: linked_def)
    have wf': "wheel_wf {} s'"
      by (rule wf_cursors [OF wf b(2,3)]) (use b(4) wf in \<open>auto simp: same_clock_def wheel_wf_def\<close>)
    have tm': "timing {} t C s'" using tm b(2-4) by (simp add: timing_def same_clock_def)
    show ?thesis
      unfolding b(1) using upd_wf [OF wf' no', of ?f] upd_timing [OF tm' no'] no'
      by (simp add: armed_def linked_def upd_task_def)
  next
    case c
    have "wheel_wf {tk} (upd_task tk ?f (unlink_timer tk s))"
      by (rule upd_wf [OF unlink_wf [OF wf]]) simp_all
    then have "wheel_wf {} (upd_task tk ?f (unlink_timer tk s))"
      by (rule wf_weaken) (simp add: armed_def upd_task_def)
    then show ?thesis
      unfolding c using upd_timing [OF unlink_timing [OF tm], of tk tk] by (simp add: linked_def upd_task_def unlink_timer_def)
  qed
qed

lemma run_op_spec:
  assumes wf: "wheel_wf {} s" and tm: "timing {} t C s" and C: "C \<le> current_time_ms s" and ok: "op_ok t op s"
  shows "wheel_wf {} (run_op op s) \<and> timing {} t C (run_op op s)"
proof (cases op)
  case (Arm u tk time)
  let ?u = "upd_task tk (\<lambda>k. k\<lparr>timeout := time, registered := True, parent_thread := Some t\<rparr>) (unlink_timer tk s)"
  have k: "u = t" "armed (tasks ?u tk)" "parent_thread (tasks ?u tk) = Some t"
    using ok Arm by (auto simp: armed_def upd_task_def unlink_timer_def)
  have "wheel_wf {tk} ?u" by (rule upd_wf [OF unlink_wf [OF wf]]) simp_all
  moreover have "timing (insert tk {}) t C ?u"
    by (rule timing_mono [OF upd_timing [OF unlink_timing [OF tm]]]) simp_all
  moreover have "C \<le> current_time_ms s" by (rule C)
  ultimately show ?thesis
    using placed(1,2) [of tk ?u "{}" t C "current_time_ms s"] k arm_eq [OF wf, of tk t time] ok Arm by simp
next
  case (Disarm tk)
  then show ?thesis using disarm_spec [OF wf tm] by simp
next
  case (Destroy tk)
  note d = disarm_spec [OF wf tm, of tk]
  show ?thesis
    using Destroy d upd_wf [of "{}" "unregister_task tk s" tk "\<lambda>k. k\<lparr>task_live := False\<rparr>"]
      upd_timing [of "{}" t C "unregister_task tk s" tk] by (simp add: destroy_task_def armed_def)
qed

definition touches :: "nat \<Rightarrow> 'w threads \<Rightarrow> 'w threads \<Rightarrow> bool" where
  "touches x s s' \<longleftrightarrow> same_clock s s' \<and> fired s' = fired s \<and> world s' = world s \<and> (\<forall>y. y \<noteq> x \<longrightarrow> tasks s' y = tasks s y)"

lemma touches_trans: "touches x s s' \<Longrightarrow> touches x s' s'' \<Longrightarrow> touches x s s''"
  by (simp add: touches_def same_clock_def)

lemma touches_basic:
  "touches x s s" "touches x s (upd_task x f s)" "touches x s (unlink_timer x s)" "touches x s (epoll_set_events t x s)"
  "touches x s (snd (syscall s))" "touches x s (epoll_del p fd s)" "touches x s (snd (set_fd_nonblock fd s))"
  "touches x s (wheel_add_timer_at_locked t x now s)" "touches x s (s\<lparr>loop_tasks := l\<rparr>)"
  by (auto simp: touches_def same_clock_def upd_task_def unlink_timer_def epoll_set_events_def syscall_def epoll_del_def
      set_fd_nonblock_def wheel_add_timer_at_locked_def Let_def split: option.splits list.splits)

lemma touches_syscall: "syscall s = (ok, s') \<Longrightarrow> touches x s s'"
  using touches_basic(5) [of x s] by simp

lemma touches_fd:
  "touches x s (snd (update_fd_task t x s))" "touches x s (snd (add_fd_task t x s))"
proof -
  have e: "touches x s' (upd_task x f (epoll_set_events t x s'))" for f s'
    by (rule touches_trans [OF touches_basic(4) touches_basic(2)])
  have *: "touches x s s' \<Longrightarrow> touches x s (snd (case syscall s' of (ok, s) \<Rightarrow>
             if \<not> ok then (- 1 :: int, s) else (0, upd_task x f (epoll_set_events t x s))))" for f s'
    using touches_trans [OF _ touches_trans [OF touches_syscall e]] touches_trans [OF _ touches_syscall]
    by (auto split: prod.splits)
  show "touches x s (snd (update_fd_task t x s))"
    using * [OF touches_basic(1)] * [OF touches_basic(6)] touches_basic(1) [of x s] by (simp add: update_fd_task_def Let_def)
  obtain ret s' where n: "set_fd_nonblock (task_fd (tasks s x)) s = (ret, s')" by (cases "set_fd_nonblock (task_fd (tasks s x)) s")
  have "touches x s s'" using touches_basic(7) [of x s "task_fd (tasks s x)"] n by simp
  then show "touches x s (snd (add_fd_task t x s))" using * n by (simp add: add_fd_task_def)
qed

lemma touches_register: "touches x s (snd (register_task t x s))"
proof -
  have t: "touches x s (register_timer t x s)"
    unfolding register_timer_def wheel_add_timer_def wheel_remove_timer_def Let_def
    by (auto intro: touches_trans [OF touches_trans [OF touches_basic(3) touches_basic(2)] touches_basic(8)]
        touches_trans [OF touches_basic(2) touches_basic(8)] touches_basic(2) touches_trans [OF touches_basic(3) touches_basic(2)])
  have l: "touches x s' ((upd_task x f s')\<lparr>loop_tasks := l\<rparr>)" for f s' l
    by (rule touches_trans [OF touches_basic(2) touches_basic(9)])
  have u: "touches x s (unregister_loop_task x s)"
    using touches_trans [OF touches_basic(9) touches_basic(2)] touches_basic(1)
    by (auto simp: unregister_loop_task_def split: option.splits)
  show ?thesis
    using t touches_fd [of x s t] l [of s] touches_trans [OF u l] touches_basic(1) [of x s]
    by (simp add: register_task_def Let_def)
qed

lemma touches_run_op: "touches (op_task op) s (run_op op s)"
proof -
  have u: "touches x s (unregister_task x s)" for x
    using unregister_cases [of x s] by (auto simp: touches_def upd_task_def unlink_timer_def same_clock_def)
  show ?thesis
    by (cases op) (simp_all add: u update_task_timer_def touches_trans [OF touches_basic(2) touches_register]
        destroy_task_def touches_trans [OF u touches_basic(2)])
qed

lemma run_op_frame:
  "same_clock s (run_op op s)" "fired (run_op op s) = fired s" "world (run_op op s) = world s"
  "tk \<noteq> op_task op \<Longrightarrow> tasks (run_op op s) tk = tasks s tk"
  using touches_run_op [of op s] by (auto simp: touches_def)

lemma run_ops_spec:
  assumes "wheel_wf {} s" "timing {} t C s" "C \<le> current_time_ms s" "ops_ok t ops s"
  shows "wheel_wf {} (fold run_op ops s) \<and> timing {} t C (fold run_op ops s)"
  using assms
proof (induction ops arbitrary: s)
  case (Cons op ops)
  then show ?case using run_op_spec [OF Cons.prems(1-3), of op] run_op_frame(1) [of s op] by (simp add: same_clock_def)
qed simp

lemma run_ops_frame:
  "same_clock s (fold run_op ops s) \<and> fired (fold run_op ops s) = fired s \<and> world (fold run_op ops s) = world s \<and>
   (tk \<notin> op_task ` set ops \<longrightarrow> tasks (fold run_op ops s) tk = tasks s tk)"
proof (induction ops arbitrary: s)
  case (Cons op ops)
  then show ?case using Cons.IH [of "run_op op s"] run_op_frame [where s = s and op = op] by (auto simp: same_clock_def)
qed (simp add: same_clock_def)

section \<open>A timer pass\<close>

text \<open>
  What a pass does for the timers \<open>U\<close> that the callbacks leave alone: the fired timers were due, and a timer of \<open>U\<close>
  is as it was or has fired.
\<close>

definition passage :: "nat set \<Rightarrow> nat \<Rightarrow> 'w threads \<Rightarrow> 'w threads \<Rightarrow> bool" where
  "passage U now s s' \<longleftrightarrow> current_time_ms s' = current_time_ms s \<and> last_timer_check_ms s' = last_timer_check_ms s \<and>
     (\<exists>new. fired s' = new @ fired s \<and> (\<forall>p \<in> set new. snd p \<le> now) \<and>
        (\<forall>tk \<in> U. tasks s' tk = tasks s tk \<or> (tk, timeout (tasks s tk)) \<in> set new))"

lemma passage_refl: "tasks s' = tasks s \<Longrightarrow> fired s' = fired s \<Longrightarrow> current_time_ms s' = current_time_ms s \<Longrightarrow>
    last_timer_check_ms s' = last_timer_check_ms s \<Longrightarrow> passage U now s s'"
  by (simp add: passage_def)

lemma passage_trans:
  assumes "passage U now s s'" "passage U now s' s''"
  shows "passage U now s s''"
proof -
  obtain xs where xs: "fired s' = xs @ fired s" "\<forall>p \<in> set xs. snd p \<le> now"
    "\<forall>tk \<in> U. tasks s' tk = tasks s tk \<or> (tk, timeout (tasks s tk)) \<in> set xs" using assms(1) by (auto simp: passage_def)
  obtain ys where ys: "fired s'' = ys @ fired s'" "\<forall>p \<in> set ys. snd p \<le> now"
    "\<forall>tk \<in> U. tasks s'' tk = tasks s' tk \<or> (tk, timeout (tasks s' tk)) \<in> set ys" using assms(2) by (auto simp: passage_def)
  have "\<forall>tk \<in> U. tasks s'' tk = tasks s tk \<or> (tk, timeout (tasks s tk)) \<in> set (ys @ xs)"
  proof
    fix tk
    assume "tk \<in> U"
    then show "tasks s'' tk = tasks s tk \<or> (tk, timeout (tasks s tk)) \<in> set (ys @ xs)"
      using xs(3) ys(3) by (cases "tasks s' tk = tasks s tk") auto
  qed
  then have "\<exists>new. fired s'' = new @ fired s \<and> (\<forall>p \<in> set new. snd p \<le> now) \<and>
      (\<forall>tk \<in> U. tasks s'' tk = tasks s tk \<or> (tk, timeout (tasks s tk)) \<in> set new)"
    using xs(1,2) ys(1,2) by (intro exI [of _ "ys @ xs"]) auto
  then show ?thesis using assms by (simp add: passage_def)
qed

lemma fire_spec:
  assumes wf: "wheel_wf {tk} s" and tm: "timing {} t C s" and C: "C \<le> current_time_ms s" and cb: "callback_ok t I cb"
    and own: "owned I s" and sp: "spares U cb" and due: "timeout (tasks s tk) \<le> now" and f: "fire_timer_task cb tk now s = (n, s')"
  shows "wheel_wf {} s' \<and> timing {} t C s' \<and> passage U now s s' \<and> owned I s' \<and>
    wheel0_cursor s' = wheel0_cursor s \<and> wheel1_cursor s' = wheel1_cursor s"
proof -
  let ?s = "upd_task tk (\<lambda>k. k\<lparr>registered := False\<rparr>) (s\<lparr>fired := (tk, timeout (tasks s tk)) # fired s\<rparr>)"
  have no: "\<not> linked s tk" using linked_armed [OF wf] by blast
  have "wheel_wf {tk} (s\<lparr>fired := (tk, timeout (tasks s tk)) # fired s\<rparr>)"
    by (rule wf_cursors [OF wf]) (use wf in \<open>auto simp: wheel_wf_def\<close>)
  then have "wheel_wf {tk} ?s" by (rule upd_wf) (use no in \<open>simp_all add: linked_def\<close>)
  then have wf1: "wheel_wf {} ?s" by (rule wf_weaken) (simp add: armed_def upd_task_def)
  have tm1: "timing {} t C ?s"
    by (rule upd_timing) (use tm no in \<open>simp_all add: timing_def linked_def\<close>)
  have p1: "passage U now s ?s"
    using due unfolding passage_def by (intro conjI exI [of _ "[(tk, timeout (tasks s tk))]"]) (auto simp: upd_task_def)
  have cs: "wheel0_cursor ?s = wheel0_cursor s" "wheel1_cursor ?s = wheel1_cursor s" "current_time_ms ?s = current_time_ms s"
    by (simp_all add: upd_task_def)
  have own1: "owned I ?s" using own by (subst owned_same [of _ s]) (simp_all add: upd_task_def)
  show ?thesis
  proof (cases "cb_timer (tasks ?s tk)")
    case False
    then have "s' = ?s" using f due by (simp add: fire_timer_task_def Let_def)
    then show ?thesis using wf1 tm1 p1 cs own1 by simp
  next
    case True
    obtain ops w where c: "cb tk ?s = (ops, w)" by (cases "cb tk ?s")
    let ?w = "?s\<lparr>world := w\<rparr>"
    have s': "s' = fold run_op ops ?w" using f due True c by (simp add: fire_timer_task_def Let_def call_timer_def)
    have ok: "ops_ok t ops ?w" using cb wf1 own1 c unfolding callback_ok_def by (metis fst_conv snd_conv)
    have "owned I (call_timer cb tk ?s)" using cb wf1 own1 unfolding callback_ok_def by blast
    then have own2: "owned I s'" using c s' by (simp add: call_timer_def)
    have wf2: "wheel_wf {} ?w" by (rule wf_cursors [OF wf1]) (use wf1 in \<open>auto simp: wheel_wf_def\<close>)
    have tm2: "timing {} t C ?w" using tm1 by (simp add: timing_def)
    have fr: "same_clock ?w s'" "fired s' = fired ?s" "x \<notin> op_task ` set ops \<Longrightarrow> tasks s' x = tasks ?s x" for x
      using run_ops_frame [of ?w ops x] s' by auto
    have "x \<in> U \<Longrightarrow> x \<notin> op_task ` set ops" for x using sp c unfolding spares_def by (metis fst_conv imageE)
    then have "passage U now ?s s'" using fr by (auto simp: passage_def same_clock_def upd_task_def)
    then show ?thesis
      using run_ops_spec [OF wf2 tm2 _ ok] C cs s' fr(1) passage_trans [OF p1] own2 by (simp add: same_clock_def)
  qed
qed

definition slot_done :: "nat set \<Rightarrow> nat \<Rightarrow> 'w ownership \<Rightarrow> 'w callback \<Rightarrow> nat \<Rightarrow> nat \<Rightarrow> 'w threads \<Rightarrow> nat \<times> 'w threads \<Rightarrow> bool" where
  "slot_done U C I cb t now s r \<longleftrightarrow>
     (callback_ok t I cb \<longrightarrow> owned I s \<longrightarrow> spares U cb \<longrightarrow> wheel_wf {} s \<longrightarrow> timing {} t C s \<longrightarrow> C \<le> now \<longrightarrow> now = current_time_ms s \<longrightarrow>
      wheel_wf {} (snd r) \<and> timing {} t C (snd r) \<and> passage U now s (snd r) \<and> owned I (snd r) \<and>
      wheel0_cursor (snd r) = wheel0_cursor s \<and> wheel1_cursor (snd r) = wheel1_cursor s \<and>
      slots (snd r) (Wheel0 t (wheel0_cursor s t)) = [])"

lemma process_slot_step:
  assumes ih: "\<And>do_sum s r. process cb t now do_sum s = Some r \<Longrightarrow> slot_done U C I cb t now s r"
    and step: "(case slots s (Wheel0 t (wheel0_cursor s t)) of
        [] \<Rightarrow> Some (do_sum, s)
      | tk # _ \<Rightarrow>
          let s = unlink_timer tk s
          in if timeout (tasks s tk) > now
             then process cb t now do_sum (wheel_requeue_timer_locked t tk now s)
             else case fire_timer_task cb tk now s of (n, s) \<Rightarrow> process cb t now (do_sum + n) s) = Some r"
  shows "slot_done U C I cb t now s r"
  unfolding slot_done_def
proof (intro impI)
  assume cb: "callback_ok t I cb" "owned I s" "spares U cb" and wf0: "wheel_wf {} s" and tm0: "timing {} t C s"
    and C: "C \<le> now" and now: "now = current_time_ms s"
  let ?a = "Wheel0 t (wheel0_cursor s t)"
  show "wheel_wf {} (snd r) \<and> timing {} t C (snd r) \<and> passage U now s (snd r) \<and> owned I (snd r) \<and>
    wheel0_cursor (snd r) = wheel0_cursor s \<and> wheel1_cursor (snd r) = wheel1_cursor s \<and> slots (snd r) ?a = []"
  proof (cases "slots s ?a")
    case Nil
    then show ?thesis using step wf0 tm0 cb(2) passage_refl [of s s] by auto
  next
    case (Cons tk rest)
    let ?u = "unlink_timer tk s"
    have mem: "tk \<in> set (slots s ?a)" using Cons by simp
    have same: "tasks ?u = tasks s" "current_time_ms ?u = current_time_ms s" "wheel0_cursor ?u = wheel0_cursor s"
      "wheel1_cursor ?u = wheel1_cursor s" "last_timer_check_ms ?u = last_timer_check_ms s" "fired ?u = fired s"
      by (simp_all add: unlink_timer_def)
    have k: "armed (tasks ?u tk)" "parent_thread (tasks ?u tk) = Some t" using wf_slot [OF wf0 mem] same by simp_all
    have wf: "wheel_wf {tk} ?u" by (rule unlink_wf [OF wf0])
    have tm: "timing {} t C ?u" by (rule unlink_timing [OF tm0])
    have pu: "passage U now s ?u" by (rule passage_refl) (simp_all add: same)
    show ?thesis
    proof (cases "now < timeout (tasks ?u tk)")
      case True
      let ?q = "wheel_requeue_timer_locked t tk now ?u"
      have fq: "wheel0_cursor ?q = wheel0_cursor s" "wheel1_cursor ?q = wheel1_cursor s" "current_time_ms ?q = current_time_ms s"
        by (simp_all add: wheel_requeue_timer_locked_def Let_def same)
      have pq: "passage U now s ?q"
        by (rule passage_refl) (simp_all add: wheel_requeue_timer_locked_def Let_def same)
      note q = placed(3,4) [OF wf timing_mono [OF tm, of "insert tk {}"] C k]
      have "process cb t now do_sum ?q = Some r" using step Cons True by (simp add: Let_def)
      moreover have "owned I ?q" using cb(2) by (subst owned_same [of _ s]) (simp_all add: wheel_requeue_timer_locked_def unlink_timer_def Let_def)
      ultimately have "slot_done U C I cb t now ?q r" "owned I ?q" using ih by blast+
      with q fq cb C now
      show ?thesis using passage_trans [OF pq] by (simp add: slot_done_def)
    next
      case False
      obtain n s' where f: "fire_timer_task cb tk now ?u = (n, s')" by (cases "fire_timer_task cb tk now ?u")
      have "owned I ?u" using cb(2) by (subst owned_same [of _ s]) (simp_all add: unlink_timer_def)
      note g = fire_spec [OF wf tm _ cb(1) this cb(3) _ f]
      have "process cb t now (do_sum + n) s' = Some r" using step Cons False f by (simp add: Let_def)
      note ih = ih [OF this]
      have g': "wheel_wf {} s' \<and> timing {} t C s' \<and> passage U now ?u s' \<and> owned I s' \<and> wheel0_cursor s' = wheel0_cursor ?u \<and> wheel1_cursor s' = wheel1_cursor ?u"
        by (rule g) (use C now same False in auto)
      then have "current_time_ms s' = current_time_ms s" using same by (simp add: passage_def)
      then show ?thesis using ih g' now cb C same passage_trans [OF pu passage_trans, of s'] by (auto simp: slot_done_def)
    qed
  qed
qed

lemma process_slot_spec:
  "process_current_timer_slot cb t now do_sum s = Some r \<Longrightarrow> slot_done U C I cb t now s r"
  by (erule process_current_timer_slot.raw_induct [where P = "\<lambda>cb t now do_sum s r. slot_done U C I cb t now s r", rotated])
    (rule process_slot_step)

lemma tick_loop_spec:
  assumes "tick_loop cb t now n do_sum s = Some r" "callback_ok t I cb" "owned I s" "spares U cb" "wheel_wf {} s" "timing {} t C s"
    "C + n = now" "now = current_time_ms s" "slots s (Wheel0 t (wheel0_cursor s t)) = []"
  shows "wheel_wf {} (snd r) \<and> timing {} t now (snd r) \<and> passage U now s (snd r) \<and> owned I (snd r) \<and>
    slots (snd r) (Wheel0 t (wheel0_cursor (snd r) t)) = []"
  using assms
proof (induction n arbitrary: do_sum s C)
  case 0
  then show ?case using passage_refl [of s s] by auto
next
  case (Suc n)
  let ?s = "wheel_advance t s"
  obtain d s' where p: "process_current_timer_slot cb t now do_sum ?s = Some (d, s')"
    and l: "tick_loop cb t now n d s' = Some r" using Suc.prems(1) by (auto split: option.splits)
  have a: "wheel_wf {} ?s \<and> timing {} t (Suc C) ?s" by (rule wheel_advance_spec) (use Suc.prems in auto)
  have "slot_done U (Suc C) I cb t now ?s (d, s')" by (rule process_slot_spec [OF p])
  moreover have "owned I ?s" using Suc.prems(3) by (subst owned_same [of _ s]) (simp_all add: advance_frame)
  ultimately have q: "wheel_wf {} s'" "timing {} t (Suc C) s'" "passage U now ?s s'" "owned I s'"
    "slots s' (Wheel0 t (wheel0_cursor s' t)) = []"
    using a Suc.prems(2,4,7,8) advance_frame(2) [of t s] by (auto simp: slot_done_def)
  have pa: "passage U now s ?s" by (rule passage_refl) (simp_all add: advance_frame)
  have "current_time_ms s' = current_time_ms s" using q(3) pa by (simp add: passage_def)
  then show ?case
    using Suc.IH [OF l Suc.prems(2) q(4) Suc.prems(4) q(1,2)] Suc.prems(7,8) q(5) passage_trans [OF pa passage_trans [OF q(3)]] by auto
qed

lemma pending_future:
  assumes wf: "wheel_wf {} s" and tm: "timing {} t now s" and empty: "slots s (Wheel0 t (wheel0_cursor s t)) = []"
    and k: "armed (tasks s tk)" "parent_thread (tasks s tk) = Some t"
  shows "now < timeout (tasks s tk)"
proof -
  have c: "wheel0_cursor s t < 100" "wheel1_cursor s t < 100" using wf unfolding wheel_wf_def by blast+
  have "linked s tk" using wf k(1) unfolding wheel_wf_def by blast
  then obtain a where a: "tk \<in> set (slots s a)" by (auto simp: linked_def)
  have t: "slot_thread a = t" "slot_index a < 100" using wf_slot [OF wf a] k(2) by auto
  have i: "in_time now (wheel0_cursor s t) (wheel1_cursor s t) a (timeout (tasks s tk))"
    using tm a t(1) unfolding timing_def by blast
  show ?thesis
  proof (cases a)
    case (Wheel0 u i)
    then have "ahead (wheel0_cursor s t) i \<noteq> 0" using a empty t ahead_zero [OF c(1), of i] by auto
    then show ?thesis using \<open>in_time _ _ _ _ _\<close> Wheel0 by auto
  next
    case (Wheel1 u i)
    then show ?thesis using \<open>in_time _ _ _ _ _\<close> c(1) by (auto split: if_splits)
  qed
qed

lemma do_timer_tasks_spec:
  assumes wf: "wheel_wf {} s" and tm: "timing {} t (last_timer_check_ms s t) s"
    and clock: "last_timer_check_ms s t \<le> current_time_ms s" "current_time_ms s < 2 ^ 64"
    and cb: "callback_ok t I cb" "owned I s" "spares U cb" and d: "do_timer_tasks cb t s = Some (n, s')"
  shows "wheel_wf {} s'" "timing {} t (current_time_ms s) s'" "last_timer_check_ms s' t = current_time_ms s"
    "current_time_ms s' = current_time_ms s" "owned I s'"
    "\<And>tk. armed (tasks s' tk) \<Longrightarrow> parent_thread (tasks s' tk) = Some t \<Longrightarrow> current_time_ms s < timeout (tasks s' tk)"
    "\<exists>new. fired s' = new @ fired s \<and> (\<forall>p \<in> set new. snd p \<le> current_time_ms s) \<and>
       (\<forall>tk \<in> U. tasks s' tk = tasks s tk \<or> (tk, timeout (tasks s tk)) \<in> set new)"
proof -
  let ?now = "current_time_ms s" and ?last = "last_timer_check_ms s t"
  have e: "(?now + 2 ^ 64 - ?last) mod 2 ^ 64 = ?now - ?last"
    using clock by (simp add: Nat.diff_add_assoc2 [symmetric] mod_if)
  obtain d1 s1 where p: "process_current_timer_slot cb t ?now 0 s = Some (d1, s1)"
    and x: "\<exists>d2 s2. tick_loop cb t ?now (?now - ?last) d1 s1 = Some (d2, s2) \<and>
       s' = s2\<lparr>last_timer_check_ms := (last_timer_check_ms s2)(t := last_timer_check_ms s2 t + (?now - ?last))\<rparr>"
    using d unfolding do_timer_tasks_def Let_def e wheel_consts by (auto split: option.splits)
  then obtain d2 s2 where l: "tick_loop cb t ?now (?now - ?last) d1 s1 = Some (d2, s2)"
    and s': "s' = s2\<lparr>last_timer_check_ms := (last_timer_check_ms s2)(t := last_timer_check_ms s2 t + (?now - ?last))\<rparr>" by blast
  have q: "wheel_wf {} s1" "timing {} t ?last s1" "passage U ?now s s1" "slots s1 (Wheel0 t (wheel0_cursor s1 t)) = []" "owned I s1"
    using process_slot_spec [OF p, of U ?last I] wf tm clock cb by (auto simp: slot_done_def)
  have "wheel_wf {} s2 \<and> timing {} t ?now s2 \<and> passage U ?now s1 s2 \<and> owned I s2 \<and> slots s2 (Wheel0 t (wheel0_cursor s2 t)) = []"
    using tick_loop_spec [OF l cb(1) q(5) cb(3) q(1,2) _ _ q(4)] clock q(3) by (simp add: passage_def)
  then have r: "wheel_wf {} s2" "timing {} t ?now s2" "passage U ?now s s2" "owned I s2" "slots s2 (Wheel0 t (wheel0_cursor s2 t)) = []"
    using passage_trans [OF q(3)] by blast+
  show wf': "wheel_wf {} s'" by (rule wf_cursors [OF r(1)]) (use r(1) s' in \<open>auto simp: wheel_wf_def\<close>)
  show tm': "timing {} t ?now s'" using r(2) s' by (simp add: timing_def)
  show "last_timer_check_ms s' t = ?now" "current_time_ms s' = ?now" using r(3) s' clock by (simp_all add: passage_def)
  show "owned I s'" using r(4) s' by (simp add: owned_def)
  show "\<And>tk. armed (tasks s' tk) \<Longrightarrow> parent_thread (tasks s' tk) = Some t \<Longrightarrow> ?now < timeout (tasks s' tk)"
    by (rule pending_future [OF wf' tm']) (use r(5) s' in simp_all)
  show "\<exists>new. fired s' = new @ fired s \<and> (\<forall>p \<in> set new. snd p \<le> ?now) \<and>
       (\<forall>tk \<in> U. tasks s' tk = tasks s tk \<or> (tk, timeout (tasks s tk)) \<in> set new)"
    using r(3) s' by (simp add: passage_def)
qed

section \<open>Passes end\<close>

text \<open>
  The callbacks make progress: measured by \<open>\<mu>\<close> on their memory, a callback either decreases the measure or keeps it and
  arms only timers that are not due yet; no timer is armed \<open>2 ^ 32\<close> milliseconds or more ahead.
\<close>

definition callback_progress :: "('w \<Rightarrow> nat) \<Rightarrow> 'w callback \<Rightarrow> bool" where
  "callback_progress \<mu> cb \<longleftrightarrow>
     (\<forall>tk s. (\<forall>u x time. Arm u x time \<in> set (fst (cb tk s)) \<longrightarrow> time < current_time_ms s + 2 ^ 32) \<and>
        (\<mu> (snd (cb tk s)) < \<mu> (world s) \<or>
         \<mu> (snd (cb tk s)) \<le> \<mu> (world s) \<and> (\<forall>u x time. Arm u x time \<in> set (fst (cb tk s)) \<longrightarrow> current_time_ms s < time)))"

definition near :: "'w threads \<Rightarrow> bool" where
  "near s \<longleftrightarrow> (\<forall>tk. linked s tk \<longrightarrow> timeout (tasks s tk) < current_time_ms s + 2 ^ 32)"

lemma future_slot:
  assumes "wheel_wf X s" "now < timeout (tasks s tk)" "timeout (tasks s tk) < now + 2 ^ 32"
  shows "wheel_timer_slot t tk now s \<noteq> Wheel0 t (wheel0_cursor s t)"
proof -
  have c: "wheel0_cursor s t < 100" using assms(1) unfolding wheel_wf_def by blast
  define d where "d = timeout (tasks s tk) - now"
  have d: "0 < d" "d mod 2 ^ 32 = d" using assms(2,3) by (auto simp: d_def)
  have "d < 100 \<Longrightarrow> (wheel0_cursor s t + d) mod 100 \<noteq> wheel0_cursor s t"
    using ahead_add [OF c, of d] d(1) by (auto simp: ahead_def)
  then show ?thesis using assms(2) d by (simp add: wheel_timer_slot_def Let_def wheel_consts d_def [symmetric])
qed

lemma run_op_length:
  assumes wf: "wheel_wf {} s" and ok: "op_ok t op s" and nr: "near s"
    and soon: "\<And>u x time. op = Arm u x time \<Longrightarrow> time < current_time_ms s + 2 ^ 32"
  shows "near (run_op op s)"
    "(\<And>u x time. op = Arm u x time \<Longrightarrow> current_time_ms s < time) \<Longrightarrow>
       length (slots (run_op op s) (Wheel0 t (wheel0_cursor s t))) \<le> length (slots s (Wheel0 t (wheel0_cursor s t)))"
proof -
  have u: "\<forall>a. slots (unregister_task x s) a = slots s a \<or> slots (unregister_task x s) a = removeAll x (slots s a)" for x
    using unregister_cases [of x s] by (auto simp: upd_task_def unlink_timer_def)
  have ut: "timeout (tasks (unregister_task x s) y) = timeout (tasks s y)" for x y
    using unregister_cases [of x s] by (auto simp: upd_task_def unlink_timer_def)
  have uc: "current_time_ms (run_op op s) = current_time_ms s" using run_op_frame(1) [of s op] by (simp add: same_clock_def)
  have ul: "linked (unregister_task x s) y \<Longrightarrow> linked s y" for x y
    unfolding linked_def using u [of x] by (metis Diff_iff set_removeAll)
  have un: "length (slots (unregister_task x s) a) \<le> length (slots s a)" for x a
    using u [of x] by (metis length_removeAll_less_eq order_refl)
  have "near (run_op op s) \<and>
      ((\<forall>u x time. op = Arm u x time \<longrightarrow> current_time_ms s < time) \<longrightarrow>
       length (slots (run_op op s) (Wheel0 t (wheel0_cursor s t))) \<le> length (slots s (Wheel0 t (wheel0_cursor s t))))"
  proof (cases op)
    case (Arm v x time)
    let ?u = "upd_task x (\<lambda>k. k\<lparr>timeout := time, registered := True, parent_thread := Some t\<rparr>) (unlink_timer x s)"
    have r: "run_op op s = wheel_add_timer_at_locked t x (current_time_ms s) ?u"
      using arm_eq [OF wf, of x t time] ok Arm by simp
    have "wheel_wf {x} ?u" by (rule upd_wf [OF unlink_wf [OF wf]]) simp_all
    from future_slot [OF this, of "current_time_ms s" x t]
    have far: "current_time_ms s < time \<Longrightarrow> wheel_timer_slot t x (current_time_ms s) ?u \<noteq> Wheel0 t (wheel0_cursor s t)"
      using soon [OF Arm] by (simp add: upd_task_def unlink_timer_def)
    have "near (run_op op s)"
      using nr soon [OF Arm] unfolding near_def r
      by (auto simp: linked_def wheel_add_timer_at_locked_def Let_def upd_task_def unlink_timer_def split: if_splits)
    moreover have "current_time_ms s < time \<Longrightarrow>
        length (slots (run_op op s) (Wheel0 t (wheel0_cursor s t))) \<le> length (slots s (Wheel0 t (wheel0_cursor s t)))"
      using far unfolding r
      by (auto simp: wheel_add_timer_at_locked_def Let_def upd_task_def unlink_timer_def)
    ultimately show ?thesis using Arm by blast
  next
    case (Disarm x)
    then show ?thesis using nr ul ut un uc by (auto simp: near_def)
  next
    case (Destroy x)
    have "slots (run_op op s) = slots (unregister_task x s)" "timeout (tasks (run_op op s) y) = timeout (tasks s y)" for y
      using Destroy ut by (auto simp: destroy_task_def upd_task_def)
    then show ?thesis using nr ul un uc Destroy by (auto simp: near_def linked_def)
  qed
  then show "near (run_op op s)" "(\<And>u x time. op = Arm u x time \<Longrightarrow> current_time_ms s < time) \<Longrightarrow>
       length (slots (run_op op s) (Wheel0 t (wheel0_cursor s t))) \<le> length (slots s (Wheel0 t (wheel0_cursor s t)))"
    by blast+
qed

lemma run_ops_length:
  assumes "wheel_wf {} s" "timing {} t C s" "C \<le> current_time_ms s" "ops_ok t ops s" "near s"
    "\<forall>u x time. Arm u x time \<in> set ops \<longrightarrow> time < current_time_ms s + 2 ^ 32"
  shows "near (fold run_op ops s) \<and>
    ((\<forall>u x time. Arm u x time \<in> set ops \<longrightarrow> current_time_ms s < time) \<longrightarrow>
       length (slots (fold run_op ops s) (Wheel0 t (wheel0_cursor s t))) \<le> length (slots s (Wheel0 t (wheel0_cursor s t))))"
  using assms
proof (induction ops arbitrary: s)
  case (Cons op ops)
  have ok: "op_ok t op s" using Cons.prems(4) by simp
  have c: "current_time_ms (run_op op s) = current_time_ms s" "wheel0_cursor (run_op op s) = wheel0_cursor s"
    using run_op_frame(1) [of s op] by (simp_all add: same_clock_def)
  note w = run_op_spec [OF Cons.prems(1-3) ok]
  note l = run_op_length [OF Cons.prems(1) ok Cons.prems(5)]
  have n: "near (run_op op s)" by (rule l(1)) (use Cons.prems(6) in auto)
  note ih = Cons.IH [of "run_op op s", unfolded c]
  have ih': "near (fold run_op ops (run_op op s)) \<and>
    ((\<forall>u x time. Arm u x time \<in> set ops \<longrightarrow> current_time_ms s < time) \<longrightarrow>
       length (slots (fold run_op ops (run_op op s)) (Wheel0 t (wheel0_cursor s t))) \<le> length (slots (run_op op s) (Wheel0 t (wheel0_cursor s t))))"
    by (rule ih) (use w n Cons.prems in auto)
  have "length (slots (run_op op s) (Wheel0 t (wheel0_cursor s t))) \<le> length (slots s (Wheel0 t (wheel0_cursor s t)))"
    if "\<forall>u x time. Arm u x time \<in> set (op # ops) \<longrightarrow> current_time_ms s < time"
    by (rule l(2)) (use Cons.prems(6) that in auto)
  then show ?case using ih' by (auto intro: order_trans)
qed simp

lemma fire_shrinks:
  assumes wf: "wheel_wf {tk} s" and tm: "timing {} t C s" and C: "C \<le> current_time_ms s" and cb: "callback_ok t I cb" and own: "owned I s"
    and pr: "callback_progress \<mu> cb" and nr: "near s" and due: "timeout (tasks s tk) \<le> now"
    and f: "fire_timer_task cb tk now s = (n, s')"
  shows "near s' \<and> (\<mu> (world s') < \<mu> (world s) \<or> \<mu> (world s') \<le> \<mu> (world s) \<and>
    length (slots s' (Wheel0 t (wheel0_cursor s t))) \<le> length (slots s (Wheel0 t (wheel0_cursor s t))))"
proof -
  let ?s = "upd_task tk (\<lambda>k. k\<lparr>registered := False\<rparr>) (s\<lparr>fired := (tk, timeout (tasks s tk)) # fired s\<rparr>)"
  have no: "\<not> linked s tk" using linked_armed [OF wf] by blast
  obtain n0 s0 where q: "fire_timer_task (\<lambda>_ u. ([], world u)) tk now s = (n0, s0)" by (cases "fire_timer_task (\<lambda>_ u. ([], world u)) tk now s")
  have "callback_ok t I (\<lambda>_ u. ([], world u))" by (simp add: callback_ok_def call_timer_def)
  moreover have "spares {} (\<lambda>_ u. ([], world u))" by (simp add: spares_def)
  ultimately have q2: "wheel_wf {} s0" "timing {} t C s0" "owned I s0"
    using fire_spec [OF wf tm C _ own _ due q] by auto
  have s0: "s0 = ?s" using q due by (simp add: fire_timer_task_def Let_def call_timer_def split: if_splits)
  have same: "slots ?s = slots s" "current_time_ms ?s = current_time_ms s" "wheel0_cursor ?s = wheel0_cursor s" "world ?s = world s"
    by (simp_all add: upd_task_def)
  have nr1: "near ?s" using nr by (auto simp: near_def linked_def upd_task_def)
  show ?thesis
  proof (cases "cb_timer (tasks ?s tk)")
    case False
    then have "s' = ?s" using f due by (simp add: fire_timer_task_def Let_def)
    then show ?thesis using nr1 same by simp
  next
    case True
    obtain ops w where c: "cb tk ?s = (ops, w)" by (cases "cb tk ?s")
    let ?w = "?s\<lparr>world := w\<rparr>"
    have s': "s' = fold run_op ops ?w" using f due True c by (simp add: fire_timer_task_def Let_def call_timer_def)
    have ok: "ops_ok t ops ?w" using cb q2(1,3) c unfolding callback_ok_def s0 by (metis fst_conv snd_conv)
    have wf2: "wheel_wf {} ?w" using q2(1) unfolding s0 by (rule wf_cursors) (use q2(1) s0 in \<open>auto simp: wheel_wf_def\<close>)
    have tm2: "timing {} t C ?w" using q2(2) s0 by (simp add: timing_def)
    have nr2: "near ?w" using nr1 by (simp add: near_def linked_def)
    have p: "(\<forall>u x time. Arm u x time \<in> set ops \<longrightarrow> time < current_time_ms s + 2 ^ 32) \<and>
        (\<mu> w < \<mu> (world s) \<or> \<mu> w \<le> \<mu> (world s) \<and> (\<forall>u x time. Arm u x time \<in> set ops \<longrightarrow> current_time_ms s < time))"
      using pr [unfolded callback_progress_def, rule_format, of tk ?s] unfolding c same by simp
    have w: "world s' = w" using run_ops_frame [of ?w ops 0] s' by simp
    have "near s' \<and> ((\<forall>u x time. Arm u x time \<in> set ops \<longrightarrow> current_time_ms s < time) \<longrightarrow>
       length (slots s' (Wheel0 t (wheel0_cursor s t))) \<le> length (slots s (Wheel0 t (wheel0_cursor s t))))"
      using run_ops_length [OF wf2 tm2 _ ok nr2] C p s' same by simp
    then show ?thesis using p w by blast
  qed
qed

lemma process_slot_ends:
  assumes "wheel_wf {} s" "timing {} t C s" "C \<le> now" "now = current_time_ms s" "callback_ok t I cb"
    "callback_progress \<mu> cb" "near s" "owned I s"
  shows "\<exists>r. process_current_timer_slot cb t now do_sum s = Some r \<and> near (snd r)"
  using assms
proof (induction "(\<mu> (world s), length (slots s (Wheel0 t (wheel0_cursor s t))))" arbitrary: s do_sum
    rule: wf_induct_rule [OF wf_lex_prod [OF wf_less_than wf_less_than]])
  case (1 s do_sum)
  let ?a = "Wheel0 t (wheel0_cursor s t)"
  show ?case
  proof (cases "slots s ?a")
    case Nil
    then have "process_current_timer_slot cb t now do_sum s = Some (do_sum, s)"
      by (subst process_current_timer_slot.simps) simp
    then show ?thesis using 1(8) by simp
  next
    case (Cons tk rest)
    let ?u = "unlink_timer tk s"
    have mem: "tk \<in> set (slots s ?a)" using Cons by simp
    have k: "armed (tasks ?u tk)" "parent_thread (tasks ?u tk) = Some t"
      using wf_slot [OF 1(2) mem] by (simp_all add: unlink_timer_def)
    have wf: "wheel_wf {tk} ?u" by (rule unlink_wf [OF 1(2)])
    have tm: "timing {} t C ?u" by (rule unlink_timing [OF 1(3)])
    have nu: "near ?u" using 1(8) by (auto simp: near_def linked_def unlink_timer_def)
    have len: "length (slots ?u ?a) < length (slots s ?a)" using Cons by (simp add: unlink_timer_def less_Suc_eq_le)
    have same: "world ?u = world s" "wheel0_cursor ?u = wheel0_cursor s" "current_time_ms ?u = current_time_ms s" "tasks ?u = tasks s"
      by (simp_all add: unlink_timer_def)
    show ?thesis
    proof (cases "now < timeout (tasks ?u tk)")
      case True
      let ?q = "wheel_requeue_timer_locked t tk now ?u"
      have "timeout (tasks ?u tk) < now + 2 ^ 32"
        using 1(8) wf_slot(5) [OF 1(2) mem] same 1(5) by (simp add: near_def)
      from future_slot [OF wf True this, of t]
      have "slots ?q ?a = slots ?u ?a" "wheel0_cursor ?q = wheel0_cursor s" "world ?q = world s" "current_time_ms ?q = current_time_ms s"
        using same by (simp_all add: wheel_requeue_timer_locked_def Let_def)
      moreover have "near ?q"
        using 1(8) wf_slot(5) [OF 1(2) mem] same
        by (auto simp: near_def linked_def wheel_requeue_timer_locked_def Let_def unlink_timer_def split: if_splits)
      moreover have "owned I ?q"
        using 1(9) by (subst owned_same [of _ s]) (simp_all add: wheel_requeue_timer_locked_def unlink_timer_def Let_def)
      moreover have "process_current_timer_slot cb t now do_sum s = process_current_timer_slot cb t now do_sum ?q"
        using Cons True by (subst process_current_timer_slot.simps) (simp add: Let_def)
      ultimately show ?thesis
        using 1(1) [of ?q do_sum] placed(3,4) [OF wf timing_mono [OF tm, of "insert tk {}"] 1(4) k] 1(4-7) len by simp
    next
      case False
      obtain n s' where f: "fire_timer_task cb tk now ?u = (n, s')" by (cases "fire_timer_task cb tk now ?u")
      have sp: "spares {} cb" by (simp add: spares_def)
      have due: "timeout (tasks ?u tk) \<le> now" using False by simp
      have C: "C \<le> current_time_ms ?u" using 1(4,5) same by simp
      have own: "owned I ?u" using 1(9) by (subst owned_same [of _ s]) (simp_all add: unlink_timer_def)
      note g = fire_spec [OF wf tm C 1(6) own sp due f]
      note h = fire_shrinks [OF wf tm C 1(6) own 1(7) nu due f]
      have cs: "wheel0_cursor s' = wheel0_cursor s" "current_time_ms s' = current_time_ms s" using g same by (auto simp: passage_def)
      have "process_current_timer_slot cb t now do_sum s = process_current_timer_slot cb t now (do_sum + n) s'"
        using Cons False f by (subst process_current_timer_slot.simps) (simp add: Let_def)
      moreover have "((\<mu> (world s'), length (slots s' (Wheel0 t (wheel0_cursor s' t)))), \<mu> (world s), length (slots s ?a))
          \<in> less_than <*lex*> less_than"
        using h len same cs by auto
      ultimately show ?thesis using 1(1) [of s' "do_sum + n"] g h cs 1(4-7) by simp
    qed
  qed
qed

lemma cascade_linked: "linked (cascade_loop t now xs s) x \<Longrightarrow> linked s x \<or> x \<in> set xs"
proof (induction xs arbitrary: s)
  case (Cons tk xs)
  have "linked (wheel_add_timer_at_locked t tk now (unlink_timer tk s)) x \<Longrightarrow> linked s x \<or> x = tk"
    by (auto simp: linked_def wheel_add_timer_at_locked_def unlink_timer_def Let_def split: if_splits)
  then show ?case using Cons by auto
qed simp

lemma advance_near: "near s \<Longrightarrow> near (wheel_advance t s)"
proof -
  assume n: "near s"
  have "linked (wheel_advance t s) x \<Longrightarrow> linked s x" for x
    using cascade_linked [of t "current_time_ms s" _ _ x]
    by (fastforce simp: wheel_advance_def wheel_cascade_l1_def Let_def linked_def split: if_splits)
  then show "near (wheel_advance t s)" using n by (simp add: near_def advance_frame)
qed

lemma tick_loop_ends:
  assumes "wheel_wf {} s" "timing {} t C s" "C + n = now" "now = current_time_ms s" "callback_ok t I cb" "owned I s"
    "callback_progress \<mu> cb" "near s" "slots s (Wheel0 t (wheel0_cursor s t)) = []"
  shows "\<exists>r. tick_loop cb t now n do_sum s = Some r"
  using assms
proof (induction n arbitrary: s do_sum C)
  case (Suc n)
  let ?s = "wheel_advance t s"
  have a: "wheel_wf {} ?s \<and> timing {} t (Suc C) ?s" by (rule wheel_advance_spec) (use Suc.prems in auto)
  have own: "owned I ?s" using Suc.prems(6) by (subst owned_same [of _ s]) (simp_all add: advance_frame)
  have "\<exists>r. process_current_timer_slot cb t now do_sum ?s = Some r \<and> near (snd r)"
    by (rule process_slot_ends [of _ _ "Suc C" _ I _ \<mu>]) (use a own Suc.prems advance_near in \<open>auto simp: advance_frame\<close>)
  then obtain d s' where p: "process_current_timer_slot cb t now do_sum ?s = Some (d, s')" "near s'" by force
  have "slot_done {} (Suc C) I cb t now ?s (d, s')" by (rule process_slot_spec [OF p(1)])
  then have q: "wheel_wf {} s'" "timing {} t (Suc C) s'" "current_time_ms s' = current_time_ms s"
    "slots s' (Wheel0 t (wheel0_cursor s' t)) = []" "owned I s'"
    using a own Suc.prems by (auto simp: slot_done_def spares_def passage_def advance_frame)
  have "\<exists>r. tick_loop cb t now n d s' = Some r"
    by (rule Suc.IH [OF q(1,2)]) (use q p(2) Suc.prems in auto)
  then show ?case using p by simp
qed simp

lemma do_timer_tasks_ends:
  assumes wf: "wheel_wf {} s" and tm: "timing {} t (last_timer_check_ms s t) s"
    and clock: "last_timer_check_ms s t \<le> current_time_ms s" "current_time_ms s < 2 ^ 64"
    and cb: "callback_ok t I cb" "owned I s" and pr: "callback_progress \<mu> cb" and nr: "near s"
  shows "\<exists>n s'. do_timer_tasks cb t s = Some (n, s')"
proof -
  let ?now = "current_time_ms s" and ?last = "last_timer_check_ms s t"
  have e: "(?now + 2 ^ 64 - ?last) mod 2 ^ 64 = ?now - ?last"
    using clock by (simp add: Nat.diff_add_assoc2 [symmetric] mod_if)
  obtain d1 s1 where p: "process_current_timer_slot cb t ?now 0 s = Some (d1, s1)" "near s1"
    using process_slot_ends [OF wf tm clock(1) refl cb(1) pr nr cb(2), of 0] by auto
  have q: "wheel_wf {} s1" "timing {} t ?last s1" "current_time_ms s1 = ?now" "slots s1 (Wheel0 t (wheel0_cursor s1 t)) = []" "owned I s1"
    using process_slot_spec [OF p(1), of "{}" ?last I] wf tm clock cb by (auto simp: slot_done_def spares_def passage_def)
  have "?last + (?now - ?last) = ?now" using clock(1) by simp
  from tick_loop_ends [OF q(1,2) this q(3) [symmetric] cb(1) q(5) pr p(2) q(4)]
  obtain r where "tick_loop cb t ?now (?now - ?last) d1 s1 = Some r" by blast
  then show ?thesis using p(1) unfolding do_timer_tasks_def Let_def e wheel_consts by (cases r) simp
qed

section \<open>The interface of the wheel\<close>

text \<open>
  A service that rings alarms when it is run: a run fires what is due and nothing else, an alarm nobody touches
  stays until it is due.
\<close>

fun run_passes :: "('s \<Rightarrow> 's option) \<Rightarrow> (nat \<Rightarrow> 's \<Rightarrow> 's) \<Rightarrow> nat list \<Rightarrow> 's \<Rightarrow> 's option" where
  "run_passes pass set_clock [] s = Some s"
| "run_passes pass set_clock (c # cs) s =
     (case pass (set_clock c s) of None \<Rightarrow> None | Some s \<Rightarrow> run_passes pass set_clock cs s)"

locale alarm_service =
  fixes ok :: "'s \<Rightarrow> bool" and clock :: "'s \<Rightarrow> nat" and set_clock :: "nat \<Rightarrow> 's \<Rightarrow> 's" and pass :: "'s \<Rightarrow> 's option"
    and alarm :: "'s \<Rightarrow> 'k \<Rightarrow> nat option" and log :: "'s \<Rightarrow> ('k \<times> nat) list" and left_alone :: "'k set"
  assumes wait_ok: "ok s \<Longrightarrow> clock s \<le> c \<Longrightarrow> c < 2 ^ 64 \<Longrightarrow>
      ok (set_clock c s) \<and> clock (set_clock c s) = c \<and> alarm (set_clock c s) = alarm s \<and> log (set_clock c s) = log s"
    and pass_law: "ok s \<Longrightarrow> pass s = Some s' \<Longrightarrow> ok s' \<and> clock s' = clock s \<and>
      (\<exists>new. log s' = new @ log s \<and> (\<forall>p \<in> set new. snd p \<le> clock s) \<and>
        (\<forall>k \<in> left_alone. \<forall>d. alarm s k = Some d \<longrightarrow> (if d \<le> clock s then (k, d) \<in> set new else alarm s' k = Some d)))"

context alarm_service
begin

lemma passes_log:
  assumes "ok s" "run_passes pass set_clock cs s = Some s'" "sorted (clock s # cs)" "\<forall>c \<in> set cs. c < 2 ^ 64"
  shows "\<exists>new. log s' = new @ log s \<and> (\<forall>p \<in> set new. \<exists>c \<in> set cs. snd p \<le> c)"
  using assms
proof (induction cs arbitrary: s)
  case (Cons c cs)
  let ?w = "set_clock c s"
  have w: "ok ?w" "clock ?w = c" "log ?w = log s" using wait_ok [OF Cons.prems(1), of c] Cons.prems(3,4) by auto
  obtain s1 where s1: "pass ?w = Some s1" "run_passes pass set_clock cs s1 = Some s'" using Cons.prems(2) by (auto split: option.splits)
  obtain xs where xs: "ok s1" "clock s1 = c" "log s1 = xs @ log s" "\<forall>p \<in> set xs. snd p \<le> c"
    using pass_law [OF w(1) s1(1)] w by auto
  obtain ys where "log s' = ys @ log s1" "\<forall>p \<in> set ys. \<exists>c \<in> set cs. snd p \<le> c"
    using Cons.IH [OF xs(1) s1(2)] Cons.prems(3,4) xs(2) by auto
  then show ?case using xs(3,4) by (intro exI [of _ "ys @ xs"]) auto
qed simp

lemma passes_ring:
  assumes "ok s" "run_passes pass set_clock cs s = Some s'" "sorted (clock s # cs)" "\<forall>c \<in> set cs. c < 2 ^ 64" "k \<in> left_alone" "alarm s k = Some d"
  shows "\<exists>new. log s' = new @ log s \<and> (\<forall>p \<in> set new. \<exists>c \<in> set cs. snd p \<le> c) \<and> ((\<exists>c \<in> set cs. d \<le> c) \<longrightarrow> (k, d) \<in> set new)"
  using assms
proof (induction cs arbitrary: s)
  case (Cons c cs)
  let ?w = "set_clock c s"
  have w: "ok ?w" "clock ?w = c" "alarm ?w = alarm s" "log ?w = log s"
    using wait_ok [OF Cons.prems(1), of c] Cons.prems(3,4) by auto
  obtain s1 where s1: "pass ?w = Some s1" "run_passes pass set_clock cs s1 = Some s'" using Cons.prems(2) by (auto split: option.splits)
  obtain xs where xs: "ok s1" "clock s1 = c" "log s1 = xs @ log s" "\<forall>p \<in> set xs. snd p \<le> c"
    "if d \<le> c then (k, d) \<in> set xs else alarm s1 k = Some d"
    using pass_law [OF w(1) s1(1)] w Cons.prems(5,6) by auto
  show ?case
  proof (cases "d \<le> c")
    case False
    then have "alarm s1 k = Some d" using xs(5) by simp
    from Cons.IH [OF xs(1) s1(2) _ _ Cons.prems(5) this] obtain ys where
      "log s' = ys @ log s1" "\<forall>p \<in> set ys. \<exists>c \<in> set cs. snd p \<le> c" "(\<exists>c \<in> set cs. d \<le> c) \<longrightarrow> (k, d) \<in> set ys"
      using Cons.prems(3,4) xs(2) by auto
    then show ?thesis using False xs(3,4) by (intro exI [of _ "ys @ xs"]) auto
  next
    case True
    have "\<exists>new. log s' = new @ log s1 \<and> (\<forall>p \<in> set new. \<exists>c \<in> set cs. snd p \<le> c)"
      using passes_log [OF xs(1) s1(2)] Cons.prems(3,4) xs(2) by auto
    then obtain ys where "log s' = ys @ log s1" "\<forall>p \<in> set ys. \<exists>c \<in> set cs. snd p \<le> c" by blast
    then show ?thesis using True xs(3,4,5) by (intro exI [of _ "ys @ xs"]) auto
  qed
qed simp

end

section \<open>The wheel is such a service\<close>

definition pending :: "nat \<Rightarrow> 'w threads \<Rightarrow> nat \<Rightarrow> nat option" where
  "pending t s tk =
     (if armed (tasks s tk) \<and> parent_thread (tasks s tk) = Some t then Some (timeout (tasks s tk)) else None)"

definition set_time :: "nat \<Rightarrow> 'w threads \<Rightarrow> 'w threads" where
  "set_time c s = s\<lparr>current_time_ms := c\<rparr>"

definition wheel_ok :: "nat \<Rightarrow> 'w ownership \<Rightarrow> 'w callback \<Rightarrow> nat set \<Rightarrow> 'w threads \<Rightarrow> bool" where
  "wheel_ok t I cb U s \<longleftrightarrow> callback_ok t I cb \<and> owned I s \<and> spares U cb \<and> wheel_wf {} s \<and> timing {} t (last_timer_check_ms s t) s \<and>
     last_timer_check_ms s t \<le> current_time_ms s \<and> current_time_ms s < 2 ^ 64"

definition timer_pass :: "'w callback \<Rightarrow> nat \<Rightarrow> 'w threads \<Rightarrow> 'w threads option" where
  "timer_pass cb t s = map_option snd (do_timer_tasks cb t s)"

lemma timer_pass_law:
  assumes ok: "wheel_ok t I cb U s" and p: "timer_pass cb t s = Some s'"
  shows "wheel_ok t I cb U s' \<and> current_time_ms s' = current_time_ms s \<and>
    (\<exists>new. fired s' = new @ fired s \<and> (\<forall>p \<in> set new. snd p \<le> current_time_ms s) \<and>
       (\<forall>k \<in> U. \<forall>d. pending t s k = Some d \<longrightarrow>
          (if d \<le> current_time_ms s then (k, d) \<in> set new else pending t s' k = Some d)))"
proof -
  obtain n where d: "do_timer_tasks cb t s = Some (n, s')" using p by (auto simp: timer_pass_def)
  have h: "wheel_wf {} s" "timing {} t (last_timer_check_ms s t) s" "last_timer_check_ms s t \<le> current_time_ms s"
    "current_time_ms s < 2 ^ 64" "callback_ok t I cb" "owned I s" "spares U cb" using ok by (simp_all add: wheel_ok_def)
  note sp = do_timer_tasks_spec [OF h d]
  obtain new where new: "fired s' = new @ fired s" "\<forall>p \<in> set new. snd p \<le> current_time_ms s"
    "\<forall>tk \<in> U. tasks s' tk = tasks s tk \<or> (tk, timeout (tasks s tk)) \<in> set new" using sp(7) by blast
  have "if x \<le> current_time_ms s then (k, x) \<in> set new else pending t s' k = Some x"
    if k: "k \<in> U" "pending t s k = Some x" for k x
  proof -
    have x: "armed (tasks s k)" "parent_thread (tasks s k) = Some t" "timeout (tasks s k) = x"
      using k(2) by (auto simp: pending_def split: if_splits)
    from new(3) k(1) have "tasks s' k = tasks s k \<or> (k, x) \<in> set new" using x(3) by blast
    then show ?thesis
    proof
      assume e: "tasks s' k = tasks s k"
      then show ?thesis using sp(6) [of k] x by (simp add: pending_def)
    next
      assume "(k, x) \<in> set new"
      then show ?thesis using new(2) by fastforce
    qed
  qed
  then show ?thesis using sp(1-5) h new(1,2) by (auto simp: wheel_ok_def)
qed

interpretation wheel: alarm_service "wheel_ok t I cb U" current_time_ms set_time "timer_pass cb t" "pending t" fired U
  for t :: nat and I :: "'w ownership" and cb :: "'w callback" and U :: "nat set"
proof
  fix s :: "'w threads" and c :: nat
  assume ok: "wheel_ok t I cb U s" and c: "current_time_ms s \<le> c" "c < 2 ^ 64"
  have "wheel_wf {} (set_time c s)"
    by (rule wf_cursors [of "{}" s]) (use ok in \<open>auto simp: set_time_def wheel_ok_def wheel_wf_def\<close>)
  then show "wheel_ok t I cb U (set_time c s) \<and> current_time_ms (set_time c s) = c \<and>
      pending t (set_time c s) = pending t s \<and> fired (set_time c s) = fired s"
    using ok c by (auto simp: set_time_def wheel_ok_def timing_def pending_def owned_def)
qed (rule timer_pass_law)

section \<open>The properties\<close>

text \<open>A thread with one timer, armed for time 250 at time 100.\<close>

definition sample_threads :: "nat threads" where
  "sample_threads = \<lparr>slots = \<lambda>_. [], loop_tasks = \<lambda>_. [], wheel0_cursor = \<lambda>_. 0, wheel1_cursor = \<lambda>_. 0,
     last_timer_check_ms = \<lambda>_. 100, epoll_set = \<lambda>_ _. None, nonblock = \<lambda>_. False, syscalls = [],
     tasks = \<lambda>_. \<lparr>task_type = TASK_TYPE_TIMER, reg_task_type = None, parent_thread = None, task_fd = 0, timeout = 0,
                    cb_timer = True, registered = False, task_live = True\<rparr>,
     current_time_ms = 100, world = 0, fired = []\<rparr>"

definition sample_armed :: "nat threads" where
  "sample_armed = set_time 300 (run_op (Arm 0 7 250) sample_threads)"

definition count_cb :: "nat callback" where
  "count_cb tk s = ([Arm 0 8 (current_time_ms s + 1000)], world s + 1)"

lemma sample_wf: "wheel_wf {} sample_threads" "timing {} 0 100 sample_threads" "near sample_threads"
  by (auto simp: wheel_wf_def timing_def near_def linked_def sample_threads_def armed_def)

definition count_own :: "nat ownership" where
  "count_own live w \<longleftrightarrow> live 8 = (True, TASK_TYPE_TIMER)"

lemma count_cb_ok: "callback_ok 0 count_own count_cb" "spares {7} count_cb" "callback_progress (\<lambda>_. 0) count_cb"
proof -
  have "ops_ok 0 (fst (count_cb tk s)) (s\<lparr>world := snd (count_cb tk s)\<rparr>) \<and> owned count_own (call_timer count_cb tk s)"
    if wf: "wheel_wf {} s" and own: "owned count_own s" for tk s
  proof -
    have k: "task_live (tasks s 8)" "task_type (tasks s 8) = TASK_TYPE_TIMER" using own by (auto simp: owned_def count_own_def)
    have wf': "wheel_wf {} (s\<lparr>world := world s + 1\<rparr>)" by (rule wf_cursors [OF wf]) (use wf in \<open>auto simp: wheel_wf_def\<close>)
    have "owned count_own (run_op (Arm 0 8 (current_time_ms s + 1000)) (s\<lparr>world := world s + 1\<rparr>))"
      by (subst arm_eq [OF wf'])
        (use k in \<open>simp_all add: owned_def count_own_def wheel_add_timer_at_locked_def upd_task_def unlink_timer_def Let_def\<close>)
    then show ?thesis using k by (simp add: count_cb_def call_timer_def)
  qed
  then show "callback_ok 0 count_own count_cb" by (simp add: callback_ok_def)
  show "spares {7} count_cb" "callback_progress (\<lambda>_. 0) count_cb"
    by (simp_all add: spares_def callback_progress_def count_cb_def)
qed

lemma sample_ready:
  "wheel_ok 0 count_own count_cb {7} sample_armed" "near sample_armed" "pending 0 sample_armed 7 = Some 250"
  "current_time_ms sample_armed = 300" "fired sample_armed = []"
proof -
  let ?r = "run_op (Arm 0 7 250) sample_threads"
  have op: "op_ok 0 (Arm 0 7 250) sample_threads" by (simp add: sample_threads_def)
  have c: "(100 :: nat) \<le> current_time_ms sample_threads" by (simp add: sample_threads_def)
  note r = run_op_spec [OF sample_wf(1,2) c op]
  have fr: "current_time_ms ?r = 100" "last_timer_check_ms ?r = (\<lambda>_. 100)" "fired ?r = []" "world ?r = 0"
    using run_op_frame(1-3) [where s = sample_threads and op = "Arm 0 7 250"] by (simp_all add: same_clock_def sample_threads_def)
  have tk: "tasks ?r 7 = (tasks sample_threads 7)\<lparr>timeout := 250, registered := True, parent_thread := Some 0\<rparr>"
    "tasks ?r 8 = tasks sample_threads 8"
    by (subst arm_eq [OF sample_wf(1)];
        simp add: sample_threads_def wheel_add_timer_at_locked_def upd_task_def unlink_timer_def Let_def)+
  have "wheel_wf {} sample_armed"
    unfolding sample_armed_def by (rule wf_cursors [of "{}" ?r]) (use r in \<open>auto simp: set_time_def wheel_wf_def\<close>)
  then show "wheel_ok 0 count_own count_cb {7} sample_armed"
    using count_cb_ok r fr tk
    by (simp add: wheel_ok_def sample_armed_def set_time_def owned_def count_own_def timing_def sample_threads_def)
  have "near ?r" by (rule run_op_length(1) [OF sample_wf(1) op sample_wf(3)]) (simp add: sample_threads_def)
  then show "near sample_armed" using fr by (force simp: near_def sample_armed_def set_time_def linked_def)
  show "pending 0 sample_armed 7 = Some 250" "current_time_ms sample_armed = 300" "fired sample_armed = []"
    using tk fr by (simp_all add: pending_def armed_def sample_armed_def set_time_def sample_threads_def)
qed

lemma wheel_ok_ends:
  assumes "wheel_ok t I cb U s" "callback_progress \<mu> cb" "near s"
  shows "\<exists>n s'. do_timer_tasks cb t s = Some (n, s')"
  using do_timer_tasks_ends [of s t I cb \<mu>] assms by (simp add: wheel_ok_def)

text \<open>
  C9. However many timer passes a thread makes and at whatever times, a registered timer that no callback touches is
  fired exactly if some pass comes at or after its deadline: none is missed or fired early, also when the thread was
  away for many turns of the wheel.
\<close>

theorem timer_rings_on_time:
  assumes "wheel_ok t I cb U s" and "tk \<in> U" and "pending t s tk = Some d"
    and "run_passes (timer_pass cb t) set_time cs s = Some s'" and "sorted (current_time_ms s # cs)" and "\<forall>c \<in> set cs. c < 2 ^ 64"
  shows "\<exists>new. fired s' = new @ fired s \<and> ((tk, d) \<in> set new \<longleftrightarrow> (\<exists>c \<in> set cs. d \<le> c))"
proof -
  obtain new where "fired s' = new @ fired s" "\<forall>p \<in> set new. \<exists>c \<in> set cs. snd p \<le> c"
    "(\<exists>c \<in> set cs. d \<le> c) \<longrightarrow> (tk, d) \<in> set new"
    using wheel.passes_ring [OF assms(1,4,5,6,2,3)] by blast
  then show ?thesis by (intro exI [of _ new]) force
qed

theorem timer_rings_on_time_witness:
  "\<exists>s'. run_passes (timer_pass count_cb 0) set_time [300] sample_armed = Some s' \<and> (7, 250) \<in> set (fired s')"
proof -
  have "set_time 300 sample_armed = sample_armed" by (simp add: sample_armed_def set_time_def)
  moreover obtain n s' where "do_timer_tasks count_cb 0 sample_armed = Some (n, s')"
    using wheel_ok_ends [OF sample_ready(1) count_cb_ok(3) sample_ready(2)] by blast
  ultimately have r: "run_passes (timer_pass count_cb 0) set_time [300] sample_armed = Some s'" by (simp add: timer_pass_def)
  have "\<exists>new. fired s' = new @ fired sample_armed \<and> ((7, 250) \<in> set new \<longleftrightarrow> (\<exists>c \<in> set [300 :: nat]. 250 \<le> c))"
    by (rule timer_rings_on_time [OF sample_ready(1) _ sample_ready(3) r]) (simp_all add: sample_ready(4))
  then show ?thesis using r by auto
qed

text \<open>
  C11. After a timer pass every task is linked at most once, exactly while it is a registered timer that has not been
  freed, and in a slot of its own thread; no timer of the thread is overdue; the fired timers were due; and the wheel
  is ready for the next pass.
\<close>

theorem timer_pass_exact:
  assumes "wheel_ok t I cb U s" and "do_timer_tasks cb t s = Some (n, s')"
  shows "wheel_ok t I cb U s' \<and> (\<forall>tk d. pending t s' tk = Some d \<longrightarrow> current_time_ms s < d) \<and>
    (\<exists>new. fired s' = new @ fired s \<and> (\<forall>p \<in> set new. snd p \<le> current_time_ms s)) \<and>
    (\<forall>tk. armed (tasks s' tk) \<longleftrightarrow> (\<exists>a. tk \<in> set (slots s' a))) \<and>
    (\<forall>a b tk. tk \<in> set (slots s' a) \<and> tk \<in> set (slots s' b) \<longrightarrow> a = b \<and> distinct (slots s' a) \<and>
       parent_thread (tasks s' tk) = Some (slot_thread a))"
proof -
  have h: "wheel_wf {} s" "timing {} t (last_timer_check_ms s t) s" "last_timer_check_ms s t \<le> current_time_ms s"
    "current_time_ms s < 2 ^ 64" "callback_ok t I cb" "owned I s" "spares U cb" using assms(1) by (simp_all add: wheel_ok_def)
  note sp = do_timer_tasks_spec [OF h assms(2)]
  have "timer_pass cb t s = Some s'" using assms(2) by (simp add: timer_pass_def)
  then have "wheel_ok t I cb U s'" using wheel.pass_law [OF assms(1)] by blast
  moreover have "armed (tasks s' tk) \<longleftrightarrow> (\<exists>a. tk \<in> set (slots s' a))" for tk
    using sp(1) unfolding wheel_wf_def linked_def by blast
  moreover have "\<forall>tk d. pending t s' tk = Some d \<longrightarrow> current_time_ms s < d"
    using sp(6) by (auto simp: pending_def split: if_splits)
  ultimately show ?thesis using sp(7) wf_unique [OF sp(1)] wf_distinct [OF sp(1)] wf_slot(2) [OF sp(1)] by blast
qed

theorem timer_pass_exact_witness:
  "\<exists>n s'. do_timer_tasks count_cb 0 sample_armed = Some (n, s') \<and> pending 0 sample_armed 7 = Some 250 \<and> pending 0 s' 7 \<noteq> Some 250"
proof -
  obtain n s' where d: "do_timer_tasks count_cb 0 sample_armed = Some (n, s')"
    using wheel_ok_ends [OF sample_ready(1) count_cb_ok(3) sample_ready(2)] by blast
  have "\<forall>tk d. pending 0 s' tk = Some d \<longrightarrow> current_time_ms sample_armed < d"
    using timer_pass_exact [OF sample_ready(1) d] by blast
  then have "pending 0 s' 7 \<noteq> Some 250" using sample_ready(4) by fastforce
  then show ?thesis using d sample_ready(3) by blast
qed

text \<open>
  C12. A timer pass ends: when no timer is \<open>2 ^ 32\<close> milliseconds or more ahead and each callback either makes progress in
  its own memory or arms only timers that are not yet due, the loops over the slots return.
\<close>

theorem timer_pass_ends:
  assumes "wheel_ok t I cb U s" and "callback_progress \<mu> cb" and "near s"
  shows "\<exists>n s'. do_timer_tasks cb t s = Some (n, s')"
  using wheel_ok_ends [OF assms] .

theorem timer_pass_ends_witness: "\<exists>n s'. do_timer_tasks count_cb 0 sample_armed = Some (n, s')"
  using timer_pass_ends [OF sample_ready(1) count_cb_ok(3) sample_ready(2)] .

end
