(* ===== verification/DList.thy ===== *)
theory DList
  imports Prelude
begin

text \<open>
  The intrusive doubly linked lists of \<^verbatim>\<open>src/lib/list.c\<close> and the queues built on them in
  \<^verbatim>\<open>src/lib/queue.c\<close>. Nodes live in an explicit heap, so every operation is the C
  function's sequence of pointer writes; a list or queue is a \<open>chain\<close> of that heap, and
  the refinement lemmas relate the writes to operations on the HOL list of node
  addresses.
\<close>

section \<open>Nodes, heap and list operations\<close>

type_synonym addr = nat

record list_node =
  pre :: "addr option"
  nxt :: "addr option"
  element :: u64

type_synonym heap = "addr \<Rightarrow> list_node"

definition empty_heap :: heap where
  "empty_heap = (\<lambda>_. \<lparr>pre = None, nxt = None, element = 0\<rparr>)"

text \<open>\<open>calloc\<close> returns a zeroed node at \<open>a\<close>, or \<^const>\<open>None\<close> when it fails.\<close>

definition create_list_node :: "heap \<Rightarrow> addr option \<Rightarrow> u64 \<Rightarrow> heap \<times> addr option" where
  "create_list_node h alloc e =
     (case alloc of
        None \<Rightarrow> (h, None)
      | Some a \<Rightarrow> (h(a := \<lparr>pre = None, nxt = None, element = e\<rparr>), Some a))"

definition add_list_node :: "heap \<Rightarrow> addr \<Rightarrow> addr \<Rightarrow> heap" where
  "add_list_node h p add =
     (let next = nxt (h p);
          h = h(add := (h add)\<lparr>pre := Some p\<rparr>);
          h = h(add := (h add)\<lparr>nxt := next\<rparr>);
          h = h(p := (h p)\<lparr>nxt := Some add\<rparr>)
      in case next of
           None \<Rightarrow> h
         | Some n \<Rightarrow> h(n := (h n)\<lparr>pre := Some add\<rparr>))"

partial_function (option) compare_loop ::
    "heap \<Rightarrow> (addr \<Rightarrow> addr \<Rightarrow> int) \<Rightarrow> addr \<Rightarrow> addr option \<Rightarrow> addr \<Rightarrow> (heap \<times> int) option" where
  "compare_loop h compare p cur add =
     (case cur of
        None \<Rightarrow> Some (add_list_node h p add, 0)
      | Some c \<Rightarrow>
          (let ret = compare c add in
           if ret > 0 then Some (add_list_node h p add, 0)
           else if ret < 0 then compare_loop h compare c (nxt (h c)) add
           else Some (h, - 1)))"

definition add_list_node_compare ::
    "heap \<Rightarrow> addr \<Rightarrow> addr \<Rightarrow> (addr \<Rightarrow> addr \<Rightarrow> int) \<Rightarrow> (heap \<times> int) option" where
  "add_list_node_compare h head add compare = compare_loop h compare head (nxt (h head)) add"

definition add_list_node_pre :: "heap \<Rightarrow> addr \<Rightarrow> addr \<Rightarrow> heap" where
  "add_list_node_pre h lst add =
     (let p = pre (h lst);
          h = h(add := (h add)\<lparr>pre := p\<rparr>);
          h = h(add := (h add)\<lparr>nxt := Some lst\<rparr>);
          h = h(lst := (h lst)\<lparr>pre := Some add\<rparr>)
      in case p of
           None \<Rightarrow> h
         | Some q \<Rightarrow> h(q := (h q)\<lparr>nxt := Some add\<rparr>))"

definition remove_list_node :: "heap \<Rightarrow> addr \<Rightarrow> heap" where
  "remove_list_node h rm =
     (let p = pre (h rm);
          n = nxt (h rm);
          h = (case p of None \<Rightarrow> h | Some q \<Rightarrow> h(q := (h q)\<lparr>nxt := n\<rparr>));
          h = (case n of None \<Rightarrow> h | Some m \<Rightarrow> h(m := (h m)\<lparr>pre := p\<rparr>));
          h = h(rm := (h rm)\<lparr>pre := None\<rparr>)
      in h(rm := (h rm)\<lparr>nxt := None\<rparr>))"

partial_function (option) exist_loop :: "heap \<Rightarrow> addr option \<Rightarrow> u64 \<Rightarrow> bool option" where
  "exist_loop h tmp e =
     (case tmp of
        None \<Rightarrow> Some False
      | Some t \<Rightarrow> if element (h t) = e then Some True else exist_loop h (nxt (h t)) e)"

definition list_element_exist :: "heap \<Rightarrow> addr \<Rightarrow> u64 \<Rightarrow> bool option" where
  "list_element_exist h head e = exist_loop h (nxt (h head)) e"

text \<open>
  \<open>clear_list_head\<close> returns the heap and the nodes it destroyed, in order; the element
  of each is what \<open>free_element\<close> receives.
\<close>

partial_function (option) clear_loop ::
    "heap \<Rightarrow> addr option \<Rightarrow> addr list \<Rightarrow> (heap \<times> addr list) option" where
  "clear_loop h elem destroyed =
     (case elem of
        None \<Rightarrow> Some (h, rev destroyed)
      | Some e \<Rightarrow> clear_loop (remove_list_node h e) (nxt (h e)) (e # destroyed))"

definition clear_list_head :: "heap \<Rightarrow> addr \<Rightarrow> (heap \<times> addr list) option" where
  "clear_list_head h head =
     (case clear_loop h (nxt (h head)) [] of
        None \<Rightarrow> None
      | Some (h, destroyed) \<Rightarrow>
          Some (h(head := (h head)\<lparr>nxt := None, pre := None\<rparr>), destroyed))"

section \<open>Queues\<close>

record queue =
  q_last :: addr
  q_first :: addr
  element_number :: int

definition init_queue :: "heap \<Rightarrow> queue \<Rightarrow> heap \<times> queue" where
  "init_queue h q =
     (let h = h(q_first q := (h (q_first q))\<lparr>nxt := Some (q_last q)\<rparr>);
          h = h(q_first q := (h (q_first q))\<lparr>pre := None\<rparr>);
          h = h(q_last q := (h (q_last q))\<lparr>pre := Some (q_first q)\<rparr>);
          h = h(q_last q := (h (q_last q))\<lparr>nxt := None\<rparr>)
      in (h, q\<lparr>element_number := 0\<rparr>))"

definition add_queue :: "heap \<times> queue \<Rightarrow> addr \<Rightarrow> heap \<times> queue" where
  "add_queue s node =
     (case s of (h, q) \<Rightarrow>
        (add_list_node_pre h (q_last q) node, q\<lparr>element_number := element_number q + 1\<rparr>))"

definition add_queue_first :: "heap \<times> queue \<Rightarrow> addr \<Rightarrow> heap \<times> queue" where
  "add_queue_first s node =
     (case s of (h, q) \<Rightarrow>
        (add_list_node h (q_first q) node, q\<lparr>element_number := element_number q + 1\<rparr>))"

definition get_queue_first :: "heap \<times> queue \<Rightarrow> addr option" where
  "get_queue_first s =
     (case s of (h, q) \<Rightarrow> if element_number q = 0 then None else nxt (h (q_first q)))"

definition get_queue_last :: "heap \<times> queue \<Rightarrow> addr option" where
  "get_queue_last s =
     (case s of (h, q) \<Rightarrow> if element_number q = 0 then None else pre (h (q_last q)))"

definition pop_queue :: "heap \<times> queue \<Rightarrow> addr option \<times> heap \<times> queue" where
  "pop_queue s =
     (case s of (h, q) \<Rightarrow>
        if element_number q = 0 then (None, s)
        else case nxt (h (q_first q)) of
               None \<Rightarrow> (None, s)
             | Some node \<Rightarrow>
                 (Some node, remove_list_node h node,
                  q\<lparr>element_number := element_number q - 1\<rparr>))"

definition pop_queue_last :: "heap \<times> queue \<Rightarrow> addr option \<times> heap \<times> queue" where
  "pop_queue_last s =
     (case s of (h, q) \<Rightarrow>
        if element_number q = 0 then (None, s)
        else case pre (h (q_last q)) of
               None \<Rightarrow> (None, s)
             | Some node \<Rightarrow>
                 (Some node, remove_list_node h node,
                  q\<lparr>element_number := element_number q - 1\<rparr>))"

partial_function (option) queue_exist_loop ::
    "heap \<Rightarrow> addr \<Rightarrow> addr option \<Rightarrow> u64 \<Rightarrow> bool option" where
  "queue_exist_loop h lst node e =
     (case node of
        None \<Rightarrow> None
      | Some n \<Rightarrow>
          if n = lst then Some False
          else if element (h n) = e then Some True
          else queue_exist_loop h lst (nxt (h n)) e)"

definition queue_exist :: "heap \<times> queue \<Rightarrow> u64 \<Rightarrow> bool option" where
  "queue_exist s e =
     (case s of (h, q) \<Rightarrow> queue_exist_loop h (q_last q) (nxt (h (q_first q))) e)"

section \<open>Chains\<close>

definition linked :: "heap \<Rightarrow> addr \<Rightarrow> addr \<Rightarrow> bool" where
  "linked h x y \<longleftrightarrow> nxt (h x) = Some y \<and> pre (h y) = Some x"

definition chain :: "heap \<Rightarrow> addr list \<Rightarrow> bool" where
  "chain h xs \<longleftrightarrow>
     xs \<noteq> [] \<and> distinct xs \<and> successively (linked h) xs \<and> nxt (h (last xs)) = None"

definition hlist :: "heap \<Rightarrow> addr \<Rightarrow> addr list \<Rightarrow> bool" where
  "hlist h head xs \<longleftrightarrow> chain h (head # xs)"

definition queue_rep :: "heap \<times> queue \<Rightarrow> addr list \<Rightarrow> bool" where
  "queue_rep s xs \<longleftrightarrow>
     (case s of (h, q) \<Rightarrow>
        chain h (q_first q # xs @ [q_last q]) \<and> element_number q = int (length xs))"

lemma chain_nxt_Some: "chain h (us @ p # n # vs) \<Longrightarrow> nxt (h p) = Some n"
  by (auto simp: chain_def successively_append_iff linked_def)

lemma chain_pre_Some: "chain h (us @ p # n # vs) \<Longrightarrow> pre (h n) = Some p"
  by (auto simp: chain_def successively_append_iff linked_def)

lemma chain_nxt_None: "chain h (us @ [p]) \<Longrightarrow> nxt (h p) = None"
  by (simp add: chain_def)

lemma chain_distinct: "chain h xs \<Longrightarrow> distinct xs"
  by (simp add: chain_def)

lemma nxt_add:
  "a \<noteq> p \<Longrightarrow> nxt (add_list_node h p a x) =
     (if x = p then Some a else if x = a then nxt (h p) else nxt (h x))"
  by (auto simp: add_list_node_def Let_def split: option.split)

lemma pre_add:
  "a \<noteq> p \<Longrightarrow> pre (add_list_node h p a x) =
     (if nxt (h p) = Some x then Some a else if x = a then Some p else pre (h x))"
  by (auto simp: add_list_node_def Let_def split: option.split)

lemma nxt_add_pre:
  "a \<noteq> l \<Longrightarrow> nxt (add_list_node_pre h l a x) =
     (if pre (h l) = Some x then Some a else if x = a then Some l else nxt (h x))"
  by (auto simp: add_list_node_pre_def Let_def split: option.split)

lemma pre_add_pre:
  "a \<noteq> l \<Longrightarrow> pre (add_list_node_pre h l a x) =
     (if x = l then Some a else if x = a then pre (h l) else pre (h x))"
  by (auto simp: add_list_node_pre_def Let_def split: option.split)

lemma nxt_remove:
  "nxt (remove_list_node h a x) =
     (if x = a then None else if pre (h a) = Some x then nxt (h a) else nxt (h x))"
  by (auto simp: remove_list_node_def Let_def split: option.split)

lemma pre_remove:
  "pre (remove_list_node h a x) =
     (if x = a then None else if nxt (h a) = Some x then pre (h a) else pre (h x))"
  by (auto simp: remove_list_node_def Let_def split: option.split)

lemma element_ops [simp]:
  "element (add_list_node h p a x) = element (h x)"
  "element (add_list_node_pre h p a x) = element (h x)"
  "element (remove_list_node h a x) = element (h x)"
  by (auto simp: add_list_node_def add_list_node_pre_def remove_list_node_def Let_def
      split: option.split)

lemma chain_add:
  assumes c: "chain h (us @ p # vs)" and a: "a \<notin> set (us @ p # vs)"
  shows "chain (add_list_node h p a) (us @ p # a # vs)"
proof -
  let ?h = "add_list_node h p a"
  have ap: "a \<noteq> p" using a by auto
  have np: "nxt (h p) = (case vs of [] \<Rightarrow> None | n # _ \<Rightarrow> Some n)"
    using c chain_nxt_Some [of h us p] chain_nxt_None [of h us p] by (cases vs) auto
  have d: "distinct (us @ p # vs)" using c by (rule chain_distinct)
  have l: "successively (linked h) (us @ [p])" "successively (linked h) (p # vs)"
    using c by (auto simp: chain_def successively_append_iff)
  have "successively (linked ?h) (us @ [p])"
    using l(1) by (rule successively_mono)
      (use d a np ap in \<open>auto simp: linked_def nxt_add pre_add split: list.splits\<close>)
  moreover have "successively (linked ?h) vs"
  proof (cases vs)
    case (Cons n ws)
    have "successively (linked h) vs" using l(2) Cons by simp
    moreover have "pre (h n) = Some p" using c Cons chain_pre_Some by blast
    ultimately show ?thesis
      by (elim successively_mono)
        (use d a np ap Cons in \<open>auto simp: linked_def nxt_add pre_add\<close>)
  qed simp
  moreover have "linked ?h p a" using ap np d a by (auto simp: linked_def nxt_add pre_add split: list.splits)
  moreover have "vs \<noteq> [] \<Longrightarrow> linked ?h a (hd vs)"
    using ap np d a by (cases vs) (auto simp: linked_def nxt_add pre_add)
  moreover have "nxt (?h (last (us @ p # a # vs))) = None"
  proof (cases "vs = []")
    case True
    then show ?thesis using ap np by (simp add: nxt_add)
  next
    case False
    then have "last vs \<in> set vs" by simp
    then have "last vs \<noteq> p" "last vs \<noteq> a" using d a by auto
    then show ?thesis using False c ap by (simp add: nxt_add chain_def)
  qed
  ultimately show ?thesis
    using d a by (auto simp: chain_def successively_append_iff successively_Cons)
qed

lemma chain_remove:
  assumes c: "chain h (us @ p # a # vs)"
  shows "chain (remove_list_node h a) (us @ p # vs)"
proof -
  let ?h = "remove_list_node h a"
  have pa: "pre (h a) = Some p" using c chain_pre_Some by blast
  have na: "nxt (h a) = (case vs of [] \<Rightarrow> None | n # _ \<Rightarrow> Some n)"
    using c chain_nxt_Some [of h "us @ [p]" a] chain_nxt_None [of h "us @ [p]" a] by (cases vs) auto
  have d: "distinct (us @ p # a # vs)" using c by (rule chain_distinct)
  have l: "successively (linked h) (us @ [p])" "successively (linked h) (a # vs)"
    using c by (auto simp: chain_def successively_append_iff)
  have np: "nxt (h p) = Some a" using c chain_nxt_Some by blast
  have "successively (linked ?h) (us @ [p])"
    using l(1) by (rule successively_mono)
      (use d pa na np in \<open>auto simp: linked_def nxt_remove pre_remove split: list.splits\<close>)
  moreover have "successively (linked ?h) vs"
  proof (cases vs)
    case (Cons n ws)
    have "successively (linked h) vs" using l(2) Cons by simp
    moreover have "pre (h n) = Some a" using c Cons chain_pre_Some [of h "us @ [p]"] by simp
    ultimately show ?thesis
      by (elim successively_mono)
        (use d pa na Cons in \<open>auto simp: linked_def nxt_remove pre_remove\<close>)
  qed simp
  moreover have "vs \<noteq> [] \<Longrightarrow> linked ?h p (hd vs)"
    using pa na d by (cases vs) (auto simp: linked_def nxt_remove pre_remove)
  moreover have "nxt (?h (last (us @ p # vs))) = None"
  proof (cases "vs = []")
    case True
    then show ?thesis using pa na d by (simp add: nxt_remove)
  next
    case False
    then have "last vs \<in> set vs" by simp
    then have "last vs \<noteq> p" "last vs \<noteq> a" using d by auto
    then show ?thesis using False c pa by (simp add: nxt_remove chain_def)
  qed
  ultimately show ?thesis
    using d by (auto simp: chain_def successively_append_iff successively_Cons)
qed

text \<open>Inserting before a node with a predecessor writes the same links as inserting after it.\<close>

lemma chain_add_pre:
  assumes c: "chain h (us @ p # l # vs)" and a: "a \<notin> set (us @ p # l # vs)"
  shows "chain (add_list_node_pre h l a) (us @ p # a # l # vs)"
proof -
  let ?h = "add_list_node_pre h l a" and ?g = "add_list_node h p a"
  have links: "nxt (h p) = Some l" "pre (h l) = Some p"
    using c chain_nxt_Some chain_pre_Some by blast+
  have ne: "a \<noteq> p" "a \<noteq> l" "p \<noteq> l" using a chain_distinct [OF c] by auto
  have "nxt (?h x) = nxt (?g x)" "pre (?h x) = pre (?g x)" for x
    using links ne by (auto simp: nxt_add nxt_add_pre pre_add pre_add_pre)
  then have "linked ?h = linked ?g" "nxt (?h x) = nxt (?g x)" for x
    by (auto simp: linked_def fun_eq_iff)
  then show ?thesis using chain_add [OF c a] by (simp add: chain_def)
qed

section \<open>Lists with a head node\<close>

text \<open>The specification of the ordered insertion, on the list of node addresses.\<close>

fun insert_cmp :: "('a \<Rightarrow> 'a \<Rightarrow> int) \<Rightarrow> 'a list \<Rightarrow> 'a \<Rightarrow> 'a list \<times> int" where
  "insert_cmp compare [] a = ([a], 0)"
| "insert_cmp compare (c # cs) a =
     (if compare c a > 0 then (a # c # cs, 0)
      else if compare c a < 0
           then (case insert_cmp compare cs a of (cs', r) \<Rightarrow> (c # cs', r))
           else (c # cs, - 1))"

lemma compare_loop_insert:
  assumes "chain h (us @ p # cs)" "a \<notin> set (us @ p # cs)"
  shows "\<exists>h'. compare_loop h compare p (nxt (h p)) a = Some (h', snd (insert_cmp compare cs a)) \<and>
              chain h' (us @ p # fst (insert_cmp compare cs a)) \<and>
              (\<forall>x. element (h' x) = element (h x))"
  using assms
proof (induction cs arbitrary: us p)
  case Nil
  then have "nxt (h p) = None" by (simp add: chain_nxt_None)
  then show ?case using chain_add [of h us p "[]" a] Nil
    by (subst compare_loop.simps) simp
next
  case (Cons c cs)
  have n: "nxt (h p) = Some c" using Cons.prems(1) by (rule chain_nxt_Some)
  consider "compare c a > 0" | "compare c a < 0" | "compare c a = 0" by linarith
  then show ?case
  proof cases
    case 1
    then show ?thesis using n chain_add [OF Cons.prems] by (subst compare_loop.simps) simp
  next
    case 2
    then show ?thesis using n Cons.IH [of "us @ [p]" c] Cons.prems
      by (subst compare_loop.simps) (simp add: split_beta)
  next
    case 3
    then show ?thesis using n Cons.prems by (subst compare_loop.simps) simp
  qed
qed

lemma add_list_node_compare_refines:
  assumes "hlist h head xs" "a \<notin> set (head # xs)"
  shows "\<exists>h'. add_list_node_compare h head a compare = Some (h', snd (insert_cmp compare xs a)) \<and>
              hlist h' head (fst (insert_cmp compare xs a)) \<and>
              (\<forall>x. element (h' x) = element (h x))"
  using compare_loop_insert [of h "[]" head xs a compare] assms
  by (simp add: hlist_def add_list_node_compare_def)

lemma exist_loop_chain:
  assumes "chain h (us @ p # xs)"
  shows "exist_loop h (nxt (h p)) e = Some (\<exists>x \<in> set xs. element (h x) = e)"
  using assms
proof (induction xs arbitrary: us p)
  case Nil
  then show ?case by (subst exist_loop.simps) (simp add: chain_nxt_None)
next
  case (Cons x xs)
  then have "nxt (h p) = Some x" by (blast intro: chain_nxt_Some)
  then show ?case using Cons.IH [of "us @ [p]" x] Cons.prems by (subst exist_loop.simps) simp
qed

lemma list_element_exist_iff:
  "hlist h head xs \<Longrightarrow>
   list_element_exist h head e = Some (\<exists>x \<in> set xs. element (h x) = e)"
  using exist_loop_chain [of h "[]" head xs e] by (simp add: hlist_def list_element_exist_def)

lemma clear_loop_chain:
  assumes "chain h (p # xs)"
  shows "\<exists>h'. clear_loop h (nxt (h p)) ds = Some (h', rev ds @ xs) \<and> chain h' [p]"
  using assms
proof (induction xs arbitrary: h ds)
  case Nil
  then show ?case using chain_nxt_None [of h "[]" p] by (subst clear_loop.simps) simp
next
  case (Cons x xs)
  have n: "nxt (h p) = Some x" using Cons.prems chain_nxt_Some [of h "[]"] by simp
  have c: "chain (remove_list_node h x) (p # xs)"
    using Cons.prems chain_remove [of h "[]"] by simp
  have "pre (h x) = Some p" "p \<noteq> x"
    using Cons.prems chain_pre_Some [of h "[]"] chain_distinct by fastforce+
  then have "nxt (remove_list_node h x p) = nxt (h x)" by (simp add: nxt_remove)
  then show ?case using Cons.IH [OF c, of "x # ds"] n
    by (subst clear_loop.simps) simp
qed

text \<open>Clearing destroys every node once, in list order, and leaves the empty list.\<close>

lemma clear_list_head_refines:
  "hlist h head xs \<Longrightarrow>
   \<exists>h'. clear_list_head h head = Some (h', xs) \<and> hlist h' head []"
  using clear_loop_chain [of h head xs "[]"]
  by (auto simp: hlist_def clear_list_head_def chain_def)

section \<open>Ordered insertion\<close>

text \<open>
  The callbacks handed to \<open>add_list_node_compare\<close> (\<open>skb_offset_cmp\<close>, \<open>tcp_seq_cmp\<close>) are used
  under this contract: on the elements that can be in one list they behave as a
  comparison. What insertion then guarantees is proved once here.
\<close>

locale cmp_order =
  fixes carrier :: "'a set" and compare :: "'a \<Rightarrow> 'a \<Rightarrow> int"
  assumes cmp_flip: "x \<in> carrier \<Longrightarrow> y \<in> carrier \<Longrightarrow> 0 < compare x y \<longleftrightarrow> compare y x < 0"
    and cmp_trans: "x \<in> carrier \<Longrightarrow> y \<in> carrier \<Longrightarrow> z \<in> carrier \<Longrightarrow>
                    compare x y < 0 \<Longrightarrow> compare y z < 0 \<Longrightarrow> compare x z < 0"
begin

lemma insert_cmp_set:
  "set (fst (insert_cmp compare xs a)) =
     (if snd (insert_cmp compare xs a) = 0 then insert a (set xs) else set xs)"
  by (induction xs) (auto simp: split_beta)

lemma insert_cmp_sorted:
  assumes "set xs \<subseteq> carrier" "a \<in> carrier" "sorted_wrt (\<lambda>x y. compare x y < 0) xs"
  shows "sorted_wrt (\<lambda>x y. compare x y < 0) (fst (insert_cmp compare xs a))"
  using assms
proof (induction xs)
  case (Cons c cs)
  consider "0 < compare c a" | "compare c a < 0" | "compare c a = 0" by linarith
  then show ?case
  proof cases
    case 1
    then have "compare a c < 0" using Cons.prems cmp_flip by auto
    moreover have "compare a y < 0" if "y \<in> set cs" for y
      using that calculation Cons.prems cmp_trans [of a c y] by auto
    ultimately show ?thesis using 1 Cons.prems by auto
  next
    case 2
    then show ?thesis using Cons insert_cmp_set [of cs a] by (auto simp: split_beta split: if_splits)
  next
    case 3
    then show ?thesis using Cons by simp
  qed
qed simp

lemma insert_cmp_rejects:
  assumes "set xs \<subseteq> carrier" "a \<in> carrier" "sorted_wrt (\<lambda>x y. compare x y < 0) xs"
  shows "snd (insert_cmp compare xs a) \<noteq> 0 \<longleftrightarrow> (\<exists>x \<in> set xs. compare x a = 0)"
  using assms
proof (induction xs)
  case (Cons c cs)
  consider "0 < compare c a" | "compare c a < 0" | "compare c a = 0" by linarith
  then show ?case
  proof cases
    case 1
    then have ac: "compare a c < 0" using Cons.prems cmp_flip by auto
    have "compare y a \<noteq> 0" if "y \<in> set cs" for y
    proof -
      have "compare a y < 0" using that ac Cons.prems cmp_trans [of a c y] by auto
      then have "0 < compare y a" using that Cons.prems cmp_flip [of y a] by auto
      then show ?thesis by simp
    qed
    then show ?thesis using 1 by auto
  next
    case 2
    then show ?thesis using Cons by (auto simp: split_beta)
  next
    case 3
    then show ?thesis by simp
  qed
qed simp

end

section \<open>Queue operations\<close>

definition queue_ends :: "heap \<times> queue \<Rightarrow> addr set" where
  "queue_ends s = {q_first (snd s), q_last (snd s)}"

lemma queue_ends_ops [simp]:
  "queue_ends (add_queue s a) = queue_ends s"
  "queue_ends (add_queue_first s a) = queue_ends s"
  "queue_ends (snd (pop_queue s)) = queue_ends s"
  "queue_ends (snd (pop_queue_last s)) = queue_ends s"
  by (auto simp: queue_ends_def add_queue_def add_queue_first_def pop_queue_def pop_queue_last_def
      split: prod.split option.split)

lemma Cons_as_snoc: "x # xs = us @ [p] \<Longrightarrow> x # xs @ zs = us @ p # zs"
  by (metis append.assoc append_Cons append_Nil)

lemma init_queue_rep: "q_first q \<noteq> q_last q \<Longrightarrow> queue_rep (init_queue h q) []"
  by (auto simp: init_queue_def queue_rep_def chain_def linked_def Let_def)

lemma add_queue_rep:
  assumes "queue_rep s xs" "a \<notin> set xs" "a \<notin> queue_ends s"
  shows "queue_rep (add_queue s a) (xs @ [a])"
proof -
  obtain h q where s: "s = (h, q)" by (cases s)
  obtain us p where up: "q_first q # xs = us @ [p]"
    by (metis list.distinct(1) rev_exhaust)
  have "chain h (us @ p # q_last q # [])"
    using assms(1) by (simp add: s queue_rep_def Cons_as_snoc [OF up])
  moreover have "a \<notin> set (us @ p # q_last q # [])"
    using assms up by (auto simp: s queue_ends_def dest!: arg_cong [where f = set])
  ultimately have "chain (add_list_node_pre h (q_last q) a) ((us @ [p]) @ [a, q_last q])"
    using chain_add_pre by fastforce
  then show ?thesis using assms(1) by (simp add: s queue_rep_def add_queue_def flip: up)
qed

lemma add_queue_first_rep:
  assumes "queue_rep s xs" "a \<notin> set xs" "a \<notin> queue_ends s"
  shows "queue_rep (add_queue_first s a) (a # xs)"
  using assms chain_add [of "fst s" "[]" "q_first (snd s)" "xs @ [q_last (snd s)]" a]
  by (auto simp: queue_rep_def add_queue_first_def queue_ends_def)

lemma pop_queue_rep:
  "queue_rep s [] \<Longrightarrow> pop_queue s = (None, s)"
  "queue_rep s (x # xs) \<Longrightarrow>
     fst (pop_queue s) = Some x \<and> queue_rep (snd (pop_queue s)) xs"
  using chain_remove [of "fst s" "[]" "q_first (snd s)" x "xs @ [q_last (snd s)]"]
    chain_nxt_Some [of "fst s" "[]" "q_first (snd s)" x "xs @ [q_last (snd s)]"]
  by (auto simp: queue_rep_def pop_queue_def split_beta)

lemma pop_queue_last_rep:
  "queue_rep s [] \<Longrightarrow> pop_queue_last s = (None, s)"
  "queue_rep s (xs @ [x]) \<Longrightarrow>
     fst (pop_queue_last s) = Some x \<and> queue_rep (snd (pop_queue_last s)) xs"
proof -
  assume r: "queue_rep s (xs @ [x])"
  obtain h q where s: "s = (h, q)" by (cases s)
  obtain us p where up: "q_first q # xs = us @ [p]"
    by (metis list.distinct(1) rev_exhaust)
  have c: "chain h (us @ p # x # [q_last q])"
    using r by (simp add: s queue_rep_def Cons_as_snoc [OF up])
  then have "pre (h (q_last q)) = Some x" using chain_pre_Some [of h "us @ [p]" x] by simp
  moreover have "chain (remove_list_node h x) (q_first q # xs @ [q_last q])"
    using chain_remove [OF c] by (simp add: Cons_as_snoc [OF up])
  ultimately show "fst (pop_queue_last s) = Some x \<and> queue_rep (snd (pop_queue_last s)) xs"
    using r by (simp add: s queue_rep_def pop_queue_last_def)
qed (auto simp: queue_rep_def pop_queue_last_def)

lemma get_queue_first_rep:
  "queue_rep s xs \<Longrightarrow> get_queue_first s = (case xs of [] \<Rightarrow> None | x # _ \<Rightarrow> Some x)"
  using chain_nxt_Some [of "fst s" "[]" "q_first (snd s)"]
  by (fastforce simp: queue_rep_def get_queue_first_def split: list.split)

lemma queue_exist_loop_chain:
  assumes "chain h (us @ p # xs @ [l])"
  shows "queue_exist_loop h l (nxt (h p)) e = Some (\<exists>x \<in> set xs. element (h x) = e)"
  using assms
proof (induction xs arbitrary: us p)
  case Nil
  then have "nxt (h p) = Some l" using chain_nxt_Some [of h us p l] by simp
  then show ?case by (subst queue_exist_loop.simps) simp
next
  case (Cons x xs)
  then have "nxt (h p) = Some x" using chain_nxt_Some [of h us p x] by simp
  moreover have "x \<noteq> l" using chain_distinct [OF Cons.prems] by auto
  ultimately show ?case using Cons.IH [of "us @ [p]" x] Cons.prems
    by (subst queue_exist_loop.simps) simp
qed

lemma queue_exist_iff:
  "queue_rep s xs \<Longrightarrow> queue_exist s e = Some (\<exists>x \<in> set xs. element (fst s x) = e)"
  using queue_exist_loop_chain [of "fst s" "[]" "q_first (snd s)" xs "q_last (snd s)" e]
  by (auto simp: queue_rep_def queue_exist_def split: prod.split)

section \<open>The queue interface\<close>

text \<open>
  What the rest of the stack relies on: a state represents a list of nodes, insertion at
  either end and removal at either end act on that list, and a node may be queued when
  it is in the queue neither as an element nor as a sentinel.
\<close>

fun pops :: "('s \<Rightarrow> 'a option \<times> 's) \<Rightarrow> nat \<Rightarrow> 's \<Rightarrow> 'a option list" where
  "pops pop 0 s = []"
| "pops pop (Suc n) s = (case pop s of (r, s') \<Rightarrow> r # pops pop n s')"

locale node_queue =
  fixes rep :: "'s \<Rightarrow> 'a list \<Rightarrow> bool" and ends :: "'s \<Rightarrow> 'a set"
    and enq :: "'s \<Rightarrow> 'a \<Rightarrow> 's" and deq :: "'s \<Rightarrow> 'a option \<times> 's"
  assumes enq_rep: "rep s xs \<Longrightarrow> a \<notin> set xs \<Longrightarrow> a \<notin> ends s \<Longrightarrow> rep (enq s a) (xs @ [a])"
    and enq_ends: "ends (enq s a) = ends s"
    and deq_nil: "rep s [] \<Longrightarrow> deq s = (None, s)"
    and deq_cons: "rep s (x # xs) \<Longrightarrow> fst (deq s) = Some x \<and> rep (snd (deq s)) xs"
begin

lemma enq_all:
  assumes "rep s xs" "distinct (xs @ ys)" "set ys \<inter> ends s = {}"
  shows "rep (foldl enq s ys) (xs @ ys)"
  using assms
proof (induction ys arbitrary: s xs)
  case (Cons y ys)
  have "rep (enq s y) (xs @ [y])" using Cons.prems enq_rep by simp
  then show ?case using Cons.IH [of "enq s y" "xs @ [y]"] Cons.prems by (simp add: enq_ends)
qed simp

lemma deq_all:
  "rep s xs \<Longrightarrow> pops deq (length xs + k) s = map Some xs @ replicate k None"
proof (induction xs arbitrary: s)
  case Nil
  then show ?case by (induction k) (simp_all add: deq_nil)
next
  case (Cons x xs)
  then show ?case using deq_cons [of s x xs] by (auto simp: split_beta)
qed

lemma fifo:
  assumes "rep s xs" "distinct (xs @ ys)" "set ys \<inter> ends s = {}"
  shows "pops deq (length xs + length ys + k) (foldl enq s ys) =
           map Some (xs @ ys) @ replicate k None"
  using deq_all [OF enq_all [OF assms], of k] by (simp add: add.assoc)

end

interpretation heap_queue: node_queue queue_rep queue_ends add_queue pop_queue
  by unfold_locales (auto simp: add_queue_rep pop_queue_rep)

interpretation heap_stack: node_queue "\<lambda>s xs. queue_rep s (rev xs)" queue_ends
    add_queue_first pop_queue_last
  by unfold_locales (auto simp: add_queue_first_rep pop_queue_last_rep)

section \<open>Properties\<close>

text \<open>
  \<open>queue\<close> is first-in first-out on the real pointers: after \<open>init_queue\<close>, adding distinct
  nodes with \<open>add_queue\<close> and popping them with \<open>pop_queue\<close> returns exactly these nodes in
  order, and every further pop returns \<^const>\<open>None\<close>.
\<close>

theorem queue_fifo:
  assumes "q_first q \<noteq> q_last q" and "distinct ys" and "set ys \<inter> {q_first q, q_last q} = {}"
  shows "pops pop_queue (length ys + k) (foldl add_queue (init_queue h q) ys) =
           map Some ys @ replicate k None"
proof -
  have "queue_ends (init_queue h q) = {q_first q, q_last q}"
    by (simp add: queue_ends_def init_queue_def Let_def)
  then show ?thesis
    using heap_queue.fifo [OF init_queue_rep [OF assms(1), of h], of ys k] assms by simp
qed

lemma queue_fifo_witness:
  "pops pop_queue (length [5, 3, 4 :: addr] + 2)
     (foldl add_queue (init_queue empty_heap \<lparr>q_last = 2, q_first = 1, element_number = 0\<rparr>) [5, 3, 4]) =
   map Some [5, 3, 4] @ replicate 2 None"
  by (rule queue_fifo) simp_all

text \<open>
  C28. \<open>add_list_node_compare\<close> ends on every well-formed list and leaves a well-formed list
  of the same elements: the insertion of \<open>insert_cmp\<close>, with the return value telling
  whether the node was linked. The two loops that walk or clear a list end as well, and
  clearing hands every node to the destructor exactly once.
\<close>

theorem list_ops_refine:
  assumes "hlist h head xs" and "a \<notin> set (head # xs)"
  shows "(\<exists>h'. add_list_node_compare h head a compare = Some (h', snd (insert_cmp compare xs a)) \<and>
               hlist h' head (fst (insert_cmp compare xs a))) \<and>
         list_element_exist h head e = Some (\<exists>x \<in> set xs. element (h x) = e) \<and>
         (\<exists>h'. clear_list_head h head = Some (h', xs) \<and> hlist h' head [])"
  using add_list_node_compare_refines [OF assms, of compare] list_element_exist_iff [OF assms(1)]
    clear_list_head_refines [OF assms(1)] by blast

definition list_example :: heap where
  "list_example = empty_heap(0 := \<lparr>pre = None, nxt = Some 7, element = 0\<rparr>,
     7 := \<lparr>pre = Some 0, nxt = None, element = 3\<rparr>)"

lemma list_ops_refine_witness:
  "(\<exists>h'. add_list_node_compare list_example 0 5 (\<lambda>x y. int x - int y) =
           Some (h', snd (insert_cmp (\<lambda>x y. int x - int y) [7] 5)) \<and>
         hlist h' 0 (fst (insert_cmp (\<lambda>x y. int x - int y) [7] 5))) \<and>
   list_element_exist list_example 0 3 = Some (\<exists>x \<in> set [7]. element (list_example x) = 3) \<and>
   (\<exists>h'. clear_list_head list_example 0 = Some (h', [7]) \<and> hlist h' 0 [])"
  by (rule list_ops_refine)
    (simp_all add: hlist_def chain_def linked_def list_example_def)

end
