(* ===== verification/HashTable.thy ===== *)
theory HashTable
  imports Prelude
begin

text \<open>
  The intrusive chained hash table of \<^verbatim>\<open>src/lib/hash.c\<close>. A node's \<open>pprev\<close> is the address of
  the pointer that points at it, here a \<open>slot\<close>: a bucket of the table or the \<open>next\<close> field
  of another node. The table is shown to implement a finite map from keys to nodes, and
  the interface the other components use is the locale \<open>key_table\<close>.

  The bucket locks (\<open>HASH_BUCKET_RDLOCK\<close> and its companions) make each operation below
  atomic on its bucket; their own correctness is in theory \<open>Sync\<close>.
\<close>

section \<open>The code\<close>

type_synonym node_addr = nat

datatype slot = Bucket nat | NextOf node_addr

record hash_node =
  hn_next :: "node_addr option"
  pprev :: "slot option"
  hn_hash :: u32
  hn_key :: "u8 list"

record hash =
  buckets :: "node_addr option list"
  mask :: u32
  key_len :: nat
  hnodes :: "node_addr \<Rightarrow> hash_node"

definition MIN_HASH_SIZE :: u32 where
  "MIN_HASH_SIZE = 256"

partial_function (option) round_loop :: "u32 \<Rightarrow> u32 \<Rightarrow> u32 option" where
  "round_loop requested sz =
     (if sz < requested \<and> sz \<le> 0xFFFFFFFF div 2 then round_loop requested (push_bit 1 sz)
      else Some sz)"

definition round_hash_size :: "u32 \<Rightarrow> u32 option" where
  "round_hash_size requested =
     (case round_loop requested MIN_HASH_SIZE of
        None \<Rightarrow> None
      | Some sz \<Rightarrow> Some (if sz \<ge> requested then sz else 0))"

text \<open>
  \<open>calloc_h\<close> and \<open>calloc_b\<close> tell whether the two allocations succeed. The outer option is
  the loop of \<open>round_hash_size\<close>, the inner one the returned pointer.
\<close>

definition hash_create :: "bool \<Rightarrow> bool \<Rightarrow> (node_addr \<Rightarrow> hash_node) \<Rightarrow> u32 \<Rightarrow> nat \<Rightarrow> hash option option"
  where
  "hash_create calloc_h calloc_b ns requested klen =
     (case round_hash_size requested of
        None \<Rightarrow> None
      | Some sz \<Rightarrow>
          if sz = 0 then Some None
          else if \<not> calloc_h then Some None
          else if \<not> calloc_b then Some None
          else Some (Some \<lparr>buckets = replicate (unat sz) None, mask = sz - 1,
                           key_len = klen, hnodes = ns\<rparr>))"

text \<open>The loop of \<open>general_hash_algorithm\<close> over the bytes (FNV-1a).\<close>

definition general_hash_algorithm :: "u8 list \<Rightarrow> u32" where
  "general_hash_algorithm data =
     fold (\<lambda>b v. (v XOR ucast b) * 16777619) data 2166136261"

definition hash_bucket_index :: "hash \<Rightarrow> u32 \<Rightarrow> nat" where
  "hash_bucket_index h v = unat (v AND mask h)"

partial_function (option) find_loop ::
    "hash \<Rightarrow> node_addr option \<Rightarrow> u8 list \<Rightarrow> u32 \<Rightarrow> node_addr option option" where
  "find_loop h node key v =
     (case node of
        None \<Rightarrow> Some None
      | Some n \<Rightarrow>
          if hn_hash (hnodes h n) = v \<and>
             take (key_len h) (hn_key (hnodes h n)) = take (key_len h) key
          then Some (Some n)
          else find_loop h (hn_next (hnodes h n)) key v)"

definition hash_find_node_locked :: "hash \<Rightarrow> nat \<Rightarrow> u8 list \<Rightarrow> u32 \<Rightarrow> node_addr option option" where
  "hash_find_node_locked h index key v = find_loop h (buckets h ! index) key v"

definition upd_node :: "node_addr \<Rightarrow> (hash_node \<Rightarrow> hash_node) \<Rightarrow> hash \<Rightarrow> hash" where
  "upd_node a f h = h\<lparr>hnodes := (hnodes h)(a := f (hnodes h a))\<rparr>"

definition write_slot :: "slot \<Rightarrow> node_addr option \<Rightarrow> hash \<Rightarrow> hash" where
  "write_slot s v h =
     (case s of
        Bucket i \<Rightarrow> h\<lparr>buckets := (buckets h)[i := v]\<rparr>
      | NextOf a \<Rightarrow> upd_node a (\<lambda>n. n\<lparr>hn_next := v\<rparr>) h)"

definition hash_link_node_locked :: "hash \<Rightarrow> nat \<Rightarrow> node_addr \<Rightarrow> u32 \<Rightarrow> hash" where
  "hash_link_node_locked h index node v =
     (let h = upd_node node (\<lambda>n. n\<lparr>hn_hash := v\<rparr>) h;
          h = upd_node node (\<lambda>n. n\<lparr>hn_next := buckets h ! index\<rparr>) h;
          h = upd_node node (\<lambda>n. n\<lparr>pprev := Some (Bucket index)\<rparr>) h;
          h = (case hn_next (hnodes h node) of
                 None \<Rightarrow> h
               | Some m \<Rightarrow> upd_node m (\<lambda>n. n\<lparr>pprev := Some (NextOf node)\<rparr>) h)
      in write_slot (Bucket index) (Some node) h)"

text \<open>A node that is in no table has no \<open>pprev\<close>; writing through it is the C undefined case \<^const>\<open>None\<close>.\<close>

definition hash_unlink_node_locked :: "hash \<Rightarrow> node_addr \<Rightarrow> hash option" where
  "hash_unlink_node_locked h node =
     (case pprev (hnodes h node) of
        None \<Rightarrow> None
      | Some s \<Rightarrow>
          let nx = hn_next (hnodes h node);
              h = write_slot s nx h;
              h = (case nx of
                     None \<Rightarrow> h
                   | Some m \<Rightarrow> upd_node m (\<lambda>n. n\<lparr>pprev := pprev (hnodes h node)\<rparr>) h);
              h = upd_node node (\<lambda>n. n\<lparr>hn_next := None\<rparr>) h
          in Some (upd_node node (\<lambda>n. n\<lparr>pprev := None\<rparr>) h))"

definition hash_find_node :: "hash \<Rightarrow> u8 list \<Rightarrow> node_addr option option" where
  "hash_find_node h key =
     (let v = general_hash_algorithm (take (key_len h) key) in
      hash_find_node_locked h (hash_bucket_index h v) key v)"

definition hash_add_node :: "hash \<Rightarrow> node_addr \<Rightarrow> (bool \<times> hash) option" where
  "hash_add_node h node =
     (let key = hn_key (hnodes h node);
          v = general_hash_algorithm (take (key_len h) key);
          index = hash_bucket_index h v
      in case hash_find_node_locked h index key v of
           None \<Rightarrow> None
         | Some r \<Rightarrow>
             let available = (r = None) in
             Some (available, if available then hash_link_node_locked h index node v else h))"

definition hash_del_node :: "hash \<Rightarrow> node_addr \<Rightarrow> hash option" where
  "hash_del_node h node = hash_unlink_node_locked h node"

definition hash_del_key :: "hash \<Rightarrow> u8 list \<Rightarrow> (node_addr option \<times> hash) option" where
  "hash_del_key h key =
     (let v = general_hash_algorithm (take (key_len h) key);
          index = hash_bucket_index h v
      in case hash_find_node_locked h index key v of
           None \<Rightarrow> None
         | Some None \<Rightarrow> Some (None, h)
         | Some (Some node) \<Rightarrow>
             (case hash_unlink_node_locked h node of
                None \<Rightarrow> None
              | Some h' \<Rightarrow> Some (Some node, h')))"

definition hash_is_empty :: "hash \<Rightarrow> bool" where
  "hash_is_empty h = list_all (\<lambda>b. b = None) (buckets h)"

section \<open>The size of a table\<close>

lemma round_loop_pow:
  assumes "unat sz = 2 ^ k" "k \<le> 31"
  shows "\<exists>r j. round_loop requested sz = Some r \<and> unat r = 2 ^ j \<and> k \<le> j \<and> j \<le> 31 \<and>
               (r < requested \<longrightarrow> j = 31)"
  using assms
proof (induction "31 - k" arbitrary: k sz)
  case 0
  then have "sz = 0x80000000" by (simp add: word_eq_iff_unat)
  then show ?case using 0 by (subst round_loop.simps) (auto simp: word_le_nat_alt intro!: exI [of _ 31])
next
  case (Suc d)
  show ?case
  proof (cases "sz < requested")
    case True
    have lt: "2 ^ Suc k \<le> (2 :: nat) ^ 31" using Suc by (intro power_increasing) auto
    have "unat (push_bit 1 sz) = 2 ^ Suc k"
      using Suc.prems lt by (simp add: push_bit_eq_mult unat_mult_no_wrap)
    moreover have "sz \<le> 0xFFFFFFFF div 2"
      using Suc.prems lt by (simp add: word_le_nat_alt unat_div)
    ultimately show ?thesis using True Suc.hyps(1) [of "Suc k" "push_bit 1 sz"] Suc.hyps(2)
      by (subst round_loop.simps) force
  next
    case False
    then show ?thesis using Suc.prems by (subst round_loop.simps) auto
  qed
qed

lemma round_hash_size_pow:
  "\<exists>r. round_hash_size requested = Some r \<and>
       (r = 0 \<longleftrightarrow> 0x80000000 < requested) \<and>
       (r \<noteq> 0 \<longrightarrow> requested \<le> r \<and> (\<exists>j \<ge> 8. j \<le> 31 \<and> unat r = 2 ^ j))"
proof -
  obtain r j where r: "round_loop requested MIN_HASH_SIZE = Some r" "unat r = 2 ^ j" "8 \<le> j"
    "j \<le> 31" "r < requested \<longrightarrow> j = 31"
    using round_loop_pow [of MIN_HASH_SIZE 8 requested] by (auto simp: MIN_HASH_SIZE_def)
  have "2 ^ j \<le> (2 :: nat) ^ 31" using r(4) by (intro power_increasing) auto
  then have "r \<noteq> 0" "r \<le> 0x80000000" using r(2) by (auto simp: word_le_nat_alt)
  moreover have "r < requested \<Longrightarrow> r = 0x80000000" using r(2,5) by (simp add: word_eq_iff_unat)
  ultimately show ?thesis
    using r by (auto simp: round_hash_size_def intro: exI [of _ j])
qed

section \<open>Bucket chains\<close>

fun hchain :: "(node_addr \<Rightarrow> hash_node) \<Rightarrow> slot \<Rightarrow> node_addr option \<Rightarrow> node_addr list \<Rightarrow> bool" where
  "hchain ns s p [] \<longleftrightarrow> p = None"
| "hchain ns s p (x # xs) \<longleftrightarrow>
     p = Some x \<and> pprev (ns x) = Some s \<and> hchain ns (NextOf x) (hn_next (ns x)) xs"

lemma hchain_cong:
  "(\<And>x. x \<in> set xs \<Longrightarrow> pprev (ns' x) = pprev (ns x) \<and> hn_next (ns' x) = hn_next (ns x)) \<Longrightarrow>
   hchain ns' s p xs = hchain ns s p xs"
  by (induction xs arbitrary: s p) auto

lemma hchain_pprev:
  "hchain ns s p (us @ x # vs) \<Longrightarrow>
   pprev (ns x) = Some (if us = [] then s else NextOf (last us))"
  by (induction us arbitrary: s p) auto

lemma hchain_next:
  "hchain ns s p (us @ x # vs) \<Longrightarrow>
   hn_next (ns x) = (case vs of [] \<Rightarrow> None | v # _ \<Rightarrow> Some v)"
  by (induction us arbitrary: s p) (cases vs; auto)+

lemma find_loop_chain:
  "hchain (hnodes h) s p xs \<Longrightarrow>
   find_loop h p key v =
     Some (List.find (\<lambda>n. hn_hash (hnodes h n) = v \<and>
                          take (key_len h) (hn_key (hnodes h n)) = take (key_len h) key) xs)"
proof (induction xs arbitrary: s p)
  case Nil
  then show ?case by (subst find_loop.simps) simp
next
  case (Cons x xs)
  then show ?case by (subst find_loop.simps) auto
qed

text \<open>The links after \<open>hash_unlink_node_locked\<close>, for the nodes of the chain it acts on.\<close>

definition unlinked ::
    "(node_addr \<Rightarrow> hash_node) \<Rightarrow> node_addr \<Rightarrow> (node_addr \<Rightarrow> hash_node) \<Rightarrow> bool" where
  "unlinked ns x ns' \<longleftrightarrow>
     (\<forall>y. y \<noteq> x \<longrightarrow>
        hn_next (ns' y) = (if pprev (ns x) = Some (NextOf y) then hn_next (ns x) else hn_next (ns y)) \<and>
        pprev (ns' y) = (if hn_next (ns x) = Some y then pprev (ns x) else pprev (ns y)))"

lemma unlinkedD:
  "unlinked ns x ns' \<Longrightarrow> y \<noteq> x \<Longrightarrow>
     hn_next (ns' y) = (if pprev (ns x) = Some (NextOf y) then hn_next (ns x) else hn_next (ns y)) \<and>
     pprev (ns' y) = (if hn_next (ns x) = Some y then pprev (ns x) else pprev (ns y))"
  by (simp add: unlinked_def)

lemma hchain_unlink:
  assumes "hchain ns s p (us @ x # vs)" "distinct (us @ x # vs)"
    and "\<And>u. s = NextOf u \<Longrightarrow> u \<notin> set (us @ x # vs)" and "unlinked ns x ns'"
  shows "hchain ns' s (if us = [] then hn_next (ns x) else p) (us @ vs)"
  using assms
proof (induction us arbitrary: s p)
  case Nil
  show ?case
  proof (cases vs)
    case (Cons v ws)
    have "pprev (ns' y) = pprev (ns y) \<and> hn_next (ns' y) = hn_next (ns y)" if "y \<in> set ws" for y
    proof -
      have "y \<noteq> x" "y \<noteq> v" "s \<noteq> NextOf y" using that Nil.prems(2,3) Cons by auto
      then show ?thesis using Nil.prems(1) Cons unlinkedD [OF Nil.prems(4), of y] by auto
    qed
    then have "hchain ns' (NextOf v) (hn_next (ns v)) ws = hchain ns (NextOf v) (hn_next (ns v)) ws"
      by (rule hchain_cong)
    moreover have "v \<noteq> x" "s \<noteq> NextOf v" using Nil.prems(2,3) Cons by auto
    ultimately show ?thesis using Nil.prems(1) Cons unlinkedD [OF Nil.prems(4), of v] by auto
  qed (use Nil.prems in simp)
next
  case (Cons u us)
  have c: "hchain ns (NextOf u) (hn_next (ns u)) (us @ x # vs)" using Cons.prems(1) by simp
  have pp: "pprev (ns x) = Some (if us = [] then NextOf u else NextOf (last us))"
    using hchain_pprev [OF c] .
  have nx: "hn_next (ns x) \<noteq> Some u"
    using hchain_next [OF c] Cons.prems(2) by (auto split: list.splits)
  have u: "u \<noteq> x" "us \<noteq> [] \<Longrightarrow> last us \<noteq> u" using Cons.prems(2) by (auto dest: last_in_set)
  have "hchain ns' (NextOf u) (if us = [] then hn_next (ns x) else hn_next (ns u)) (us @ vs)"
    using Cons.IH [OF c] Cons.prems by auto
  moreover have "hn_next (ns' u) = (if us = [] then hn_next (ns x) else hn_next (ns u))"
    using unlinkedD [OF Cons.prems(4), of u] pp u by auto
  moreover have "pprev (ns' u) = pprev (ns u)"
    using unlinkedD [OF Cons.prems(4), of u] nx u by auto
  ultimately show ?case using Cons.prems(1) by simp
qed

lemma unlink_nodes:
  assumes "pprev (hnodes h x) = Some s" "s \<noteq> NextOf x" "hn_next (hnodes h x) \<noteq> Some x"
  shows "\<exists>h'. hash_unlink_node_locked h x = Some h' \<and> unlinked (hnodes h) x (hnodes h') \<and>
     mask h' = mask h \<and> key_len h' = key_len h \<and>
     buckets h' = (case s of Bucket i \<Rightarrow> (buckets h)[i := hn_next (hnodes h x)]
                           | NextOf _ \<Rightarrow> buckets h) \<and>
     (\<forall>y. hn_key (hnodes h' y) = hn_key (hnodes h y) \<and> hn_hash (hnodes h' y) = hn_hash (hnodes h y))"
  using assms
  by (cases s; cases "hn_next (hnodes h x)")
    (auto simp: hash_unlink_node_locked_def write_slot_def upd_node_def unlinked_def Let_def)

section \<open>The table as a map\<close>

definition node_key :: "hash \<Rightarrow> node_addr \<Rightarrow> u8 list" where
  "node_key h x = take (key_len h) (hn_key (hnodes h x))"

definition key_index :: "hash \<Rightarrow> u8 list \<Rightarrow> nat" where
  "key_index h k = hash_bucket_index h (general_hash_algorithm k)"

definition table_ok :: "hash \<Rightarrow> (nat \<Rightarrow> node_addr list) \<Rightarrow> bool" where
  "table_ok h L \<longleftrightarrow>
     (\<forall>v. hash_bucket_index h v < length (buckets h)) \<and>
     (\<forall>i < length (buckets h).
        hchain (hnodes h) (Bucket i) (buckets h ! i) (L i) \<and>
        distinct (L i) \<and> inj_on (node_key h) (set (L i)) \<and>
        (\<forall>x \<in> set (L i). hn_hash (hnodes h x) = general_hash_algorithm (node_key h x) \<and>
                        key_index h (node_key h x) = i))"

definition hash_rep :: "hash \<Rightarrow> (u8 list \<rightharpoonup> node_addr) \<Rightarrow> bool" where
  "hash_rep h m \<longleftrightarrow>
     (\<exists>L. table_ok h L \<and> (\<forall>k. m k = List.find (\<lambda>x. node_key h x = k) (L (key_index h k))))"

lemma hash_create_rep:
  "\<exists>h. hash_create True True ns requested klen = Some h \<and>
       (case h of None \<Rightarrow> 0x80000000 < requested | Some h \<Rightarrow> hash_rep h Map.empty \<and> key_len h = klen)"
proof -
  obtain r where r: "round_hash_size requested = Some r" "r = 0 \<longleftrightarrow> 0x80000000 < requested"
    using round_hash_size_pow by blast
  show ?thesis
  proof (cases "r = 0")
    case False
    let ?h = "\<lparr>buckets = replicate (unat r) None, mask = r - 1, key_len = klen, hnodes = ns\<rparr>"
    have "unat (v AND (r - 1)) < unat r" for v
    proof -
      have "unat (v AND (r - 1)) \<le> unat (r - 1)"
        by (metis and.commute word_and_le1 word_le_nat_alt)
      moreover have "unat (r - 1) = unat r - 1" "0 < unat r"
        using False by (simp_all add: unat_minus_one unat_gt_0)
      ultimately show ?thesis by simp
    qed
    then have "table_ok ?h (\<lambda>_. [])"
      by (simp add: table_ok_def hash_bucket_index_def)
    then have "hash_rep ?h Map.empty" unfolding hash_rep_def by (intro exI [of _ "\<lambda>_. []"]) simp
    then show ?thesis using False r(1) by (simp add: hash_create_def)
  qed (use r in \<open>simp add: hash_create_def\<close>)
qed

lemma table_find:
  assumes "table_ok h L"
  shows "hash_find_node_locked h (key_index h (take (key_len h) k)) k
           (general_hash_algorithm (take (key_len h) k)) =
         Some (List.find (\<lambda>x. node_key h x = take (key_len h) k) (L (key_index h (take (key_len h) k))))"
proof -
  let ?k = "take (key_len h) k"
  let ?i = "key_index h ?k"
  have i: "?i < length (buckets h)" using assms by (simp add: table_ok_def key_index_def)
  then have "hchain (hnodes h) (Bucket ?i) (buckets h ! ?i) (L ?i)" using assms by (simp add: table_ok_def)
  from find_loop_chain [OF this, of k "general_hash_algorithm ?k"]
  have "hash_find_node_locked h ?i k (general_hash_algorithm ?k) =
     Some (List.find (\<lambda>n. hn_hash (hnodes h n) = general_hash_algorithm ?k \<and> node_key h n = ?k) (L ?i))"
    by (simp add: hash_find_node_locked_def node_key_def)
  also have "List.find (\<lambda>n. hn_hash (hnodes h n) = general_hash_algorithm ?k \<and> node_key h n = ?k) (L ?i) =
             List.find (\<lambda>x. node_key h x = ?k) (L ?i)"
    using assms i by (intro find_cong) (auto simp: table_ok_def)
  finally show ?thesis .
qed

lemma hash_find_rep:
  "hash_rep h m \<Longrightarrow> hash_find_node h k = Some (m (take (key_len h) k))"
  using table_find by (auto simp: hash_rep_def hash_find_node_def key_index_def Let_def)

lemma link_nodes:
  assumes "buckets h ! i \<noteq> Some x" "i < length (buckets h)"
  shows "let h' = hash_link_node_locked h i x v in
     buckets h' = (buckets h)[i := Some x] \<and> mask h' = mask h \<and> key_len h' = key_len h \<and>
     (\<forall>y. hn_key (hnodes h' y) = hn_key (hnodes h y)) \<and>
     hn_hash (hnodes h' x) = v \<and> hn_next (hnodes h' x) = buckets h ! i \<and>
     pprev (hnodes h' x) = Some (Bucket i) \<and>
     (\<forall>y. y \<noteq> x \<longrightarrow> hn_hash (hnodes h' y) = hn_hash (hnodes h y) \<and>
                     hn_next (hnodes h' y) = hn_next (hnodes h y) \<and>
                     pprev (hnodes h' y) = (if buckets h ! i = Some y then Some (NextOf x)
                                            else pprev (hnodes h y)))"
  using assms
  by (cases "buckets h ! i")
    (auto simp: hash_link_node_locked_def write_slot_def upd_node_def Let_def)

lemma table_ok_disjoint:
  "table_ok h L \<Longrightarrow> i < length (buckets h) \<Longrightarrow> j < length (buckets h) \<Longrightarrow> i \<noteq> j \<Longrightarrow>
   x \<in> set (L i) \<Longrightarrow> x \<notin> set (L j)"
  unfolding table_ok_def by metis

lemma hchain_hd: "hchain ns s (Some y) xs \<Longrightarrow> y \<in> set xs"
  by (cases xs) auto

lemma table_ok_link:
  assumes ok: "table_ok h L" and i: "i = key_index h (node_key h x)"
    and new: "\<And>j. j < length (buckets h) \<Longrightarrow> x \<notin> set (L j)"
    and key: "node_key h x \<notin> node_key h ` set (L i)"
    and h': "h' = hash_link_node_locked h i x (general_hash_algorithm (node_key h x))"
  shows "table_ok h' (L(i := x # L i)) \<and> node_key h' = node_key h \<and> key_index h' = key_index h"
proof -
  have il: "i < length (buckets h)" using ok i by (simp add: table_ok_def key_index_def)
  have ci: "hchain (hnodes h) (Bucket i) (buckets h ! i) (L i)" using ok il by (simp add: table_ok_def)
  have nb: "buckets h ! i \<noteq> Some x" using hchain_hd [of "hnodes h" "Bucket i" x "L i"] ci new [OF il] by auto
  note f = link_nodes [OF nb il, of "general_hash_algorithm (node_key h x)", folded h', unfolded Let_def]
  have nk: "node_key h' = node_key h" using f by (auto simp: node_key_def fun_eq_iff)
  have ki: "hash_bucket_index h' = hash_bucket_index h" "key_index h' = key_index h"
    using f by (auto simp: key_index_def hash_bucket_index_def fun_eq_iff)
  have "hchain (hnodes h') (Bucket j) (buckets h' ! j) ((L(i := x # L i)) j)"
    if j: "j < length (buckets h)" for j
  proof (cases "j = i")
    case True
    have "hchain (hnodes h') (NextOf x) (buckets h ! i) (L i)"
    proof (cases "L i")
      case (Cons y ys)
      have "distinct (y # ys)" using ok il by (simp add: table_ok_def flip: Cons)
      then have "hchain (hnodes h') (NextOf y) (hn_next (hnodes h y)) ys =
            hchain (hnodes h) (NextOf y) (hn_next (hnodes h y)) ys"
        using f ci Cons new [OF il] by (intro hchain_cong) auto
      then show ?thesis using f ci Cons new [OF il] by auto
    qed (use ci in simp)
    then show ?thesis using True f il by simp
  next
    case False
    have "y \<noteq> x \<and> buckets h ! i \<noteq> Some y" if "y \<in> set (L j)" for y
      using that new [OF j] ci hchain_hd [of "hnodes h" "Bucket i" y "L i"]
        table_ok_disjoint [OF ok il j, of y] False by auto
    then have "hchain (hnodes h') (Bucket j) (buckets h ! j) (L j) =
          hchain (hnodes h) (Bucket j) (buckets h ! j) (L j)"
      using f by (intro hchain_cong) simp
    then show ?thesis using False f j ok by (simp add: table_ok_def)
  qed
  moreover have "hn_hash (hnodes h' y) = general_hash_algorithm (node_key h y) \<and> key_index h (node_key h y) = j"
    if "j < length (buckets h)" "y \<in> set ((L(i := x # L i)) j)" for j y
    using that f ok i by (auto simp: table_ok_def split: if_splits)
  ultimately show ?thesis
    using f ok il new key unfolding table_ok_def nk ki by auto
qed

lemma hash_add_rep:
  assumes rep: "hash_rep h m" and fresh: "x \<notin> ran m" and k: "k = node_key h x"
  shows "\<exists>h'. hash_add_node h x = Some (m k = None, h') \<and>
              hash_rep h' (if m k = None then m(k \<mapsto> x) else m) \<and>
              key_len h' = key_len h \<and> node_key h' = node_key h"
proof -
  obtain L where L: "table_ok h L" "\<And>k. m k = List.find (\<lambda>x. node_key h x = k) (L (key_index h k))"
    using rep by (auto simp: hash_rep_def)
  let ?i = "key_index h k" and ?v = "general_hash_algorithm k"
  have find: "hash_find_node_locked h ?i (hn_key (hnodes h x)) ?v = Some (m k)"
    using table_find [OF L(1), of "hn_key (hnodes h x)"] L(2) [of k] by (simp add: k node_key_def)
  have idx: "hash_bucket_index h ?v = ?i" by (simp add: key_index_def)
  have tk: "take (key_len h) (hn_key (hnodes h x)) = k" by (simp add: k node_key_def)
  show ?thesis
  proof (cases "m k")
    case None
    let ?h = "hash_link_node_locked h ?i x ?v"
    have new: "x \<notin> set (L j)" if "j < length (buckets h)" for j
    proof
      assume x: "x \<in> set (L j)"
      then have j: "key_index h (node_key h x) = j" using L(1) that by (simp add: table_ok_def)
      then have "m k \<noteq> None" using x by (auto simp: L(2) k find_None_iff)
      with None show False by simp
    qed
    have key: "k \<notin> node_key h ` set (L ?i)" using None by (auto simp: L(2) find_None_iff)
    from table_ok_link [OF L(1) _ new, of ?i ?h] key
    have ok: "table_ok ?h (L(?i := x # L ?i))" "node_key ?h = node_key h" "key_index ?h = key_index h"
      by (auto simp: k)
    have "hash_rep ?h (m(k \<mapsto> x))" unfolding hash_rep_def
      by (rule exI [of _ "L(?i := x # L ?i)"]) (use ok in \<open>auto simp: L(2) k\<close>)
    moreover have "key_len ?h = key_len h"
      by (auto simp: hash_link_node_locked_def write_slot_def upd_node_def Let_def split: option.split)
    ultimately show ?thesis using None find tk idx ok by (simp add: hash_add_node_def Let_def)
  next
    case (Some y)
    then show ?thesis using find tk idx rep by (simp add: hash_add_node_def Let_def)
  qed
qed

lemma table_ok_unlink:
  assumes ok: "table_ok h L" and il: "i < length (buckets h)" and Li: "L i = us @ x # vs"
  shows "\<exists>h'. hash_unlink_node_locked h x = Some h' \<and> table_ok h' (L(i := us @ vs)) \<and>
              node_key h' = node_key h \<and> key_index h' = key_index h \<and> key_len h' = key_len h"
proof -
  have c: "hchain (hnodes h) (Bucket i) (buckets h ! i) (us @ x # vs)"
    and d: "distinct (us @ x # vs)" using ok il by (auto simp: table_ok_def simp flip: Li)
  let ?s = "if us = [] then Bucket i else NextOf (last us)"
  have pp: "pprev (hnodes h x) = Some ?s" using hchain_pprev [OF c] by simp
  have nx: "hn_next (hnodes h x) = (case vs of [] \<Rightarrow> None | v # _ \<Rightarrow> Some v)" using hchain_next [OF c] .
  have ne: "?s \<noteq> NextOf x" "hn_next (hnodes h x) \<noteq> Some x"
    using d nx by (auto dest: last_in_set split: list.splits)
  obtain h' where h': "hash_unlink_node_locked h x = Some h'" "unlinked (hnodes h) x (hnodes h')"
    "mask h' = mask h" "key_len h' = key_len h"
    "buckets h' = (if us = [] then (buckets h)[i := hn_next (hnodes h x)] else buckets h)"
    "\<And>y. hn_key (hnodes h' y) = hn_key (hnodes h y)"
    "\<And>y. hn_hash (hnodes h' y) = hn_hash (hnodes h y)"
    using unlink_nodes [OF pp ne] by (auto split: if_splits)
  have nk: "node_key h' = node_key h" using h' by (auto simp: node_key_def fun_eq_iff)
  have ki: "hash_bucket_index h' = hash_bucket_index h" "key_index h' = key_index h"
    using h' by (auto simp: key_index_def hash_bucket_index_def fun_eq_iff)
  have "hchain (hnodes h') (Bucket j) (buckets h' ! j) ((L(i := us @ vs)) j)"
    if j: "j < length (buckets h)" for j
  proof (cases "j = i")
    case True
    have "hchain (hnodes h') (Bucket i) (if us = [] then hn_next (hnodes h x) else buckets h ! i) (us @ vs)"
      using hchain_unlink [OF c d _ h'(2)] by simp
    then show ?thesis using True h'(5) il by (simp split: if_splits)
  next
    case False
    have "y \<noteq> x \<and> pprev (hnodes h x) \<noteq> Some (NextOf y) \<and> hn_next (hnodes h x) \<noteq> Some y"
      if "y \<in> set (L j)" for y
      using table_ok_disjoint [OF ok j il, of y] that False pp nx
      by (auto simp: Li dest: last_in_set split: list.splits if_splits)
    then have "hchain (hnodes h') (Bucket j) (buckets h ! j) (L j) =
          hchain (hnodes h) (Bucket j) (buckets h ! j) (L j)"
      using unlinkedD [OF h'(2)] by (intro hchain_cong) simp
    then show ?thesis using False h'(5) j ok by (simp add: table_ok_def)
  qed
  moreover have "distinct ((L(i := us @ vs)) j) \<and> set ((L(i := us @ vs)) j) \<subseteq> set (L j)"
    if "j < length (buckets h)" for j
    using that ok d by (auto simp: Li table_ok_def)
  moreover have "length (buckets h') = length (buckets h)" using h'(5) by simp
  ultimately have "table_ok h' (L(i := us @ vs))"
    using ok unfolding table_ok_def nk ki h'(7) by (metis (no_types, lifting) inj_on_subset subsetD)
  then show ?thesis using h' nk ki by blast
qed

lemma find_unique:
  "inj_on f (set xs) \<Longrightarrow> x \<in> set xs \<Longrightarrow> List.find (\<lambda>y. f y = f x) xs = Some x"
  by (induction xs) (auto simp: inj_on_def)

lemma find_append: "List.find P (xs @ ys) = (case List.find P xs of None \<Rightarrow> List.find P ys | Some x \<Rightarrow> Some x)"
  by (induction xs) auto

lemma hash_unlink_rep:
  assumes rep: "hash_rep h m" and x: "m k = Some x"
  shows "\<exists>h'. hash_unlink_node_locked h x = Some h' \<and> hash_rep h' (m(k := None)) \<and>
              key_len h' = key_len h \<and> node_key h' = node_key h"
proof -
  obtain L where L: "table_ok h L" "\<And>k. m k = List.find (\<lambda>x. node_key h x = k) (L (key_index h k))"
    using rep by (auto simp: hash_rep_def)
  let ?i = "key_index h k"
  have kx: "node_key h x = k" "x \<in> set (L ?i)"
    using x by (auto simp: L(2) find_Some_iff)
  then obtain us vs where Li: "L ?i = us @ x # vs" by (auto dest: split_list)
  have il: "?i < length (buckets h)" using L(1) by (simp add: table_ok_def key_index_def)
  obtain h' where h': "hash_unlink_node_locked h x = Some h'" "table_ok h' (L(?i := us @ vs))"
    "node_key h' = node_key h" "key_index h' = key_index h" "key_len h' = key_len h"
    using table_ok_unlink [OF L(1) il Li] by blast
  have "inj_on (node_key h) (set (us @ x # vs))" "distinct (us @ x # vs)"
    using L(1) il by (auto simp: table_ok_def simp flip: Li)
  then have none: "\<forall>y \<in> set (us @ vs). node_key h y \<noteq> k" using kx(1) by (auto simp: inj_on_def)
  have "(m(k := None)) k' = List.find (\<lambda>y. node_key h y = k') ((L(?i := us @ vs)) (key_index h k'))" for k'
  proof (cases "k' = k")
    case True
    have "List.find (\<lambda>y. node_key h y = k) (us @ vs) = None" using none by (auto simp: find_None_iff)
    with True show ?thesis by simp
  next
    case False
    then show ?thesis using kx(1) by (auto simp: L(2) Li find_append split: option.split)
  qed
  then have "hash_rep h' (m(k := None))"
    unfolding hash_rep_def by (intro exI [of _ "L(?i := us @ vs)"]) (simp add: h')
  then show ?thesis using h' by blast
qed

lemma hash_del_rep:
  assumes rep: "hash_rep h m" and k: "k = take (key_len h) key"
  shows "\<exists>h'. hash_del_key h key = Some (m k, h') \<and> hash_rep h' (m(k := None)) \<and>
              key_len h' = key_len h \<and> node_key h' = node_key h"
proof -
  have f: "hash_find_node_locked h (hash_bucket_index h (general_hash_algorithm k)) key (general_hash_algorithm k)
           = Some (m k)"
    using hash_find_rep [OF rep, of key] by (simp add: hash_find_node_def Let_def k)
  show ?thesis
  proof (cases "m k")
    case None
    then have "m(k := None) = m" by auto
    then show ?thesis using f None rep by (simp add: hash_del_key_def Let_def flip: k)
  next
    case (Some x)
    then show ?thesis using f hash_unlink_rep [OF rep Some]
      by (auto simp: hash_del_key_def Let_def simp flip: k)
  qed
qed

lemma hash_rep_key: "hash_rep h m \<Longrightarrow> m k = Some x \<Longrightarrow> node_key h x = k"
  by (auto simp: hash_rep_def find_Some_iff)

section \<open>The table interface\<close>

text \<open>
  What the tables of the stack (neighbour entries, sockets, connections) rely on: a table
  stands for a map from keys to nodes, and find, add and delete act on that map. The
  sequences of operations a client performs are \<open>table_op\<close>s; the contract gives their
  outcome on the map alone.
\<close>

datatype ('k, 'n) table_op = Find 'k | Add 'n | Del 'k

datatype 'n table_out = Found "'n option" | Added bool | Deleted "'n option"

fun map_op :: "('n \<Rightarrow> 'k) \<Rightarrow> ('k, 'n) table_op \<Rightarrow> ('k \<rightharpoonup> 'n) \<Rightarrow> 'n table_out \<times> ('k \<rightharpoonup> 'n)" where
  "map_op key (Find k) m = (Found (m k), m)"
| "map_op key (Add x) m = (Added (m (key x) = None), if m (key x) = None then m(key x \<mapsto> x) else m)"
| "map_op key (Del k) m = (Deleted (m k), m(k := None))"

fun map_ops :: "('n \<Rightarrow> 'k) \<Rightarrow> ('k, 'n) table_op list \<Rightarrow> ('k \<rightharpoonup> 'n) \<Rightarrow> 'n table_out list \<times> ('k \<rightharpoonup> 'n)" where
  "map_ops key [] m = ([], m)"
| "map_ops key (p # ps) m =
     (case map_op key p m of (r, m') \<Rightarrow>
      case map_ops key ps m' of (rs, m'') \<Rightarrow> (r # rs, m''))"

fun exec_ops :: "('t \<Rightarrow> 'p \<Rightarrow> ('r \<times> 't) option) \<Rightarrow> 'p list \<Rightarrow> 't \<Rightarrow> ('r list \<times> 't) option" where
  "exec_ops f [] t = Some ([], t)"
| "exec_ops f (p # ps) t =
     (case f t p of None \<Rightarrow> None
      | Some (r, t') \<Rightarrow> (case exec_ops f ps t' of None \<Rightarrow> None | Some (rs, t'') \<Rightarrow> Some (r # rs, t'')))"

text \<open>
  The operations are well-formed when the keys passed are keys of the table and every added
  node is not in it at that moment.
\<close>

definition op_fresh :: "('k \<Rightarrow> bool) \<Rightarrow> ('n \<Rightarrow> 'k) \<Rightarrow> ('k, 'n) table_op \<Rightarrow> ('k \<rightharpoonup> 'n) \<Rightarrow> bool" where
  "op_fresh ok key p m =
     (case p of Find k \<Rightarrow> ok k | Add x \<Rightarrow> m (key x) \<noteq> Some x | Del k \<Rightarrow> ok k)"

fun ops_fresh :: "('k \<Rightarrow> bool) \<Rightarrow> ('n \<Rightarrow> 'k) \<Rightarrow> ('k, 'n) table_op list \<Rightarrow> ('k \<rightharpoonup> 'n) \<Rightarrow> bool" where
  "ops_fresh ok key [] m \<longleftrightarrow> True"
| "ops_fresh ok key (p # ps) m \<longleftrightarrow>
     op_fresh ok key p m \<and> ops_fresh ok key ps (snd (map_op key p m))"

locale key_table =
  fixes rep :: "'t \<Rightarrow> ('k \<rightharpoonup> 'n) \<Rightarrow> bool" and key :: "'t \<Rightarrow> 'n \<Rightarrow> 'k"
    and ok :: "'t \<Rightarrow> 'k \<Rightarrow> bool"
    and run :: "'t \<Rightarrow> ('k, 'n) table_op \<Rightarrow> ('n table_out \<times> 't) option"
  assumes rep_key: "rep t m \<Longrightarrow> m k = Some x \<Longrightarrow> key t x = k"
    and run_find: "rep t m \<Longrightarrow> ok t k \<Longrightarrow> run t (Find k) = Some (Found (m k), t)"
    and run_add: "rep t m \<Longrightarrow> x \<notin> ran m \<Longrightarrow>
          \<exists>t'. run t (Add x) = Some (Added (m (key t x) = None), t') \<and>
               rep t' (if m (key t x) = None then m(key t x \<mapsto> x) else m) \<and> key t' = key t \<and> ok t' = ok t"
    and run_del: "rep t m \<Longrightarrow> ok t k \<Longrightarrow> \<exists>t'. run t (Del k) = Some (Deleted (m k), t') \<and>
               rep t' (m(k := None)) \<and> key t' = key t \<and> ok t' = ok t"
begin

lemma run_op:
  assumes "rep t m" "op_fresh (ok t) (key t) p m"
  shows "\<exists>t'. run t p = Some (fst (map_op (key t) p m), t') \<and>
              rep t' (snd (map_op (key t) p m)) \<and> key t' = key t \<and> ok t' = ok t"
proof (cases p)
  case (Find k)
  then show ?thesis using assms run_find by (simp add: op_fresh_def)
next
  case (Add x)
  have "x \<notin> ran m" using assms Add rep_key by (auto simp: ran_def op_fresh_def)
  then show ?thesis using run_add [OF assms(1)] Add by simp
next
  case (Del k)
  then show ?thesis using run_del [OF assms(1)] assms(2) by (simp add: op_fresh_def)
qed

lemma run_ops:
  assumes "rep t m" "ops_fresh (ok t) (key t) ps m"
  shows "\<exists>t'. exec_ops run ps t = Some (fst (map_ops (key t) ps m), t') \<and>
              rep t' (snd (map_ops (key t) ps m)) \<and> key t' = key t \<and> ok t' = ok t"
  using assms
proof (induction ps arbitrary: t m)
  case (Cons p ps)
  obtain t' where t': "run t p = Some (fst (map_op (key t) p m), t')"
    "rep t' (snd (map_op (key t) p m))" "key t' = key t" "ok t' = ok t"
    using run_op [OF Cons.prems(1), of p] Cons.prems(2) by auto
  then show ?case using Cons.IH [OF t'(2)] Cons.prems(2) by (auto simp: split_beta)
qed simp

end

text \<open>The operations of \<^verbatim>\<open>hash.c\<close> on keys of the table's key length.\<close>

fun hash_run :: "hash \<Rightarrow> (u8 list, node_addr) table_op \<Rightarrow> (node_addr table_out \<times> hash) option" where
  "hash_run h (Find k) = map_option (\<lambda>r. (Found r, h)) (hash_find_node h k)"
| "hash_run h (Add x) = map_option (\<lambda>(r, h'). (Added r, h')) (hash_add_node h x)"
| "hash_run h (Del k) = map_option (\<lambda>(r, h'). (Deleted r, h')) (hash_del_key h k)"

definition key_ok :: "hash \<Rightarrow> u8 list \<Rightarrow> bool" where
  "key_ok h k \<longleftrightarrow> length k = key_len h"

lemma hash_run_add:
  assumes "hash_rep h m" "x \<notin> ran m"
  shows "\<exists>h'. hash_run h (Add x) = Some (Added (m (node_key h x) = None), h') \<and>
     hash_rep h' (if m (node_key h x) = None then m(node_key h x \<mapsto> x) else m) \<and>
     node_key h' = node_key h \<and> key_ok h' = key_ok h"
  using hash_add_rep [OF assms refl] by (auto simp: key_ok_def fun_eq_iff)

lemma hash_run_del:
  assumes "hash_rep h m" "key_ok h k"
  shows "\<exists>h'. hash_run h (Del k) = Some (Deleted (m k), h') \<and>
     hash_rep h' (m(k := None)) \<and> node_key h' = node_key h \<and> key_ok h' = key_ok h"
  using hash_del_rep [OF assms(1), of k k] assms(2) by (auto simp: key_ok_def fun_eq_iff)

interpretation hash_tab: key_table hash_rep node_key key_ok hash_run
proof unfold_locales
  show "hash_run h (Find k) = Some (Found (m k), h)" if "hash_rep h m" "key_ok h k" for h m k
    using that hash_find_rep [OF that(1), of k] by (simp add: key_ok_def)
qed (fact hash_rep_key, fact hash_run_add, fact hash_run_del)

section \<open>Properties\<close>

text \<open>
  C29. A table made by \<open>hash_create\<close> implements a finite map for every sequence of
  \<open>hash_find_node\<close>, \<open>hash_add_node\<close> and \<open>hash_del_key\<close> that adds no node twice: every
  operation ends, and its result is that of the same operation on the map from keys to
  nodes. The table is created for every requested size up to \<open>2\<^sup>3\<^sup>1\<close>.
\<close>

theorem hash_table_implements_map:
  assumes "requested \<le> 0x80000000"
    and "ops_fresh (\<lambda>k. length k = klen) (\<lambda>x. take klen (hn_key (ns x))) ps Map.empty"
  shows "\<exists>h h'. hash_create True True ns requested klen = Some (Some h) \<and>
           exec_ops hash_run ps h =
             Some (fst (map_ops (\<lambda>x. take klen (hn_key (ns x))) ps Map.empty), h') \<and>
           hash_rep h' (snd (map_ops (\<lambda>x. take klen (hn_key (ns x))) ps Map.empty))"
proof -
  obtain h where h: "hash_create True True ns requested klen = Some (Some h)"
    "hash_rep h Map.empty" "key_len h = klen"
    using hash_create_rep [of ns requested klen] assms(1) by (auto split: option.splits)
  have "hnodes h = ns"
    using h(1) by (auto simp: hash_create_def split: option.splits if_splits)
  then have "key_ok h = (\<lambda>k. length k = klen)" "node_key h = (\<lambda>x. take klen (hn_key (ns x)))"
    using h(3) by (auto simp: key_ok_def node_key_def fun_eq_iff)
  then show ?thesis using hash_tab.run_ops [OF h(2), of ps] assms(2) h(1) by auto
qed

lemma hash_table_implements_map_witness:
  "\<exists>h h'. hash_create True True
             (\<lambda>x. \<lparr>hn_next = None, pprev = None, hn_hash = 0, hn_key = [of_nat (x div 2), 1]\<rparr>) 1000 2 =
             Some (Some h) \<and>
     exec_ops hash_run [Add 4, Add 5, Find [2, 1], Del [2, 1], Add 5, Find [2, 1]] h =
       Some ([Added True, Added False, Found (Some 4), Deleted (Some 4), Added True, Found (Some 5)], h')"
  using hash_table_implements_map [of 1000 2
      "\<lambda>x. \<lparr>hn_next = None, pprev = None, hn_hash = 0, hn_key = [of_nat (x div 2), 1]\<rparr>"
      "[Add 4, Add 5, Find [2, 1], Del [2, 1], Add 5, Find [2, 1]]"]
  by (auto simp: op_fresh_def)

end
