(* ===== verification/Trie.thy ===== *)
theory Trie
  imports Prelude "HOL-Library.Sublist"
begin

text \<open>
  The bit trie of \<^verbatim>\<open>src/lib/trie.c\<close> that holds the routing and neighbour tables. A C node with
  its \<open>left_node\<close> and \<open>right_node\<close> is \<open>TNode\<close>, a null pointer is \<open>Null\<close>, and the
  pair \<open>exist_element\<close>/\<open>element\<close> is an option. A node is named by its path of bits from
  the root: \<open>parent\<close> drops the last bit and \<open>depth\<close> is the length. The callbacks
  \<open>cb_add\<close>, \<open>cb_delete\<close> and \<open>cb_search\<close> are arguments, as they are function pointers in
  the code; \<open>budget\<close> is the number of \<open>calloc\<close> calls that still succeed.

  Results: adding and deleting change the element at exactly one path whatever nodes are
  created or pruned, and prefix search is longest-prefix match.
\<close>

section \<open>The code\<close>

datatype trie_type = TRIE_IPV4 | TRIE_IPV6

datatype 'e trie_node =
    Null
  | TNode (left_node: "'e trie_node") (right_node: "'e trie_node") (node_elem: "'e option")

record 'e trie =
  type :: trie_type
  root :: "'e trie_node"

text \<open>The \<open>net\<close> argument: an IPv4 address in network order by value, or a pointer to 16 bytes.\<close>

datatype net = Net4 u32 | Net6 "u8 list option"

definition trie_max_depth :: "trie_type \<Rightarrow> nat" where
  "trie_max_depth t = (if t = TRIE_IPV4 then 32 else 128)"

text \<open>The bits the loop of \<open>find_trie_node_common\<close> follows, most significant first.\<close>

fun net_bit :: "net \<Rightarrow> nat \<Rightarrow> bool" where
  "net_bit (Net4 a) i = bit (htonl a) (31 - i)"
| "net_bit (Net6 (Some bs)) i = bit (bs ! (i div 8)) (7 - i mod 8)"
| "net_bit (Net6 None) i = False"

definition net_bits :: "net \<Rightarrow> nat \<Rightarrow> bool list" where
  "net_bits a m = map (net_bit a) [0..<m]"

definition create_trie_node :: "nat \<Rightarrow> ('e trie_node \<times> nat)" where
  "create_trie_node budget =
     (if budget = 0 then (Null, 0) else (TNode Null Null None, budget - 1))"

text \<open>
  The walk below the node \<open>cur\<close> (at path \<open>cur\<close>); it returns the node found, the
  subtree after the creations, and the remaining budget.
\<close>

fun walk :: "bool \<Rightarrow> bool \<Rightarrow> nat \<Rightarrow> 'e trie_node \<Rightarrow> bool list \<Rightarrow> bool list option \<Rightarrow> bool list \<Rightarrow>
             bool list option \<times> 'e trie_node \<times> nat" where
  "walk create search_prefix budget n cur last_exist [] = (Some cur, n, budget)"
| "walk create search_prefix budget n cur last_exist (b # bs) =
     (let next = (if b then right_node n else left_node n);
          (next, budget) = (if next = Null \<and> create then create_trie_node budget else (next, budget))
      in if next = Null then ((if search_prefix then last_exist else None), n, budget)
         else let cur = cur @ [b];
                  last_exist = (if node_elem next \<noteq> None then Some cur else last_exist);
                  (r, next, budget) = walk create search_prefix budget next cur last_exist bs
              in (r, if b then TNode (left_node n) next (node_elem n)
                     else TNode next (right_node n) (node_elem n), budget))"

definition find_trie_node_common ::
    "'e trie \<Rightarrow> net \<Rightarrow> nat \<Rightarrow> bool \<Rightarrow> bool \<Rightarrow> nat \<Rightarrow> bool list option \<times> 'e trie \<times> nat" where
  "find_trie_node_common t net msk create search_prefix budget =
     (if type t = TRIE_IPV6 \<and> net = Net6 None then (None, t, budget)
      else let (r, n, budget) =
                 walk create search_prefix budget (root t) []
                   (if node_elem (root t) \<noteq> None then Some [] else None) (net_bits net msk)
           in (r, t\<lparr>root := n\<rparr>, budget))"

text \<open>Access to the node at a path.\<close>

fun sub :: "'e trie_node \<Rightarrow> bool list \<Rightarrow> 'e trie_node" where
  "sub n [] = n"
| "sub Null (b # bs) = Null"
| "sub (TNode l r e) (b # bs) = sub (if b then r else l) bs"

fun replace :: "'e trie_node \<Rightarrow> bool list \<Rightarrow> 'e trie_node \<Rightarrow> 'e trie_node" where
  "replace n [] x = x"
| "replace Null (b # bs) x = Null"
| "replace (TNode l r e) (b # bs) x =
     (if b then TNode l (replace r bs x) e else TNode (replace l bs x) r e)"

definition elem_at :: "'e trie_node \<Rightarrow> bool list \<Rightarrow> 'e option" where
  "elem_at n p = (case sub n p of Null \<Rightarrow> None | TNode l r e \<Rightarrow> e)"

definition set_elem :: "'e trie_node \<Rightarrow> bool list \<Rightarrow> 'e option \<Rightarrow> 'e trie_node" where
  "set_elem n p e = replace n p (TNode (left_node (sub n p)) (right_node (sub n p)) e)"

fun clear_empty_branch :: "'e trie_node \<Rightarrow> bool list \<Rightarrow> 'e trie_node" where
  "clear_empty_branch n p =
     (if p \<noteq> [] \<and> sub n p = TNode Null Null None
      then clear_empty_branch (replace n p Null) (butlast p) else n)"

definition ENOMEM :: int where "ENOMEM = 12"

definition add_trie_element ::
    "('e option \<Rightarrow> 'i \<Rightarrow> int \<times> 'e option) \<Rightarrow> 'e trie \<Rightarrow> net \<Rightarrow> nat \<Rightarrow> 'i \<Rightarrow> nat \<Rightarrow> int \<times> 'e trie \<times> nat"
  where
  "add_trie_element cb_add t net msk info budget =
     (if msk > trie_max_depth (type t) then (- 1, t, budget)
      else let (find, t, budget) = find_trie_node_common t net msk True False budget in
           case find of
             None \<Rightarrow> (- ENOMEM, t, budget)
           | Some p \<Rightarrow>
               let (ret, e) = cb_add (elem_at (root t) p) info
               in (ret, t\<lparr>root := set_elem (root t) p e\<rparr>, budget))"

definition delete_trie_element ::
    "('e option \<Rightarrow> 'i \<Rightarrow> int \<times> 'e option) \<Rightarrow> 'e trie \<Rightarrow> net \<Rightarrow> nat \<Rightarrow> 'i \<Rightarrow> int \<times> 'e trie" where
  "delete_trie_element cb_delete t net msk info =
     (if msk > trie_max_depth (type t) then (- 1, t)
      else let (find, t, _) = find_trie_node_common t net msk False False 0 in
           case find of
             None \<Rightarrow> (0, t)
           | Some p \<Rightarrow>
               let (ret, e) = cb_delete (elem_at (root t) p) info
               in (ret, t\<lparr>root := clear_empty_branch (set_elem (root t) p e) p\<rparr>))"

text \<open>The inner \<open>do ... while\<close> of the search: the nearest proper ancestor with an element.\<close>

fun climb :: "'e trie_node \<Rightarrow> bool list \<Rightarrow> bool list option" where
  "climb n p =
     (if p = [] then None
      else if elem_at n (butlast p) \<noteq> None then Some (butlast p) else climb n (butlast p))"

declare climb.simps [simp del] clear_empty_branch.simps [simp del]

lemma climb_shorter: "climb n p = Some q \<Longrightarrow> length q < length p"
proof (induction n p rule: climb.induct)
  case (1 n p)
  then show ?case by (subst (asm) climb.simps) (fastforce split: if_splits)
qed

function search_loop :: "('e \<Rightarrow> 'r option) \<Rightarrow> bool \<Rightarrow> 'e trie_node \<Rightarrow> bool list \<Rightarrow> 'r option" where
  "search_loop cb_search prefix_search n p =
     (let ret = (case elem_at n p of None \<Rightarrow> None | Some e \<Rightarrow> cb_search e) in
      if ret \<noteq> None \<or> \<not> prefix_search then ret
      else case climb n p of None \<Rightarrow> None | Some q \<Rightarrow> search_loop cb_search prefix_search n q)"
  by pat_completeness auto
termination
  by (relation "measure (\<lambda>(_, _, _, p). length p)") (auto dest: climb_shorter)

declare search_loop.simps [simp del]

definition search_trie_element ::
    "('e \<Rightarrow> 'r option) \<Rightarrow> 'e trie \<Rightarrow> net \<Rightarrow> nat \<Rightarrow> bool \<Rightarrow> 'r option" where
  "search_trie_element cb_search t net msk prefix_search =
     (if msk > trie_max_depth (type t) then None
      else case fst (find_trie_node_common t net msk False prefix_search 0) of
             None \<Rightarrow> None
           | Some p \<Rightarrow> search_loop cb_search prefix_search (root t) p)"

text \<open>The elements handed to \<open>free_element\<close>, in the order of the recursion.\<close>

fun trie_free_branch :: "'e trie_node \<Rightarrow> 'e list" where
  "trie_free_branch Null = []"
| "trie_free_branch (TNode l r e) = trie_free_branch l @ trie_free_branch r @ (case e of None \<Rightarrow> [] | Some x \<Rightarrow> [x])"

definition trie_clear :: "'e trie \<Rightarrow> 'e trie \<times> 'e list" where
  "trie_clear t = (t\<lparr>root := TNode Null Null None\<rparr>, trie_free_branch (root t))"

section \<open>Nodes and paths\<close>

definition is_node :: "'e trie_node \<Rightarrow> bool" where
  "is_node n \<longleftrightarrow> n \<noteq> Null"

lemma sub_Null [simp]: "sub Null p = Null"
  by (cases p) auto

lemma sub_append: "sub n (p @ q) = sub (sub n p) q"
  by (induction n p rule: sub.induct) auto

lemma elem_at_Null [simp]: "elem_at Null p = None"
  by (simp add: elem_at_def)

lemma elem_at_Nil [simp]: "elem_at (TNode l r e) [] = e"
  by (simp add: elem_at_def)

lemma elem_at_Cons [simp]: "elem_at (TNode l r e) (b # p) = elem_at (if b then r else l) p"
  by (simp add: elem_at_def)

lemma elem_at_append: "elem_at n (p @ w) = elem_at (sub n p) w"
  by (simp add: elem_at_def sub_append)

lemma elem_at_replace:
  "sub n p \<noteq> Null \<Longrightarrow> elem_at (replace n p x) q = (if prefix p q then elem_at x (drop (length p) q) else elem_at n q)"
proof (induction n p x arbitrary: q rule: replace.induct)
  case (3 l r e b bs x)
  then show ?case by (cases q) (auto split: if_splits)
qed auto

lemma elem_at_set_elem:
  assumes "sub n p \<noteq> Null"
  shows "elem_at (set_elem n p e) = (elem_at n)(p := e)"
proof
  fix q
  obtain l r x where s: "sub n p = TNode l r x" using assms by (cases "sub n p") auto
  show "elem_at (set_elem n p e) q = ((elem_at n)(p := e)) q"
  proof (cases "prefix p q")
    case True
    then obtain w where q: "q = p @ w" by (auto simp: prefix_def)
    have "elem_at (set_elem n p e) q = elem_at (TNode l r e) w"
      using assms by (simp add: set_elem_def elem_at_replace s q)
    moreover have "elem_at n q = elem_at (TNode l r x) w" by (simp add: elem_at_append q s)
    ultimately show ?thesis by (cases w) (auto simp: q)
  qed (use assms in \<open>auto simp: set_elem_def elem_at_replace\<close>)
qed

lemma elem_at_clear: "elem_at (clear_empty_branch n p) = elem_at n"
proof (induction n p rule: clear_empty_branch.induct)
  case (1 n p)
  have "elem_at (replace n p Null) q = elem_at n q" if s: "sub n p = TNode Null Null None" for q
  proof (cases "prefix p q")
    case True
    then obtain w where q: "q = p @ w" by (auto simp: prefix_def)
    have "elem_at n q = elem_at (TNode Null Null None) w" by (simp add: q elem_at_append s)
    also have "\<dots> = None" by (cases w) auto
    finally show ?thesis using s True by (simp add: elem_at_replace)
  qed (use s in \<open>simp add: elem_at_replace\<close>)
  then show ?case using 1 by (subst clear_empty_branch.simps) auto
qed

section \<open>The walk\<close>

text \<open>Without creation the walk leaves the trie as it is, and finds the node if it exists.\<close>

lemma walk_find:
  "n \<noteq> Null \<Longrightarrow>
   snd (walk False pf bud n cur last_exist bs) = (n, bud) \<and>
   (sub n bs \<noteq> Null \<longrightarrow> fst (walk False pf bud n cur last_exist bs) = Some (cur @ bs)) \<and>
   (sub n bs = Null \<longrightarrow> \<not> pf \<longrightarrow> fst (walk False pf bud n cur last_exist bs) = None)"
proof (induction bs arbitrary: n cur last_exist)
  case (Cons b bs)
  obtain l r e where n: "n = TNode l r e" using Cons.prems by (cases n) auto
  let ?m = "if b then r else l"
  show ?case
  proof (cases "?m = Null")
    case True
    then show ?thesis by (auto simp: n split: if_splits)
  next
    case False
    then show ?thesis
      using Cons.IH [OF False, of "cur @ [b]"] by (auto simp: n split_beta Let_def)
  qed
qed simp

text \<open>With creation the elements stay where they are, and the walk fails only without memory.\<close>

lemma walk_create:
  assumes "n \<noteq> Null"
  shows "\<exists>r n' bud'. walk True False bud n cur last_exist bs = (r, n', bud') \<and>
      n' \<noteq> Null \<and> elem_at n' = elem_at n \<and> bud' \<le> bud \<and>
      (r = Some (cur @ bs) \<and> sub n' bs \<noteq> Null \<or> r = None \<and> bud' = 0 \<and> bud < length bs) "
  using assms
proof (induction bs arbitrary: n cur last_exist bud)
  case (Cons b bs)
  obtain l r e where n: "n = TNode l r e" using Cons.prems by (cases n) auto
  let ?m = "if b then r else l"
  show ?case
  proof (cases "?m = Null \<and> bud = 0")
    case True
    then show ?thesis by (auto simp: n create_trie_node_def split: if_splits)
  next
    case False
    define m bud1 where "m = (if ?m = Null then TNode Null Null None else ?m)"
      and "bud1 = (if ?m = Null then bud - 1 else bud)"
    have m: "m \<noteq> Null" using False by (auto simp: m_def)
    have em: "elem_at m = elem_at ?m"
    proof
      show "elem_at m p = elem_at ?m p" for p by (cases p) (auto simp: m_def)
    qed
    obtain r' n' bud' where w:
      "walk True False bud1 m (cur @ [b]) (if node_elem m \<noteq> None then Some (cur @ [b]) else last_exist) bs
         = (r', n', bud')" "n' \<noteq> Null" "elem_at n' = elem_at m" "bud' \<le> bud1"
      "r' = Some (cur @ b # bs) \<and> sub n' bs \<noteq> Null \<or> r' = None \<and> bud' = 0 \<and> bud1 < length bs"
      using Cons.IH [OF m, of bud1 "cur @ [b]"] by fastforce
    let ?n = "if b then TNode l n' e else TNode n' r e"
    have "walk True False bud n cur last_exist (b # bs) = (r', ?n, bud')"
      using False w(1) by (auto simp: n m_def bud1_def create_trie_node_def Let_def split: if_splits)
    moreover have "elem_at ?n = elem_at n"
    proof
      show "elem_at ?n p = elem_at n p" for p using w(3) em by (cases p) (auto simp: n)
    qed
    moreover have "bud1 \<le> bud" "bud \<le> bud1 + 1" by (auto simp: bud1_def)
    ultimately show ?thesis using w by auto
  qed
qed simp

section \<open>Longest-prefix match\<close>

text \<open>The specification of the search: the first path with a result, from the longest down.\<close>

fun lpm :: "(bool list \<Rightarrow> 'r option) \<Rightarrow> bool list \<Rightarrow> 'r option" where
  "lpm f p = (case f p of Some r \<Rightarrow> Some r | None \<Rightarrow> if p = [] then None else lpm f (butlast p))"

declare lpm.simps [simp del]

lemma lpm_Nil: "lpm f [] = f []"
  by (subst lpm.simps) (simp split: option.split)

lemma lpm_snoc: "lpm f (p @ [b]) = (case f (p @ [b]) of Some r \<Rightarrow> Some r | None \<Rightarrow> lpm f p)"
  by (subst lpm.simps) (simp split: option.split)

lemma lpm_Some_iff:
  "lpm f p = Some r \<longleftrightarrow>
   (\<exists>q. prefix q p \<and> f q = Some r \<and> (\<forall>q'. prefix q' p \<and> length q < length q' \<longrightarrow> f q' = None))"
proof (induction p rule: rev_induct)
  case (snoc b p)
  show ?case
  proof (cases "f (p @ [b])")
    case None
    have "prefix q (p @ [b]) \<and> f q = Some r \<and> (\<forall>q'. prefix q' (p @ [b]) \<and> length q < length q' \<longrightarrow> f q' = None)
       \<longleftrightarrow> prefix q p \<and> f q = Some r \<and> (\<forall>q'. prefix q' p \<and> length q < length q' \<longrightarrow> f q' = None)" for q
      using None by (auto simp: prefix_snoc)
    then show ?thesis using snoc None by (simp add: lpm_snoc)
  next
    case (Some x)
    have "x = r" if "prefix q (p @ [b])" "f q = Some r"
      "\<forall>q'. prefix q' (p @ [b]) \<and> length q < length q' \<longrightarrow> f q' = None" for q
    proof (cases "q = p @ [b]")
      case False
      then have "length q < length (p @ [b])" using that(1) by (auto simp: prefix_snoc dest: prefix_length_le)
      then show ?thesis using that(3) Some by fastforce
    qed (use that Some in simp)
    moreover have "f q' = None" if "prefix q' (p @ [b])" "length (p @ [b]) < length q'" for q'
      using that prefix_length_le by fastforce
    ultimately show ?thesis using Some by (auto simp: lpm_snoc)
  qed
qed (auto simp: lpm_Nil)

lemma lpm_ext_None:
  "(\<And>q. q \<noteq> [] \<Longrightarrow> prefix q bs \<Longrightarrow> f (cur @ q) = None) \<Longrightarrow> lpm f (cur @ bs) = lpm f cur"
proof (induction bs rule: rev_induct)
  case (snoc b bs)
  have "f (cur @ bs @ [b]) = None" using snoc.prems by simp
  moreover have "lpm f (cur @ bs) = lpm f cur" using snoc by simp
  ultimately show ?case using lpm_snoc [of f "cur @ bs" b] by simp
qed simp

definition cb_at :: "('e \<Rightarrow> 'r option) \<Rightarrow> 'e trie_node \<Rightarrow> bool list \<Rightarrow> 'r option" where
  "cb_at cb n p = (case elem_at n p of None \<Rightarrow> None | Some e \<Rightarrow> cb e)"

lemma lpm_climb:
  "cb_at cb n p = None \<Longrightarrow>
   lpm (cb_at cb n) p = (case climb n p of None \<Rightarrow> None | Some q \<Rightarrow> lpm (cb_at cb n) q)"
proof (induction p rule: rev_induct)
  case Nil
  then show ?case by (simp add: lpm_Nil climb.simps [of n "[]"])
next
  case (snoc b p)
  show ?case
  proof (cases "elem_at n p")
    case None
    then have "cb_at cb n p = None" by (simp add: cb_at_def)
    with snoc None show ?thesis by (simp add: lpm_snoc climb.simps [of n "p @ [b]"])
  next
    case (Some e)
    with snoc show ?thesis by (simp add: lpm_snoc climb.simps [of n "p @ [b]"])
  qed
qed

lemma search_loop_lpm: "search_loop cb True n p = lpm (cb_at cb n) p"
proof (induction "length p" arbitrary: p rule: less_induct)
  case less
  show ?case
  proof (cases "cb_at cb n p")
    case None
    have "search_loop cb True n p = (case climb n p of None \<Rightarrow> None | Some q \<Rightarrow> search_loop cb True n q)"
      using None by (subst search_loop.simps) (simp add: cb_at_def)
    also have "\<dots> = (case climb n p of None \<Rightarrow> None | Some q \<Rightarrow> lpm (cb_at cb n) q)"
      using less climb_shorter [of n p] by (auto split: option.split)
    finally show ?thesis using lpm_climb [OF None] by simp
  next
    case (Some r)
    then show ?thesis by (subst search_loop.simps, subst lpm.simps) (simp add: cb_at_def)
  qed
qed

lemma walk_lpm:
  assumes "n \<noteq> Null" and "\<And>q. f (cur @ q) = cb_at cb n q"
    and "(case last_exist of None \<Rightarrow> None | Some p \<Rightarrow> lpm f p) = lpm f cur"
  shows "(case fst (walk False True bud n cur last_exist bs) of None \<Rightarrow> None | Some p \<Rightarrow> lpm f p)
         = lpm f (cur @ bs)"
  using assms
proof (induction bs arbitrary: n cur last_exist)
  case (Cons b bs)
  obtain l r e where n: "n = TNode l r e" using Cons.prems by (cases n) auto
  let ?m = "if b then r else l"
  have sub: "f (cur @ b # q) = cb_at cb ?m q" for q
    using Cons.prems(2) [of "b # q"] by (simp add: n cb_at_def)
  show ?case
  proof (cases "?m = Null")
    case True
    have "lpm f (cur @ b # bs) = lpm f cur"
      using sub True by (intro lpm_ext_None) (auto simp: cb_at_def prefix_Cons)
    then show ?thesis using True Cons.prems(3) by (auto simp: n split: if_splits)
  next
    case False
    let ?le = "if node_elem ?m \<noteq> None then Some (cur @ [b]) else last_exist"
    have "(case ?le of None \<Rightarrow> None | Some p \<Rightarrow> lpm f p) = lpm f (cur @ [b])"
    proof (cases "node_elem ?m")
      case None
      then have "f (cur @ [b]) = None" using sub [of "[]"] False by (cases ?m) (auto simp: cb_at_def)
      then show ?thesis using None Cons.prems(3) by (simp add: lpm_snoc)
    qed simp
    from Cons.IH [OF False _ this] sub
    have "(case fst (walk False True bud ?m (cur @ [b]) ?le bs) of None \<Rightarrow> None | Some p \<Rightarrow> lpm f p)
          = lpm f (cur @ b # bs)" by simp
    moreover have "fst (walk False True bud n cur last_exist (b # bs)) =
        fst (walk False True bud ?m (cur @ [b]) ?le bs)"
      using False by (cases b) (simp_all add: n split_beta Let_def)
    ultimately show ?thesis by (simp only:)
  qed
qed simp

section \<open>The operations\<close>

text \<open>A key of the trie's kind: IPv4 by value, IPv6 as 16 bytes.\<close>

definition net_ok :: "'e trie \<Rightarrow> net \<Rightarrow> bool" where
  "net_ok t a = (case a of Net4 _ \<Rightarrow> type t = TRIE_IPV4
                          | Net6 b \<Rightarrow> type t = TRIE_IPV6 \<and> (\<exists>bs. b = Some bs \<and> length bs = 16))"

definition trie_wf :: "'e trie \<Rightarrow> bool" where
  "trie_wf t \<longleftrightarrow> root t \<noteq> Null"

definition elems :: "'e trie \<Rightarrow> bool list \<rightharpoonup> 'e" where
  "elems t = elem_at (root t)"

lemma find_common_ok:
  "net_ok t a \<Longrightarrow> find_trie_node_common t a m create pf bud =
     (let w = walk create pf bud (root t) [] (if node_elem (root t) \<noteq> None then Some [] else None)
                (net_bits a m)
      in (fst w, t\<lparr>root := fst (snd w)\<rparr>, snd (snd w)))"
  by (auto simp: net_ok_def find_trie_node_common_def split_beta Let_def)

lemma search_trie_lpm:
  assumes "trie_wf t" "net_ok t a" "m \<le> trie_max_depth (type t)"
  shows "search_trie_element cb t a m True =
         lpm (\<lambda>p. case elems t p of None \<Rightarrow> None | Some e \<Rightarrow> cb e) (net_bits a m)"
proof -
  let ?le = "if node_elem (root t) \<noteq> None then Some [] else None"
  have f: "(\<lambda>p. case elems t p of None \<Rightarrow> None | Some e \<Rightarrow> cb e) = cb_at cb (root t)"
    by (intro ext) (simp add: cb_at_def elems_def)
  have "(case ?le of None \<Rightarrow> None | Some p \<Rightarrow> lpm (cb_at cb (root t)) p) = lpm (cb_at cb (root t)) []"
    using assms(1) by (cases "root t") (auto simp: lpm_Nil cb_at_def trie_wf_def)
  from walk_lpm [OF _ _ this, where bs = "net_bits a m" and bud = 0 and n = "root t" and cb = cb] assms(1)
  show ?thesis unfolding f
    using assms(3)
    by (simp add: search_trie_element_def find_common_ok [OF assms(2)] Let_def search_loop_lpm
        trie_wf_def del: not_None_eq cong: option.case_cong if_cong)
qed

lemma search_trie_exact:
  assumes "trie_wf t" "net_ok t a" "m \<le> trie_max_depth (type t)"
  shows "search_trie_element cb t a m False =
         (case elems t (net_bits a m) of None \<Rightarrow> None | Some e \<Rightarrow> cb e)"
proof -
  let ?le = "if node_elem (root t) \<noteq> None then Some [] else None"
  have w: "fst (walk False False 0 (root t) [] ?le (net_bits a m)) =
        (if sub (root t) (net_bits a m) = Null then None else Some (net_bits a m))"
    using walk_find [of "root t" False 0 "[]" ?le "net_bits a m"] assms(1) by (simp add: trie_wf_def)
  show ?thesis
  proof (cases "sub (root t) (net_bits a m) = Null")
    case True
    then have "elems t (net_bits a m) = None" by (simp add: elems_def elem_at_def)
    then show ?thesis using w True assms(3)
      by (simp add: search_trie_element_def find_common_ok [OF assms(2)] Let_def)
  next
    case False
    then show ?thesis using w assms(3)
      by (simp add: search_trie_element_def find_common_ok [OF assms(2)] Let_def elems_def
          search_loop.simps [of cb False])
  qed
qed

lemma replace_nonnull: "n \<noteq> Null \<Longrightarrow> p \<noteq> [] \<or> x \<noteq> Null \<Longrightarrow> replace n p x \<noteq> Null"
  by (cases p; cases n) auto

lemma set_elem_nonnull: "n \<noteq> Null \<Longrightarrow> set_elem n p e \<noteq> Null"
  by (simp add: set_elem_def replace_nonnull)

lemma clear_nonnull: "n \<noteq> Null \<Longrightarrow> clear_empty_branch n p \<noteq> Null"
proof (induction n p rule: clear_empty_branch.induct)
  case (1 n p)
  then show ?case by (subst clear_empty_branch.simps) (auto simp: replace_nonnull)
qed

lemma add_trie_elems:
  assumes "trie_wf t" "net_ok t a" "m \<le> trie_max_depth (type t)"
  obtains t' bud' where
    "add_trie_element cb t a m i bud =
       (fst (cb (elems t (net_bits a m)) i), t', bud')"
    "elems t' = (elems t)(net_bits a m := snd (cb (elems t (net_bits a m)) i))"
    "trie_wf t'" "type t' = type t"
  | t' where "add_trie_element cb t a m i bud = (- ENOMEM, t', 0)" "bud < m" "elems t' = elems t"
    "trie_wf t'" "type t' = type t"
proof -
  let ?le = "if node_elem (root t) \<noteq> None then Some [] else None" and ?p = "net_bits a m"
  obtain r n' bud' where w: "walk True False bud (root t) [] ?le ?p = (r, n', bud')"
    "n' \<noteq> Null" "elem_at n' = elem_at (root t)"
    "r = Some ?p \<and> sub n' ?p \<noteq> Null \<or> r = None \<and> bud' = 0 \<and> bud < m"
    using walk_create [of "root t" bud "[]" ?le ?p] assms(1) by (auto simp: trie_wf_def net_bits_def)
  have f: "find_trie_node_common t a m True False bud = (r, t\<lparr>root := n'\<rparr>, bud')"
    using w by (simp add: find_common_ok [OF assms(2)] Let_def)
  from w(4) show thesis
  proof (elim disjE conjE)
    assume r: "r = Some ?p" "sub n' ?p \<noteq> Null"
    show thesis
      by (rule that(1) [of "t\<lparr>root := set_elem n' ?p (snd (cb (elems t ?p) i))\<rparr>" bud'])
        (use r w f assms(3) in \<open>auto simp: add_trie_element_def elems_def elem_at_set_elem trie_wf_def
          split_beta set_elem_nonnull\<close>)
  next
    assume "r = None" "bud' = 0" "bud < m"
    then show thesis
      by (intro that(2) [of "t\<lparr>root := n'\<rparr>"])
        (use w f assms(3) in \<open>auto simp: add_trie_element_def elems_def trie_wf_def\<close>)
  qed
qed

lemma delete_trie_elems:
  assumes "trie_wf t" "net_ok t a" "m \<le> trie_max_depth (type t)"
    and "\<And>i. snd (cb None i) = None"
  shows "elems (snd (delete_trie_element cb t a m i)) =
           (elems t)(net_bits a m := snd (cb (elems t (net_bits a m)) i)) \<and>
         trie_wf (snd (delete_trie_element cb t a m i)) \<and>
         type (snd (delete_trie_element cb t a m i)) = type t"
proof -
  let ?le = "if node_elem (root t) \<noteq> None then Some [] else None" and ?p = "net_bits a m"
  have w: "walk False False 0 (root t) [] ?le ?p =
      (if sub (root t) ?p = Null then None else Some ?p, root t, 0)"
    using walk_find [of "root t" False 0 "[]" ?le ?p] assms(1)
    by (cases "walk False False 0 (root t) [] ?le ?p") (auto simp: trie_wf_def)
  have f: "find_trie_node_common t a m False False 0 =
      (if sub (root t) ?p = Null then None else Some ?p, t, 0)"
    using w by (simp add: find_common_ok [OF assms(2)] Let_def)
  show ?thesis
  proof (cases "sub (root t) ?p = Null")
    case True
    then have "elems t ?p = None" by (simp add: elems_def elem_at_def)
    moreover from this have "(elems t)(?p := None) = elems t" by auto
    ultimately show ?thesis using True f assms by (simp add: delete_trie_element_def)
  next
    case False
    then show ?thesis using f assms
      by (simp add: delete_trie_element_def split_beta elems_def elem_at_clear elem_at_set_elem
          trie_wf_def clear_nonnull set_elem_nonnull)
  qed
qed

section \<open>The lookup-table interface\<close>

text \<open>
  What the routing and neighbour tables rely on: a table has contents, a partial map from
  bit paths, which every update changes at one path only, and search is
  longest-prefix match over the contents.
\<close>

lemma lpm_cong: "(\<And>q. prefix q p \<Longrightarrow> f q = g q) \<Longrightarrow> lpm f p = lpm g p"
proof (induction p rule: rev_induct)
  case (snoc b p)
  then show ?case by (simp add: lpm_snoc split: option.split)
qed (simp add: lpm_Nil)

lemma lpm_found: "lpm f p = Some r \<Longrightarrow> \<exists>q. prefix q p \<and> f q = Some r"
  by (auto simp: lpm_Some_iff)

lemma lpm_None_iff: "lpm f p = None \<longleftrightarrow> (\<forall>q. prefix q p \<longrightarrow> f q = None)"
  by (induction p rule: rev_induct) (auto simp: lpm_Nil lpm_snoc prefix_snoc split: option.splits)

locale lpm_table =
  fixes wf :: "'t \<Rightarrow> bool" and contents :: "'t \<Rightarrow> bool list \<rightharpoonup> 'e"
    and key_ok :: "'t \<Rightarrow> 'k \<Rightarrow> nat \<Rightarrow> bool" and bits :: "'k \<Rightarrow> nat \<Rightarrow> bool list"
    and search :: "('e \<Rightarrow> 'r option) \<Rightarrow> 't \<Rightarrow> 'k \<Rightarrow> nat \<Rightarrow> 'r option"
    and exact :: "('e \<Rightarrow> 'r option) \<Rightarrow> 't \<Rightarrow> 'k \<Rightarrow> nat \<Rightarrow> 'r option"
  assumes search_law: "wf t \<Longrightarrow> key_ok t k m \<Longrightarrow>
      search cb t k m = lpm (\<lambda>p. case contents t p of None \<Rightarrow> None | Some e \<Rightarrow> cb e) (bits k m)"
    and exact_law: "wf t \<Longrightarrow> key_ok t k m \<Longrightarrow>
      exact cb t k m = (case contents t (bits k m) of None \<Rightarrow> None | Some e \<Rightarrow> cb e)"
begin

lemma search_found:
  assumes "wf t" "key_ok t k m" "search cb t k m = Some r"
  shows "\<exists>q e. prefix q (bits k m) \<and> contents t q = Some e \<and> cb e = Some r \<and>
     (\<forall>q' e'. prefix q' (bits k m) \<longrightarrow> length q < length q' \<longrightarrow> contents t q' = Some e' \<longrightarrow> cb e' = None)"
proof -
  obtain q where q: "prefix q (bits k m)"
    "(case contents t q of None \<Rightarrow> None | Some e \<Rightarrow> cb e) = Some r"
    "\<And>q'. prefix q' (bits k m) \<Longrightarrow> length q < length q' \<Longrightarrow>
       (case contents t q' of None \<Rightarrow> None | Some e \<Rightarrow> cb e) = None"
    using assms(3) unfolding search_law [OF assms(1,2)] lpm_Some_iff by blast
  moreover from q(2) obtain e where "contents t q = Some e" "cb e = Some r"
    by (auto split: option.splits)
  ultimately show ?thesis by (metis (no_types, lifting) option.simps(5))
qed

lemma search_not_found:
  assumes "wf t" "key_ok t k m"
  shows "search cb t k m = None \<longleftrightarrow>
     (\<forall>q e. prefix q (bits k m) \<longrightarrow> contents t q = Some e \<longrightarrow> cb e = None)"
  unfolding search_law [OF assms] lpm_None_iff by (auto split: option.splits)

text \<open>An update outside the prefixes of a key does not change what the key finds.\<close>

lemma search_unrelated:
  assumes "wf t" "wf t'" "key_ok t k m" "key_ok t' k m"
    and "contents t' = (contents t)(p := v)" "\<not> prefix p (bits k m)"
  shows "search cb t' k m = search cb t k m"
  unfolding search_law [OF assms(1,3)] search_law [OF assms(2,4)]
  using assms(5,6) by (intro lpm_cong) auto

text \<open>An entry that answers the key shadows everything of shorter prefix.\<close>

lemma search_updated:
  assumes "wf t'" "key_ok t' k m"
    and "contents t' = (contents t)(p := Some e)" "prefix p (bits k m)" "cb e = Some r"
    and "\<And>q e'. prefix q (bits k m) \<Longrightarrow> length p < length q \<Longrightarrow> contents t q = Some e' \<Longrightarrow> cb e' = None"
  shows "search cb t' k m = Some r"
  unfolding search_law [OF assms(1,2)] lpm_Some_iff
proof (intro exI conjI allI impI)
  show "prefix p (bits k m)" by fact
  show "(case contents t' p of None \<Rightarrow> None | Some e \<Rightarrow> cb e) = Some r" using assms(3,5) by simp
  show "(case contents t' q of None \<Rightarrow> None | Some e \<Rightarrow> cb e) = None"
    if "prefix q (bits k m) \<and> length p < length q" for q
    using that assms(3) assms(6) [of q] by (auto split: option.splits)
qed

end

definition trie_key_ok :: "'e trie \<Rightarrow> net \<Rightarrow> nat \<Rightarrow> bool" where
  "trie_key_ok t a m \<longleftrightarrow> net_ok t a \<and> m \<le> trie_max_depth (type t)"

interpretation trie_tab: lpm_table trie_wf elems trie_key_ok net_bits
    "\<lambda>cb t a m. search_trie_element cb t a m True" "\<lambda>cb t a m. search_trie_element cb t a m False"
  by unfold_locales (simp_all add: trie_key_ok_def search_trie_lpm search_trie_exact)

section \<open>Properties\<close>

text \<open>
  C30. Prefix search is longest-prefix match: \<open>search_trie_element\<close> with \<open>prefix_search\<close> returns
  \<open>r\<close> exactly when some prefix of the key holds an element for which the callback answers
  \<open>r\<close> and no longer prefix of the key holds an element for which it answers at all.
\<close>

theorem trie_longest_prefix_match:
  assumes "trie_wf t" "net_ok t a" "m \<le> trie_max_depth (type t)"
  shows "search_trie_element cb t a m True = Some r \<longleftrightarrow>
     (\<exists>k \<le> m. (case elems t (net_bits a k) of None \<Rightarrow> None | Some e \<Rightarrow> cb e) = Some r \<and>
        (\<forall>j \<le> m. k < j \<longrightarrow> (case elems t (net_bits a j) of None \<Rightarrow> None | Some e \<Rightarrow> cb e) = None))"
proof -
  let ?f = "\<lambda>p. case elems t p of None \<Rightarrow> None | Some e \<Rightarrow> cb e"
  have pre: "prefix q (net_bits a m) \<longleftrightarrow> (\<exists>k \<le> m. q = net_bits a k)" for q
  proof -
    have tk: "take k (net_bits a m) = net_bits a k" if "k \<le> m" for k
      using that by (simp add: net_bits_def take_map)
    show ?thesis
    proof
      assume "prefix q (net_bits a m)"
      then have "q = take (length q) (net_bits a m)" "length q \<le> length (net_bits a m)"
        by (auto simp: prefix_def)
      then show "\<exists>k \<le> m. q = net_bits a k"
        using tk [of "length q"] by (intro exI [of _ "length q"]) (simp add: net_bits_def)
    next
      assume "\<exists>k \<le> m. q = net_bits a k"
      then show "prefix q (net_bits a m)" using tk take_is_prefix by metis
    qed
  qed
  have len: "length (net_bits a k) = k" for k by (simp add: net_bits_def)
  have "(\<exists>q. (\<exists>k \<le> m. q = net_bits a k) \<and> P q \<and>
             (\<forall>q'. (\<exists>k \<le> m. q' = net_bits a k) \<and> length q < length q' \<longrightarrow> Q q')) \<longleftrightarrow>
        (\<exists>k \<le> m. P (net_bits a k) \<and> (\<forall>j \<le> m. k < j \<longrightarrow> Q (net_bits a j)))" for P Q
    by (rule iffI; metis len)
  then show ?thesis
    unfolding search_trie_lpm [OF assms] lpm_Some_iff pre .
qed

definition trie_example :: "nat trie" where
  "trie_example = \<lparr>type = TRIE_IPV4, root = TNode (TNode Null Null (Some 5)) Null (Some 7)\<rparr>"

lemma trie_longest_prefix_match_witness:
  "search_trie_element Some trie_example (Net4 0) 32 True = Some 5 \<longleftrightarrow>
     (\<exists>k \<le> 32. (case elems trie_example (net_bits (Net4 0) k) of None \<Rightarrow> None | Some e \<Rightarrow> Some e) = Some 5 \<and>
        (\<forall>j \<le> 32. k < j \<longrightarrow>
           (case elems trie_example (net_bits (Net4 0) j) of None \<Rightarrow> None | Some e \<Rightarrow> Some e) = None))"
  by (rule trie_longest_prefix_match)
    (simp_all add: trie_example_def trie_wf_def net_ok_def trie_max_depth_def)

text \<open>
  C31. Updates are exact: \<open>add_trie_element\<close> either applies the callback to the element at the
  key and changes nothing else, or reports \<open>-ENOMEM\<close> and changes no element, which
  happens only when fewer than \<open>mask\<close> allocations succeed; \<open>delete_trie_element\<close>
  applies its callback at the key and changes no other element, although it frees the
  nodes left empty on the way to the root.
\<close>

theorem trie_updates_exact:
  assumes "trie_wf t" "net_ok t a" "m \<le> trie_max_depth (type t)" and "\<And>i. snd (cb_del None i) = None"
  shows "(case add_trie_element cb_add t a m i budget of (ret, t', _) \<Rightarrow>
            trie_wf t' \<and> type t' = type t \<and>
            (ret = fst (cb_add (elems t (net_bits a m)) i) \<and>
             elems t' = (elems t)(net_bits a m := snd (cb_add (elems t (net_bits a m)) i)) \<or>
             ret = - ENOMEM \<and> elems t' = elems t \<and> budget < m)) \<and>
         (case delete_trie_element cb_del t a m i of (ret, t') \<Rightarrow>
            trie_wf t' \<and> type t' = type t \<and>
            elems t' = (elems t)(net_bits a m := snd (cb_del (elems t (net_bits a m)) i)))"
  using delete_trie_elems [of t a m cb_del i, OF assms(1-3)] assms(4)
  by (cases rule: add_trie_elems [OF assms(1-3), of cb_add i budget]) (simp_all add: split_beta)

lemma trie_updates_exact_witness:
  "(case add_trie_element (\<lambda>e i. (0, Some i)) trie_example (Net4 0) 2 9 5 of (ret, t', _) \<Rightarrow>
      trie_wf t' \<and> type t' = type trie_example \<and>
      (ret = 0 \<and> elems t' = (elems trie_example)(net_bits (Net4 0) 2 := Some 9) \<or>
       ret = - ENOMEM \<and> elems t' = elems trie_example \<and> (5 :: nat) < 2)) \<and>
   (case delete_trie_element (\<lambda>e i. (0, None)) trie_example (Net4 0) 2 (9 :: nat) of (ret, t') \<Rightarrow>
      trie_wf t' \<and> type t' = type trie_example \<and>
      elems t' = (elems trie_example)(net_bits (Net4 0) 2 := None))"
  using trie_updates_exact [of trie_example "Net4 0" 2 "\<lambda>e i. (0, None)" "\<lambda>e i. (0, Some i)" 9 5]
  by (simp add: trie_example_def trie_wf_def net_ok_def trie_max_depth_def)

end
