(* ===== verification/Interface.thy ===== *)
theory Interface
  imports Trie "HOL-Library.Product_Lexorder"
begin

text \<open>
  The interface table of \<^verbatim>\<open>src/main/if.c\<close>: addresses of an interface, source address
  selection, lookups by name and index, and the link events that add, update and
  remove interfaces. The intrusive lists are HOL lists (their pointer form is theory
  \<open>DList\<close>); \<open>add_list_node\<close> at the head node puts an element first. The driver's
  \<open>create\<close> and \<open>update\<close> callbacks, which read a netlink message, are arguments.
\<close>

section \<open>The code\<close>

definition ADDR_SCOPE_GLOBAL :: u8 where "ADDR_SCOPE_GLOBAL = 0"
definition ADDR_SCOPE_LINK :: u8 where "ADDR_SCOPE_LINK = 253"
definition ADDR_SCOPE_HOST :: u8 where "ADDR_SCOPE_HOST = 254"

record if_addr =
  ia_family :: sa_family
  ipv4 :: u32
  ipv6 :: "u8 list"
  prefix_len :: nat
  scope :: u8
  primary :: bool

datatype if_ops = ether_ops | loopback_ops

record if_info =
  ifindex :: u32
  name :: string
  l2_len :: u32
  flags :: u32
  mtu :: u32
  addr_list :: "if_addr list"
  ops :: if_ops

definition IFF_UP :: u32 where "IFF_UP = 1"
definition IFF_LOOPBACK :: u32 where "IFF_LOOPBACK = 8"
definition IFF_RUNNING :: u32 where "IFF_RUNNING = 64"

definition if_has_loopback :: "if_info list \<Rightarrow> bool" where
  "if_has_loopback ifs = list_ex (\<lambda>i. ops i = loopback_ops) ifs"

definition if_addr_equal :: "if_addr \<Rightarrow> sa_family \<Rightarrow> u8 list \<Rightarrow> bool" where
  "if_addr_equal a family ip =
     (if ia_family a \<noteq> family then False
      else if family = AF_INET6 then same_bytes 16 (ipv6 a) ip
      else ipv4 a = load32 ip)"

definition ip_to_scope :: "sa_family \<Rightarrow> u8 list \<Rightarrow> u8" where
  "ip_to_scope family ip =
     (if family = AF_INET then
        (let v4 = load32 ip; b0 = ucast (drop_bit 24 (htonl v4)) :: u8 in
         if b0 = 127 then ADDR_SCOPE_HOST
         else if b0 = 169 \<and> (ucast (drop_bit 16 (htonl v4)) :: u8) = 254 then ADDR_SCOPE_LINK
         else ADDR_SCOPE_GLOBAL)
      else if ip ! 0 = 0xfe \<and> ip ! 1 AND 0xc0 = 0x80 then ADDR_SCOPE_LINK
      else if same_bytes 16 ip (replicate 15 0 @ [1]) then ADDR_SCOPE_HOST
      else ADDR_SCOPE_GLOBAL)"

definition ARPHRD_ETHER :: int where "ARPHRD_ETHER = 1"
definition ARPHRD_LOOPBACK :: int where "ARPHRD_LOOPBACK = 772"

definition get_if_ops_by_type :: "int \<Rightarrow> if_ops option" where
  "get_if_ops_by_type t =
     map_of [(ARPHRD_ETHER, ether_ops), (ARPHRD_LOOPBACK, loopback_ops)] t"

definition if_is_up :: "u32 \<Rightarrow> bool" where
  "if_is_up fl \<longleftrightarrow> fl AND IFF_UP \<noteq> 0"

fun if_delete_addr_loop :: "if_addr list \<Rightarrow> sa_family \<Rightarrow> u8 list \<Rightarrow> if_addr list \<times> bool" where
  "if_delete_addr_loop [] family ip = ([], False)"
| "if_delete_addr_loop (a # as) family ip =
     (if \<not> if_addr_equal a family ip
      then (case if_delete_addr_loop as family ip of (as', r) \<Rightarrow> (a # as', r))
      else (as, True))"

definition if_delete_addr :: "if_info \<Rightarrow> sa_family \<Rightarrow> u8 list \<Rightarrow> if_info \<times> bool" where
  "if_delete_addr info family ip =
     (case if_delete_addr_loop (addr_list info) family ip of (as, r) \<Rightarrow> (info\<lparr>addr_list := as\<rparr>, r))"

fun if_add_addr_loop :: "if_addr list \<Rightarrow> sa_family \<Rightarrow> u8 list \<Rightarrow> nat \<Rightarrow> u8 \<Rightarrow> bool \<Rightarrow> if_addr list option"
  where
  "if_add_addr_loop [] family ip plen sc prim = None"
| "if_add_addr_loop (a # as) family ip plen sc prim =
     (if if_addr_equal a family ip
      then Some (a\<lparr>prefix_len := plen, scope := sc, primary := prim\<rparr> # as)
      else map_option (Cons a) (if_add_addr_loop as family ip plen sc prim))"

definition if_add_addr ::
    "bool \<Rightarrow> if_info \<Rightarrow> sa_family \<Rightarrow> u8 list \<Rightarrow> nat \<Rightarrow> u8 \<Rightarrow> bool \<Rightarrow> if_info \<times> bool" where
  "if_add_addr calloc_ok info family ip plen sc prim =
     (case if_add_addr_loop (addr_list info) family ip plen sc prim of
        Some as \<Rightarrow> (info\<lparr>addr_list := as\<rparr>, True)
      | None \<Rightarrow>
          if \<not> calloc_ok then (info, False)
          else (info\<lparr>addr_list :=
                  \<lparr>ia_family = family,
                   ipv4 = (if family = AF_INET6 then 0 else load32 ip),
                   ipv6 = (if family = AF_INET6 then take 16 ip else replicate 16 0),
                   prefix_len = plen, scope = sc, primary = prim\<rparr> # addr_list info\<rparr>, True))"

definition if_has_addr :: "if_info \<Rightarrow> sa_family \<Rightarrow> u8 list \<Rightarrow> bool" where
  "if_has_addr info family ip = list_ex (\<lambda>a. if_addr_equal a family ip) (addr_list info)"

definition is_subnet_match_v4 :: "u32 \<Rightarrow> nat \<Rightarrow> u32 \<Rightarrow> bool" where
  "is_subnet_match_v4 sip plen dip =
     (if plen = 0 then True
      else let m = (if plen = 32 then 0xFFFFFFFF else push_bit (32 - plen) (NOT 0)) :: u32
           in htonl sip AND m = htonl dip AND m)"

definition is_subnet_match_v6 :: "u8 list \<Rightarrow> nat \<Rightarrow> u8 list \<Rightarrow> bool" where
  "is_subnet_match_v6 sip plen dip =
     (if plen > 128 then False
      else if plen = 0 then True
      else let full_bytes = plen div 8; rem_bits = plen mod 8 in
           if \<not> same_bytes full_bytes sip dip then False
           else if rem_bits = 0 then True
           else let mask8 = push_bit (8 - rem_bits) 0xFF :: u8
                in sip ! full_bytes AND mask8 = dip ! full_bytes AND mask8)"

definition if_addr_better :: "if_addr \<Rightarrow> if_addr option \<Rightarrow> u8 \<Rightarrow> bool" where
  "if_addr_better candidate current daddr_scope =
     (case current of
        None \<Rightarrow> True
      | Some cur \<Rightarrow>
          if primary candidate \<noteq> primary cur then primary candidate
          else if (scope candidate = daddr_scope) \<noteq> (scope cur = daddr_scope)
               then scope candidate = daddr_scope
          else prefix_len candidate > prefix_len cur)"

definition if_copy_addr :: "if_addr \<Rightarrow> u8 list" where
  "if_copy_addr a = (if ia_family a = AF_INET6 then take 16 (ipv6 a) else bytes_of_u32 (ipv4 a))"

definition subnet_match :: "if_addr \<Rightarrow> sa_family \<Rightarrow> u8 list \<Rightarrow> bool" where
  "subnet_match a family daddr =
     (if family = AF_INET then is_subnet_match_v4 (ipv4 a) (prefix_len a) (load32 daddr)
      else is_subnet_match_v6 (ipv6 a) (prefix_len a) daddr)"

fun best_saddr_loop ::
    "if_addr list \<Rightarrow> sa_family \<Rightarrow> u8 list \<Rightarrow> u8 \<Rightarrow> if_addr option \<Rightarrow> if_addr option \<Rightarrow>
     if_addr option \<times> if_addr option" where
  "best_saddr_loop [] family daddr sc best fallback = (best, fallback)"
| "best_saddr_loop (a # as) family daddr sc best fallback =
     (if ia_family a \<noteq> family then best_saddr_loop as family daddr sc best fallback
      else if family = AF_INET \<and> (ipv4 a = 0 \<or> prefix_len a > 32)
           then best_saddr_loop as family daddr sc best fallback
      else let match = subnet_match a family daddr in
           if match \<and> if_addr_better a best sc
           then (if prefix_len a = (if family = AF_INET6 then 128 else 32) then (Some a, fallback)
                 else best_saddr_loop as family daddr sc (Some a) fallback)
           else if \<not> match \<and> if_addr_better a fallback sc
                then best_saddr_loop as family daddr sc best (Some a)
           else best_saddr_loop as family daddr sc best fallback)"

definition best_addr :: "if_info \<Rightarrow> sa_family \<Rightarrow> u8 list \<Rightarrow> if_addr option" where
  "best_addr info family daddr =
     (let (best, fallback) =
        best_saddr_loop (addr_list info) family daddr (ip_to_scope family daddr) None None
      in case best of Some b \<Rightarrow> Some b | None \<Rightarrow> fallback)"

text \<open>The returned bytes are the answer buffer, zero beyond the address copied.\<close>

definition if_search_best_saddr_by_daddr :: "if_info \<Rightarrow> sa_family \<Rightarrow> u8 list \<Rightarrow> bool \<times> u8 list" where
  "if_search_best_saddr_by_daddr info family daddr =
     (case best_addr info family daddr of
        None \<Rightarrow> (False, replicate 16 0)
      | Some a \<Rightarrow> (True, if_copy_addr a @ replicate (16 - length (if_copy_addr a)) 0))"

fun search_if_by_name :: "if_info list \<Rightarrow> string \<Rightarrow> if_info option" where
  "search_if_by_name [] n = None"
| "search_if_by_name (i # is) n = (if name i = n then Some i else search_if_by_name is n)"

fun search_if_by_index :: "if_info list \<Rightarrow> u32 \<Rightarrow> if_info option" where
  "search_if_by_index [] x = None"
| "search_if_by_index (i # is) x = (if ifindex i = x then Some i else search_if_by_index is x)"

definition search_addr_exist :: "if_info list \<Rightarrow> sa_family \<Rightarrow> u8 list \<Rightarrow> u32 \<Rightarrow> bool" where
  "search_addr_exist ifs family ip ix =
     list_ex (\<lambda>i. if ix \<noteq> 0 \<and> ifindex i \<noteq> ix then False
                  else list_ex (\<lambda>a. if_addr_equal a family ip) (addr_list i)) ifs"

text \<open>
  \<open>if_update\<close> on an existing interface applies the driver's \<open>update\<close>; otherwise the driver
  chosen by the link type creates one (\<^const>\<open>None\<close> is a failing \<open>create\<close>). The result
  carries the changed interface with \<open>bring_up\<close> and \<open>bring_down\<close>.
\<close>

fun if_update_loop :: "(if_info \<Rightarrow> if_info) \<Rightarrow> u32 \<Rightarrow> if_info list \<Rightarrow>
    (if_info list \<times> if_info option \<times> bool \<times> bool) option" where
  "if_update_loop upd ix [] = None"
| "if_update_loop upd ix (i # is) =
     (if ifindex i = ix then
        (let was_up = if_is_up (flags i);
             i = upd i;
             bring_up = (\<not> was_up \<and> if_is_up (flags i));
             bring_down = (\<not> bring_up \<and> was_up \<and> \<not> if_is_up (flags i))
         in Some (i # is, if bring_up \<or> bring_down then Some i else None, bring_up, bring_down))
      else map_option (\<lambda>(is, r). (i # is, r)) (if_update_loop upd ix is))"

definition if_update :: "(if_info \<Rightarrow> if_info) \<Rightarrow> (if_ops \<Rightarrow> if_info option) \<Rightarrow> int \<Rightarrow> u32 \<Rightarrow> if_info list \<Rightarrow>
    int \<times> if_info list \<times> if_info option \<times> bool \<times> bool" where
  "if_update upd create if_type ix ifs =
     (case if_update_loop upd ix ifs of
        Some r \<Rightarrow> (0, r)
      | None \<Rightarrow>
          (case get_if_ops_by_type if_type of
             None \<Rightarrow> (- 1, ifs, None, False, False)
           | Some o' \<Rightarrow>
               (case create o' of
                  None \<Rightarrow> (- 1, ifs, None, False, False)
                | Some i \<Rightarrow>
                    if if_is_up (flags i) then (0, i # ifs, Some i, True, False)
                    else (0, i # ifs, None, False, False))))"

fun if_delete :: "u32 \<Rightarrow> if_info list \<Rightarrow> int \<times> if_info list \<times> if_info option \<times> bool" where
  "if_delete ix [] = (- 1, [], None, False)"
| "if_delete ix (i # is) =
     (if ifindex i = ix then (0, is, Some (i\<lparr>addr_list := []\<rparr>), if_is_up (flags i))
      else (case if_delete ix is of (r, is, d, up) \<Rightarrow> (r, i # is, d, up)))"

definition if_create_virtual_loopback :: "if_info list \<Rightarrow> if_info list" where
  "if_create_virtual_loopback ifs =
     \<lparr>ifindex = 0x1234, name = ''loopback'', l2_len = 0,
      flags = IFF_UP OR IFF_RUNNING OR IFF_LOOPBACK, mtu = 65536, addr_list = [],
      ops = loopback_ops\<rparr> # ifs"

section \<open>Subnet tests agree with the bit paths of the tries\<close>

lemma and_high_mask_eq_iff:
  fixes x y :: "'a::len word"
  assumes "m = push_bit k (NOT 0)"
  shows "x AND m = y AND m \<longleftrightarrow> (\<forall>i. k \<le> i \<longrightarrow> i < LENGTH('a) \<longrightarrow> bit x i = bit y i)"
  unfolding assms bit_eq_iff by (auto simp: bit_simps)

lemma high_bits_iff:
  fixes n k :: nat
  assumes "k \<le> n"
  shows "(\<forall>i. n - k \<le> i \<longrightarrow> i < n \<longrightarrow> f i = g i) \<longleftrightarrow>
         (\<forall>i < k. f (n - 1 - i) = (g (n - 1 - i) :: bool))" (is "?l \<longleftrightarrow> ?r")
proof
  assume l: ?l
  show ?r
  proof (intro allI impI)
    fix i assume "i < k"
    then have "n - k \<le> n - 1 - i" "n - 1 - i < n" using assms by auto
    then show "f (n - 1 - i) = g (n - 1 - i)" using l by blast
  qed
next
  assume r: ?r
  show ?l
  proof (intro allI impI)
    fix i assume i: "n - k \<le> i" "i < n"
    then have "n - 1 - i < k" using assms by linarith
    moreover have "n - 1 - (n - 1 - i) = i" using i by simp
    ultimately show "f i = g i" using r by metis
  qed
qed

lemma net_bits_eq_iff: "net_bits a m = net_bits b m \<longleftrightarrow> (\<forall>i < m. net_bit a i = net_bit b i)"
  by (auto simp: net_bits_def)

lemma subnet_v4_bits:
  assumes "m \<le> 32"
  shows "is_subnet_match_v4 a m b \<longleftrightarrow> net_bits (Net4 a) m = net_bits (Net4 b) m"
proof -
  have ones: "(0xFFFFFFFF :: u32) = push_bit 0 (NOT 0)" by simp
  have "is_subnet_match_v4 a m b \<longleftrightarrow>
      (\<forall>i. 32 - m \<le> i \<longrightarrow> i < 32 \<longrightarrow> bit (htonl a) i = bit (htonl b) i)"
  proof (cases "m = 32")
    case True
    then show ?thesis
      using and_high_mask_eq_iff [OF ones, of "htonl a" "htonl b"] by (simp add: is_subnet_match_v4_def)
  next
    case False
    then show ?thesis
      using and_high_mask_eq_iff [OF refl, of "htonl a" "32 - m" "htonl b"]
      by (simp add: is_subnet_match_v4_def)
  qed
  then show ?thesis using high_bits_iff [OF assms] by (simp add: net_bits_eq_iff)
qed

lemma bytes_prefix_bits:
  assumes "length a = 16" "length b = 16" "k \<le> 16"
  shows "same_bytes k a b \<longleftrightarrow> (\<forall>i < 8 * k. bit (a ! (i div 8)) (7 - i mod 8) = bit (b ! (i div 8)) (7 - i mod 8))"
    (is "_ \<longleftrightarrow> ?r")
proof
  assume "same_bytes k a b"
  then have "a ! j = b ! j" if "j < k" for j
    using that assms unfolding same_bytes_def by (metis nth_take)
  then show ?r by (auto simp: less_mult_imp_div_less mult.commute)
next
  assume r: ?r
  have "a ! j = b ! j" if j: "j < k" for j
  proof (rule bit_eqI)
    fix n assume "possible_bit TYPE(u8) n"
    then have n: "n < 8" by (simp add: possible_bit_def)
    define i where "i = 8 * j + (7 - n)"
    have i: "i < 8 * k" "i div 8 = j" using n j by (auto simp: i_def)
    moreover have "i mod 8 = 7 - n"
      using minus_mult_div_eq_mod [of i 8] unfolding i(2) by (simp add: i_def)
    ultimately have "7 - i mod 8 = n" using n by simp
    with i show "bit (a ! j) n \<longleftrightarrow> bit (b ! j) n" using r by metis
  qed
  then show "same_bytes k a b" using assms by (auto simp: same_bytes_def list_eq_iff_nth_eq)
qed

text \<open>The whole-bytes-then-mask comparison used for IPv6 addresses.\<close>

lemma bytes_mask_bits:
  assumes l: "length a = 16" "length b = 16" and m: "m \<le> 128"
    and q: "q = m div 8" and r: "r = m mod 8"
  shows "(same_bytes q a b \<and> (r = 0 \<or> a ! q AND push_bit (8 - r) 0xFF = b ! q AND push_bit (8 - r) 0xFF))
    \<longleftrightarrow> net_bits (Net6 (Some a)) m = net_bits (Net6 (Some b)) m"
proof -
  let ?e = "\<lambda>i. bit (a ! (i div 8)) (7 - i mod 8) = bit (b ! (i div 8)) (7 - i mod 8)"
  have m': "m = 8 * q + r" "r < 8" using q r by auto
  have "(0xFF :: u8) = NOT 0" by simp
  then have ones: "push_bit k (0xFF :: u8) = push_bit k (NOT 0)" for k by (rule arg_cong)
  have "(\<forall>i < m. ?e i) \<longleftrightarrow> (\<forall>i < 8 * q. ?e i) \<and> (\<forall>i < r. ?e (8 * q + i))"
    unfolding m'(1) by (rule all_less_add)
  also have "(\<forall>i < 8 * q. ?e i) \<longleftrightarrow> same_bytes q a b"
    using bytes_prefix_bits [OF l, of q] m q by simp
  also have "(\<forall>i < r. ?e (8 * q + i)) \<longleftrightarrow> (\<forall>i < r. bit (a ! q) (7 - i) = bit (b ! q) (7 - i))"
    using m'(2) by auto
  also have "\<dots> \<longleftrightarrow> (\<forall>i. 8 - r \<le> i \<longrightarrow> i < 8 \<longrightarrow> bit (a ! q) i = bit (b ! q) i)"
    using high_bits_iff [of r 8 "bit (a ! q)" "bit (b ! q)"] m'(2) by simp
  also have "\<dots> \<longleftrightarrow> a ! q AND push_bit (8 - r) 0xFF = b ! q AND push_bit (8 - r) 0xFF"
    using and_high_mask_eq_iff [OF ones, of "a ! q" "8 - r" "b ! q"] by simp
  finally have eq: "(\<forall>i < m. ?e i) \<longleftrightarrow>
    same_bytes q a b \<and> a ! q AND push_bit (8 - r) 0xFF = b ! q AND push_bit (8 - r) 0xFF" .
  have "a ! q AND push_bit (8 - r) 0xFF = b ! q AND push_bit (8 - r) 0xFF" if "r = 0"
  proof -
    have "push_bit 8 w = 0" for w :: u8 by (rule bit_eqI) (auto simp: bit_simps)
    then show ?thesis by (simp only: that diff_zero) simp
  qed
  with eq show ?thesis unfolding net_bits_eq_iff net_bit.simps by blast
qed

lemma subnet_v6_bits:
  assumes "length a = 16" "length b = 16" "m \<le> 128"
  shows "is_subnet_match_v6 a m b \<longleftrightarrow> net_bits (Net6 (Some a)) m = net_bits (Net6 (Some b)) m"
  unfolding bytes_mask_bits [OF assms refl refl, symmetric] is_subnet_match_v6_def Let_def
  using assms(3) by (auto simp: same_bytes_def)

section \<open>Source address selection\<close>

definition eligible :: "sa_family \<Rightarrow> if_addr \<Rightarrow> bool" where
  "eligible family a \<longleftrightarrow>
     ia_family a = family \<and> \<not> (family = AF_INET \<and> (ipv4 a = 0 \<or> prefix_len a > 32))"

text \<open>\<open>chosen\<close>: the result of keeping the better of the current choice and the elements that satisfy \<open>P\<close>.\<close>

definition chosen :: "(if_addr \<Rightarrow> bool) \<Rightarrow> u8 \<Rightarrow> if_addr set \<Rightarrow> if_addr option \<Rightarrow> if_addr option \<Rightarrow> bool" where
  "chosen P sc as cur res \<longleftrightarrow>
     (case res of
        None \<Rightarrow> cur = None \<and> (\<forall>b \<in> as. \<not> P b)
      | Some a \<Rightarrow> (cur = Some a \<or> a \<in> as \<and> P a) \<and>
                  (\<forall>b. b \<in> as \<and> P b \<or> cur = Some b \<longrightarrow> \<not> if_addr_better b (Some a) sc))"

text \<open>The comparison is the lexicographic order on primary flag, scope match and prefix length.\<close>

definition addr_rank :: "u8 \<Rightarrow> if_addr \<Rightarrow> bool \<times> bool \<times> nat" where
  "addr_rank sc a = (primary a, scope a = sc, prefix_len a)"

lemma better_iff_rank: "if_addr_better x (Some y) sc \<longleftrightarrow> addr_rank sc y < addr_rank sc x"
  unfolding if_addr_better_def addr_rank_def by (simp add: less_prod_def less_bool_def)

lemma better_irrefl: "\<not> if_addr_better a (Some a) sc"
  by (simp add: better_iff_rank)

lemma better_asym: "if_addr_better a (Some c) sc \<Longrightarrow> \<not> if_addr_better c (Some a) sc"
  by (simp add: better_iff_rank)

lemma better_negtrans:
  "\<not> if_addr_better b (Some c) sc \<Longrightarrow> \<not> if_addr_better c (Some a) sc \<Longrightarrow> \<not> if_addr_better b (Some a) sc"
  by (simp add: better_iff_rank)

lemma chosen_refl: "chosen P sc {} cur cur"
  by (auto simp: chosen_def better_irrefl split: option.split)

lemma chosen_take:
  assumes "chosen P sc as (Some a) res" "P a" "if_addr_better a cur sc"
  shows "chosen P sc (insert a as) cur res"
proof -
  obtain c where c: "res = Some c" "c = a \<or> c \<in> as \<and> P c"
    "\<And>b. b \<in> as \<and> P b \<or> b = a \<Longrightarrow> \<not> if_addr_better b (Some c) sc"
    using assms(1) by (auto simp: chosen_def split: option.splits)
  have "\<not> if_addr_better b (Some c) sc" if "cur = Some b" for b
    using that assms(3) better_asym better_negtrans c(3) [of a] by blast
  with c assms show ?thesis by (auto simp: chosen_def)
qed

lemma chosen_skip:
  assumes "chosen P sc as cur res" "\<not> (P a \<and> if_addr_better a cur sc)"
  shows "chosen P sc (insert a as) cur res"
proof (cases "P a")
  case True
  then obtain d where d: "cur = Some d" "\<not> if_addr_better a (Some d) sc"
    using assms(2) by (cases cur) (auto simp: if_addr_better_def)
  then show ?thesis using assms(1) better_negtrans [OF d(2)]
    by (auto simp: chosen_def split: option.splits)
qed (use assms in \<open>auto simp: chosen_def split: option.splits\<close>)

lemma best_saddr_loop_chosen:
  assumes "best_saddr_loop as family daddr sc best fallback = (b', f')"
  shows "(b' \<noteq> None \<and> prefix_len (the b') = (if family = AF_INET6 then 128 else 32) \<and>
          the b' \<in> set as \<and> eligible family (the b') \<and> subnet_match (the b') family daddr) \<or>
         (chosen (\<lambda>a. eligible family a \<and> subnet_match a family daddr) sc (set as) best b' \<and>
          chosen (\<lambda>a. eligible family a \<and> \<not> subnet_match a family daddr) sc (set as) fallback f')"
  using assms
proof (induction as arbitrary: best fallback)
  case Nil
  then show ?case by (auto simp: chosen_refl)
next
  case (Cons a as)
  let ?M = "\<lambda>a. eligible family a \<and> subnet_match a family daddr"
  let ?N = "\<lambda>a. eligible family a \<and> \<not> subnet_match a family daddr"
  consider "\<not> eligible family a"
    | "eligible family a" "subnet_match a family daddr" "if_addr_better a best sc"
    | "eligible family a" "\<not> subnet_match a family daddr" "if_addr_better a fallback sc"
    | "eligible family a" "subnet_match a family daddr" "\<not> if_addr_better a best sc"
    | "eligible family a" "\<not> subnet_match a family daddr" "\<not> if_addr_better a fallback sc"
    by blast
  then show ?case
  proof cases
    case 1
    then have "best_saddr_loop as family daddr sc best fallback = (b', f')"
      using Cons.prems by (simp add: eligible_def split: if_splits)
    from Cons.IH [OF this] show ?thesis
      using chosen_skip [of ?M sc "set as" best b' a] chosen_skip [of ?N sc "set as" fallback f' a] 1
      by (auto simp del: best_saddr_loop.simps)
  next
    case 2
    show ?thesis
    proof (cases "prefix_len a = (if family = AF_INET6 then 128 else 32)")
      case True
      then have "b' = Some a" using 2 Cons.prems by (simp add: eligible_def split: if_splits)
      then show ?thesis using True 2 by simp
    next
      case False
      then have "best_saddr_loop as family daddr sc (Some a) fallback = (b', f')"
        using 2 Cons.prems by (simp add: eligible_def split: if_splits)
      from Cons.IH [OF this] show ?thesis
        using chosen_take [of ?M sc "set as" a b' best] chosen_skip [of ?N sc "set as" fallback f' a] 2
        by (auto simp del: best_saddr_loop.simps)
    qed
  next
    case 3
    then have "best_saddr_loop as family daddr sc best (Some a) = (b', f')"
      using Cons.prems by (simp add: eligible_def split: if_splits)
    from Cons.IH [OF this] show ?thesis
      using chosen_skip [of ?M sc "set as" best b' a] chosen_take [of ?N sc "set as" a f' fallback] 3
      by (auto simp del: best_saddr_loop.simps)
  next
    case 4
    then have "best_saddr_loop as family daddr sc best fallback = (b', f')"
      using Cons.prems by (simp add: eligible_def split: if_splits)
    from Cons.IH [OF this] show ?thesis
      using chosen_skip [of ?M sc "set as" best b' a] chosen_skip [of ?N sc "set as" fallback f' a] 4
      by (auto simp del: best_saddr_loop.simps)
  next
    case 5
    then have "best_saddr_loop as family daddr sc best fallback = (b', f')"
      using Cons.prems by (simp add: eligible_def split: if_splits)
    from Cons.IH [OF this] show ?thesis
      using chosen_skip [of ?M sc "set as" best b' a] chosen_skip [of ?N sc "set as" fallback f' a] 5
      by (auto simp del: best_saddr_loop.simps)
  qed
qed

section \<open>Link events\<close>

definition if_table_ok :: "if_info list \<Rightarrow> bool" where
  "if_table_ok ifs \<longleftrightarrow> distinct (map ifindex ifs)"

lemma search_if_by_index_iff:
  "if_table_ok ifs \<Longrightarrow> search_if_by_index ifs x = Some i \<longleftrightarrow> i \<in> set ifs \<and> ifindex i = x"
  by (induction ifs) (auto simp: if_table_ok_def)

lemma if_update_loop_index:
  assumes "\<And>i. ifindex (upd i) = ifindex i" "if_update_loop upd ix ifs = Some (ifs', r)"
  shows "map ifindex ifs' = map ifindex ifs \<and>
         set ifs' = (\<lambda>i. if ifindex i = ix then upd i else i) ` set ifs \<or> \<not> if_table_ok ifs"
  using assms(2)
proof (induction ifs arbitrary: ifs' r)
  case (Cons i iss)
  show ?case
  proof (cases "ifindex i = ix")
    case True
    then have "ifs' = upd i # iss" using Cons.prems by (auto simp: Let_def)
    moreover have "(\<lambda>i. if ifindex i = ix then upd i else i) ` set iss = set iss" if "if_table_ok (i # iss)"
    proof -
      have "ifindex j \<noteq> ix" if "j \<in> set iss" for j
        using that True \<open>if_table_ok (i # iss)\<close> by (auto simp: if_table_ok_def image_iff)
      then show ?thesis by (simp cong: image_cong)
    qed
    ultimately show ?thesis using True assms(1) by auto
  next
    case False
    then show ?thesis using Cons by (fastforce simp: if_table_ok_def)
  qed
qed simp

lemma if_update_loop_none: "if_update_loop upd ix ifs = None \<longleftrightarrow> ix \<notin> ifindex ` set ifs"
  by (induction ifs) (auto simp: Let_def)

lemma if_delete_result:
  "if_table_ok ifs \<Longrightarrow> if_delete ix ifs = (r, ifs', d, up) \<Longrightarrow>
   if_table_ok ifs' \<and> set ifs' = {i \<in> set ifs. ifindex i \<noteq> ix} \<and> (r = 0 \<longleftrightarrow> ix \<in> ifindex ` set ifs)"
proof (induction ifs arbitrary: r ifs' d up)
  case (Cons i iss)
  obtain r1 ifs1 d1 up1 where d: "if_delete ix iss = (r1, ifs1, d1, up1)" by (metis prod_cases4)
  show ?case using Cons d by (auto simp: if_table_ok_def image_iff split: if_splits)
qed (auto simp: if_table_ok_def)

lemma if_update_result:
  assumes ok: "if_table_ok ifs" and upd: "\<And>i. ifindex (upd i) = ifindex i"
    and create: "\<And>k i. create k = Some i \<Longrightarrow> ifindex i = ix"
    and r: "if_update upd create ty ix ifs = (r, ifs', c, up, down)"
  shows "if_table_ok ifs' \<and> (r = 0 \<longleftrightarrow> search_if_by_index ifs' ix \<noteq> None) \<and>
         (r \<noteq> 0 \<longrightarrow> ifs' = ifs) \<and> \<not> (up \<and> down)"
proof (cases "if_update_loop upd ix ifs")
  case None
  then have ix: "ix \<notin> ifindex ` set ifs" by (simp add: if_update_loop_none)
  then have "search_if_by_index ifs ix \<noteq> Some a" for a
    using search_if_by_index_iff [OF ok, of ix a] by auto
  then have "search_if_by_index ifs ix = None" by (cases "search_if_by_index ifs ix") auto
  then show ?thesis using r None ok ix create
    by (auto simp: if_update_def if_table_ok_def split: option.splits if_splits)
next
  case (Some res)
  obtain cs where res: "res = (ifs', c, up, down)" and r0: "r = 0"
    using r Some by (cases res) (auto simp: if_update_def)
  have m: "map ifindex ifs' = map ifindex ifs"
    using if_update_loop_index [OF upd, of ix ifs ifs'] ok Some res by auto
  have "ix \<in> ifindex ` set ifs" using Some if_update_loop_none [of upd ix ifs] by auto
  then have "ix \<in> ifindex ` set ifs'" using m by (metis list.set_map)
  moreover have ok': "if_table_ok ifs'" using ok m by (simp add: if_table_ok_def)
  moreover have "\<not> (up \<and> down)"
    using Some [unfolded res] by (induction ifs arbitrary: ifs') (auto simp: Let_def split: if_splits)
  ultimately show ?thesis using r0 search_if_by_index_iff [OF ok', of ix] by auto
qed

section \<open>Properties\<close>

text \<open>
  The mask comparisons of \<open>is_subnet_match_v4\<close> and \<open>is_subnet_match_v6\<close> test exactly whether
  the two addresses have the same first \<open>prefix_len\<close> bits, in the bit order in which the
  routing tries are walked, for every prefix length of the family.
\<close>

theorem subnet_match_is_bit_prefix:
  assumes "m \<le> 32" and "length a = 16" "length b = 16" "n \<le> 128"
  shows "(is_subnet_match_v4 x m y \<longleftrightarrow> net_bits (Net4 x) m = net_bits (Net4 y) m) \<and>
         (is_subnet_match_v6 a n b \<longleftrightarrow> net_bits (Net6 (Some a)) n = net_bits (Net6 (Some b)) n)"
  using subnet_v4_bits [OF assms(1)] subnet_v6_bits [OF assms(2-4)] by simp

lemma subnet_match_is_bit_prefix_witness:
  "(is_subnet_match_v4 0x0100A8C0 24 0x0500A8C0 \<longleftrightarrow>
      net_bits (Net4 0x0100A8C0) 24 = net_bits (Net4 0x0500A8C0) 24) \<and>
   (is_subnet_match_v6 (replicate 16 0xFE) 13 (replicate 16 0xF9) \<longleftrightarrow>
      net_bits (Net6 (Some (replicate 16 0xFE))) 13 = net_bits (Net6 (Some (replicate 16 0xF9))) 13)"
  by (rule subnet_match_is_bit_prefix) simp_all


definition addr_example :: "u32 \<Rightarrow> nat \<Rightarrow> if_addr" where
  "addr_example a n = \<lparr>ia_family = AF_INET, ipv4 = a, ipv6 = [], prefix_len = n, scope = 0, primary = True\<rparr>"

definition if_example :: if_info where
  "if_example = \<lparr>ifindex = 2, name = ''eth0'', l2_len = 14, flags = 1, mtu = 1500,
                 addr_list = [addr_example 0x0100000A 8, addr_example 0x0100A8C0 24], ops = ether_ops\<rparr>"




end
