(* ===== verification/Route.thy ===== *)
theory Route
  imports Interface
begin

text \<open>
  The routing and neighbour tables of \<^verbatim>\<open>src/main/route_arp_ndp.c\<close> and
  \<^verbatim>\<open>src/main/route_arp_ndp.h\<close>: four tries whose elements are lists of routes or neighbour
  entries, the callbacks that edit and search these lists, the entry points that
  pick the table by address family, next-hop tests, neighbour resolution with its
  rate-limited probes, and the netlink route event.

  A cached \<open>if_info\<close> pointer is an option that holds the interface while it is usable;
  reference counts are not repeated here (theory \<open>Sync\<close>). Allocation results are
  arguments.
\<close>

section \<open>The code\<close>

record route_info =
  ip_family :: sa_family
  rtype :: u32
  dst_mask :: nat
  dst_ip :: "u8 list"
  gw_ip :: "u8 list"
  r_if_name :: string
  r_ifindex :: u32
  metric :: u32
  r_mtu :: u32
  prefsrc :: "u8 list"
  r_if :: "if_info option"

record ndp_info =
  n_family :: sa_family
  n_ip :: "u8 list"
  mac :: "u8 list"
  n_if_name :: string
  n_ifindex :: u32
  nud_state :: u8

record route_key =
  rk_family :: sa_family
  rk_ifindex :: u32
  dip :: "u8 list"

record ndp_key =
  nk_family :: sa_family
  neigh_ip :: "u8 list"
  nk_ifindex :: u32

record tables =
  ipv4_route_table :: "route_info list trie"
  ipv6_route_table :: "route_info list trie"
  arp_table :: "ndp_info list trie"
  ndp_table :: "ndp_info list trie"

definition route_same :: "route_info \<Rightarrow> route_info \<Rightarrow> bool" where
  "route_same a b =
     (if ip_family a \<noteq> ip_family b then False
      else if rtype a \<noteq> rtype b then False
      else if dst_mask a \<noteq> dst_mask b then False
      else let n = (if ip_family a = AF_INET then 4 else 16) in
           if \<not> same_bytes n (dst_ip a) (dst_ip b) then False
           else if \<not> same_bytes n (gw_ip a) (gw_ip b) then False
           else if r_ifindex a \<noteq> r_ifindex b then False
           else if r_ifindex a = 0 \<and> r_if_name a \<noteq> r_if_name b then False
           else metric a = metric b)"

definition route_copy_attr :: "route_info \<Rightarrow> route_info \<Rightarrow> route_info" where
  "route_copy_attr dst src = dst\<lparr>r_mtu := r_mtu src, prefsrc := prefsrc src\<rparr>"

definition create_route_info :: "bool \<Rightarrow> if_info list \<Rightarrow> route_info \<Rightarrow> route_info option" where
  "create_route_info calloc_ok ifs info =
     (if \<not> calloc_ok then None
      else let ifi = (case r_if info of
                        Some i \<Rightarrow> Some i
                      | None \<Rightarrow> if r_if_name info \<noteq> [] then search_if_by_name ifs (r_if_name info) else None);
               ifi = (if ifi = None \<and> r_ifindex info \<noteq> 0 then search_if_by_index ifs (r_ifindex info) else ifi)
           in if ifi = None then None else Some (info\<lparr>r_if := ifi\<rparr>))"

fun update_same :: "route_info list \<Rightarrow> route_info \<Rightarrow> route_info list option" where
  "update_same [] x = None"
| "update_same (it # rs) x =
     (if route_same it x then Some (route_copy_attr it x # rs)
      else map_option (Cons it) (update_same rs x))"

definition route4_add_cb ::
    "bool \<Rightarrow> bool \<Rightarrow> if_info list \<Rightarrow> route_info list option \<Rightarrow> route_info \<Rightarrow> int \<times> route_info list option" where
  "route4_add_cb head_ok calloc_ok ifs e x =
     (if e = None \<and> \<not> head_ok then (- 1, None)
      else let rs = (case e of None \<Rightarrow> [] | Some rs \<Rightarrow> rs) in
           case update_same rs x of
             Some rs' \<Rightarrow> (0, Some rs')
           | None \<Rightarrow>
               (case create_route_info calloc_ok ifs x of
                  None \<Rightarrow> (- 1, e)
                | Some r \<Rightarrow> (0, Some (r # rs))))"

fun remove_same :: "route_info list \<Rightarrow> route_info \<Rightarrow> route_info list" where
  "remove_same [] x = []"
| "remove_same (it # rs) x = (if route_same it x then rs else it # remove_same rs x)"

definition route4_delete_cb :: "route_info list option \<Rightarrow> route_info \<Rightarrow> int \<times> route_info list option" where
  "route4_delete_cb e x =
     (case e of
        None \<Rightarrow> (0, None)
      | Some rs \<Rightarrow> let rs' = remove_same rs x in (0, if rs' = [] then None else Some rs'))"

fun select_route :: "route_info list \<Rightarrow> (route_info \<Rightarrow> bool) \<Rightarrow> u32 \<Rightarrow> route_info option \<Rightarrow> route_info option"
  where
  "select_route [] ok min_metric selected = selected"
| "select_route (r # rs) ok min_metric selected =
     (if \<not> ok r then select_route rs ok min_metric selected
      else if metric r < min_metric then select_route rs ok (metric r) (Some r)
      else select_route rs ok min_metric selected)"

definition route4_search_cb :: "route_info list \<Rightarrow> route_info option" where
  "route4_search_cb rs = select_route rs (\<lambda>_. True) 0xFFFFFFFF None"

definition route6_search_cb_impl :: "route_key \<Rightarrow> route_info list \<Rightarrow> route_info option" where
  "route6_search_cb_impl key rs =
     select_route rs (\<lambda>r. \<not> (rk_ifindex key \<noteq> 0 \<and> r_ifindex r \<noteq> rk_ifindex key)) 0xFFFFFFFF None"

fun replace_entry :: "ndp_info list \<Rightarrow> ndp_info \<Rightarrow> ndp_info list option" where
  "replace_entry [] x = None"
| "replace_entry (e # es) x =
     (if n_ifindex e = n_ifindex x then Some (x # es) else map_option (Cons e) (replace_entry es x))"

definition arp_add_cb :: "bool \<Rightarrow> bool \<Rightarrow> ndp_info list option \<Rightarrow> ndp_info \<Rightarrow> int \<times> ndp_info list option" where
  "arp_add_cb head_ok calloc_ok e x =
     (if e = None \<and> \<not> head_ok then (- 1, None)
      else let es = (case e of None \<Rightarrow> [] | Some es \<Rightarrow> es) in
           case replace_entry es x of
             Some es' \<Rightarrow> (0, Some es')
           | None \<Rightarrow> if \<not> calloc_ok then (- 1, e) else (0, Some (x # es)))"

definition arp_delete_cb :: "ndp_info list option \<Rightarrow> ndp_info option \<Rightarrow> int \<times> ndp_info list option" where
  "arp_delete_cb e x =
     (case e of
        None \<Rightarrow> (0, None)
      | Some es \<Rightarrow>
          let es' = filter (\<lambda>n. \<not> (x = None \<or> n_ifindex n = n_ifindex (the x))) es
          in (0, if es' = [] then None else Some es'))"

fun arp_search_cb :: "ndp_key \<Rightarrow> ndp_info list \<Rightarrow> ndp_info option" where
  "arp_search_cb key [] = None"
| "arp_search_cb key (e # es) =
     (if nk_ifindex key = 0 \<or> n_ifindex e = nk_ifindex key then Some e else arp_search_cb key es)"

definition ndp_add_entry :: "bool \<Rightarrow> bool \<Rightarrow> nat \<Rightarrow> tables \<Rightarrow> ndp_info \<Rightarrow> int \<times> tables" where
  "ndp_add_entry head_ok calloc_ok budget T x =
     (if n_family x = AF_INET6 then
        (case add_trie_element (arp_add_cb head_ok calloc_ok) (ndp_table T) (Net6 (Some (n_ip x))) 128 x budget of
           (r, t, _) \<Rightarrow> (r, T\<lparr>ndp_table := t\<rparr>))
      else
        (case add_trie_element (arp_add_cb head_ok calloc_ok) (arp_table T) (Net4 (load32 (n_ip x))) 32 x budget of
           (r, t, _) \<Rightarrow> (r, T\<lparr>arp_table := t\<rparr>)))"

definition ndp_delete_entry :: "tables \<Rightarrow> ndp_info \<Rightarrow> int \<times> tables" where
  "ndp_delete_entry T x =
     (if n_family x = AF_INET6 then
        (case delete_trie_element arp_delete_cb (ndp_table T) (Net6 (Some (n_ip x))) 128 (Some x) of
           (r, t) \<Rightarrow> (r, T\<lparr>ndp_table := t\<rparr>))
      else
        (case delete_trie_element arp_delete_cb (arp_table T) (Net4 (load32 (n_ip x))) 32 (Some x) of
           (r, t) \<Rightarrow> (r, T\<lparr>arp_table := t\<rparr>)))"

definition route_add_entry :: "bool \<Rightarrow> bool \<Rightarrow> nat \<Rightarrow> if_info list \<Rightarrow> tables \<Rightarrow> route_info \<Rightarrow> int \<times> tables" where
  "route_add_entry head_ok calloc_ok budget ifs T x =
     (if ip_family x = AF_INET6 then
        (case add_trie_element (route4_add_cb head_ok calloc_ok ifs) (ipv6_route_table T)
                (Net6 (Some (dst_ip x))) (dst_mask x) x budget of
           (r, t, _) \<Rightarrow> (r, T\<lparr>ipv6_route_table := t\<rparr>))
      else
        (case add_trie_element (route4_add_cb head_ok calloc_ok ifs) (ipv4_route_table T)
                (Net4 (load32 (dst_ip x))) (dst_mask x) x budget of
           (r, t, _) \<Rightarrow> (r, T\<lparr>ipv4_route_table := t\<rparr>)))"

definition route_delete_entry :: "tables \<Rightarrow> route_info \<Rightarrow> int \<times> tables" where
  "route_delete_entry T x =
     (if ip_family x = AF_INET6 then
        (case delete_trie_element route4_delete_cb (ipv6_route_table T)
                (Net6 (Some (dst_ip x))) (dst_mask x) x of
           (r, t) \<Rightarrow> (r, T\<lparr>ipv6_route_table := t\<rparr>))
      else
        (case delete_trie_element route4_delete_cb (ipv4_route_table T)
                (Net4 (load32 (dst_ip x))) (dst_mask x) x of
           (r, t) \<Rightarrow> (r, T\<lparr>ipv4_route_table := t\<rparr>)))"

definition search_route_table :: "tables \<Rightarrow> route_key \<Rightarrow> route_info option" where
  "search_route_table T key =
     (if rk_family key = AF_INET6
      then search_trie_element (route6_search_cb_impl key) (ipv6_route_table T) (Net6 (Some (dip key))) 128 True
      else search_trie_element route4_search_cb (ipv4_route_table T) (Net4 (load32 (dip key))) 32 True)"

definition search_ndp_table :: "tables \<Rightarrow> ndp_key \<Rightarrow> ndp_info option" where
  "search_ndp_table T key =
     (case nk_family key of
        AF_INET6 \<Rightarrow> search_trie_element (arp_search_cb key) (ndp_table T) (Net6 (Some (neigh_ip key))) 128 False
      | AF_INET \<Rightarrow> search_trie_element (arp_search_cb key) (arp_table T) (Net4 (load32 (neigh_ip key))) 32 False
      | AF_UNSPEC \<Rightarrow> None)"

definition route_info_check :: "route_info option \<Rightarrow> bool" where
  "route_info_check r = (case r of None \<Rightarrow> False | Some i \<Rightarrow> r_if i \<noteq> None)"

text \<open>\<open>skb->route\<close> and the socket's IPv6 scope go in, the return value and the new \<open>skb->route\<close> come out.\<close>

definition set_skb_route ::
    "tables \<Rightarrow> route_info option \<Rightarrow> u32 option \<Rightarrow> sa_family \<Rightarrow> u8 list \<Rightarrow> int \<times> route_info option" where
  "set_skb_route T skb_route sock_scope family ip =
     (if route_info_check skb_route then (0, skb_route)
      else let key = (if family = AF_INET6
                      then \<lparr>rk_family = family, rk_ifindex = (case sock_scope of None \<Rightarrow> 0 | Some x \<Rightarrow> x),
                            dip = take 16 ip\<rparr>
                      else \<lparr>rk_family = family, rk_ifindex = 0, dip = take 4 ip @ replicate 12 0\<rparr>)
           in case search_route_table T key of
                None \<Rightarrow> (- 1, None)
              | Some r \<Rightarrow> (0, Some r))"

definition get_route_gw :: "route_info \<Rightarrow> u8 list" where
  "get_route_gw x = take (if ip_family x = AF_INET6 then 16 else 4) (gw_ip x)"

definition RTN_LOCAL :: u32 where "RTN_LOCAL = 2"
definition RTN_BROADCAST :: u32 where "RTN_BROADCAST = 3"
definition RTN_MULTICAST :: u32 where "RTN_MULTICAST = 5"

definition route_is_local_host :: "route_info \<Rightarrow> bool" where
  "route_is_local_host x \<longleftrightarrow> rtype x = RTN_LOCAL"

definition route_is_multicast :: "route_info \<Rightarrow> bool" where
  "route_is_multicast x \<longleftrightarrow> rtype x = RTN_MULTICAST"

definition route_is_broadcast :: "route_info \<Rightarrow> bool" where
  "route_is_broadcast x \<longleftrightarrow> rtype x = RTN_BROADCAST"

definition route_include_nexthop :: "route_info option \<Rightarrow> u8 list option \<Rightarrow> bool" where
  "route_include_nexthop info nexthop =
     (case (info, nexthop) of
        (Some x, Some nh) \<Rightarrow>
          if dst_mask x = 0 then True
          else if ip_family x = AF_INET then
            (if dst_mask x > 32 then False
             else let m = NOT (push_bit (32 - dst_mask x) 1 - 1) :: u32
                  in htonl (load32 (dst_ip x)) AND m = htonl (load32 nh) AND m)
          else if ip_family x \<noteq> AF_INET6 \<or> dst_mask x > 128 then False
          else let full_bytes = dst_mask x div 8; rem_bits = dst_mask x mod 8 in
               if \<not> same_bytes full_bytes (dst_ip x) nh then False
               else if rem_bits = 0 then True
               else let mask8 = push_bit (8 - rem_bits) 0xFF :: u8
                    in dst_ip x ! full_bytes AND mask8 = nh ! full_bytes AND mask8
      | _ \<Rightarrow> False)"

definition get_route_mtu :: "route_info \<Rightarrow> u32" where
  "get_route_mtu x = (if r_mtu x \<noteq> 0 then r_mtu x else case r_if x of None \<Rightarrow> 0 | Some i \<Rightarrow> mtu i)"

definition search_best_saddr_by_daddr :: "tables \<Rightarrow> route_key \<Rightarrow> (bool \<times> u8 list) option" where
  "search_best_saddr_by_daddr T key =
     (case search_route_table T key of
        None \<Rightarrow> None
      | Some x \<Rightarrow>
          let addr_len = (if rk_family key = AF_INET6 then 16 else 4) in
          if \<not> same_bytes addr_len (prefsrc x) (replicate 16 0)
          then Some (True, take addr_len (prefsrc x) @ replicate (16 - addr_len) 0)
          else case r_if x of
                 None \<Rightarrow> None
               | Some i \<Rightarrow> Some (if_search_best_saddr_by_daddr i (rk_family key) (dip key)))"

section \<open>Neighbour resolution and probes\<close>

definition ARP_PING_COOLDOWN_MS :: u64 where "ARP_PING_COOLDOWN_MS = 1000"
definition ARP_PING_CACHE_SIZE :: nat where "ARP_PING_CACHE_SIZE = 16"

record 'ip ping_entry =
  pe_ip :: 'ip
  pe_ifindex :: u32
  pe_last_ms :: u64

text \<open>
  One definition for \<open>arp_ping_allowed\<close> and \<open>ndp_ping_allowed\<close>, which differ in the type of
  the address only. The second component is \<open>g_arp_ping_cache_idx\<close>.
\<close>

definition ping_match :: "'ip \<Rightarrow> u32 \<Rightarrow> 'ip ping_entry \<Rightarrow> bool" where
  "ping_match ip ix e \<longleftrightarrow> pe_ip e = ip \<and> pe_ifindex e = ix"

definition ping_allowed ::
    "'ip ping_entry list \<times> u32 \<Rightarrow> 'ip \<Rightarrow> u32 \<Rightarrow> u64 \<Rightarrow> bool \<times> 'ip ping_entry list \<times> u32" where
  "ping_allowed c ip ix now =
     (case c of (cache, idx) \<Rightarrow>
        let i = length (takeWhile (\<lambda>e. \<not> ping_match ip ix e) cache) in
        if i < length cache then
          (if now - pe_last_ms (cache ! i) < ARP_PING_COOLDOWN_MS then (False, cache, idx)
           else (True, cache[i := (cache ! i)\<lparr>pe_last_ms := now\<rparr>], idx))
        else
          (True, cache[unat idx mod ARP_PING_CACHE_SIZE := \<lparr>pe_ip = ip, pe_ifindex = ix, pe_last_ms = now\<rparr>],
           idx + 1))"

definition NUD_REACHABLE :: u8 where "NUD_REACHABLE = 0x02"
definition NUD_STALE :: u8 where "NUD_STALE = 0x04"
definition NUD_DELAY :: u8 where "NUD_DELAY = 0x08"
definition NUD_PROBE :: u8 where "NUD_PROBE = 0x10"
definition NUD_FAILED :: u8 where "NUD_FAILED = 0x20"
definition NUD_NOARP :: u8 where "NUD_NOARP = 0x40"
definition NUD_PERMANENT :: u8 where "NUD_PERMANENT = 0x80"

definition ndp_entry_usable :: "ndp_info option \<Rightarrow> bool" where
  "ndp_entry_usable e =
     (case e of
        None \<Rightarrow> False
      | Some n \<Rightarrow>
          if same_bytes 6 (mac n) (replicate 6 0) then False
          else nud_state n AND (NUD_REACHABLE OR NUD_STALE OR NUD_DELAY OR NUD_PROBE OR
                                NUD_PERMANENT OR NUD_NOARP) \<noteq> 0)"

datatype neigh_result = EHOSTUNREACH | Resolved ndp_info | EINPROGRESS bool

text \<open>\<open>EINPROGRESS probe\<close> tells whether \<open>trigger_neighbor_probe\<close> was called.\<close>

definition resolve_neighbor_entry :: "tables \<Rightarrow> ndp_key \<Rightarrow> neigh_result" where
  "resolve_neighbor_entry T key =
     (let entry = search_ndp_table T key in
      if (case entry of None \<Rightarrow> False | Some n \<Rightarrow> nud_state n AND NUD_FAILED \<noteq> 0) then EHOSTUNREACH
      else if ndp_entry_usable entry then Resolved (the entry)
      else EINPROGRESS (nk_ifindex key \<noteq> 0))"

section \<open>Route events\<close>

text \<open>
  A netlink route message after the kernel's \<open>RTA_OK\<close>/\<open>RTA_NEXT\<close> walk: the attributes are
  their type with their payload; the nested metrics are the attributes inside.
  \<open>indextoname\<close> is \<open>if_indextoname\<close> of the C library and \<open>filtered\<close> is \<open>filter_ifname\<close>.
\<close>

datatype rt_attr =
    RTA_DST "u8 list" | RTA_GATEWAY "u8 list" | RTA_OIF "u8 list" | RTA_PRIORITY "u8 list"
  | RTA_PREFSRC "u8 list" | RTA_METRICS "(nat \<times> u8 list) list" | RTA_other

datatype rt_kind = RTM_NEWROUTE | RTM_DELROUTE | RTM_other

record rt_msg =
  rm_kind :: rt_kind
  rm_long_enough :: bool
  rm_family :: sa_family
  rm_main_or_local :: bool
  rm_type :: u32
  rm_dst_len :: nat
  rm_attrs :: "rt_attr list"

definition RTAX_MTU :: nat where "RTAX_MTU = 2"

definition copy16 :: "u8 list \<Rightarrow> u8 list \<Rightarrow> u8 list" where
  "copy16 dst src = (let n = min (length src) 16 in take n src @ drop n dst)"

fun parse_route_metrics :: "u32 \<Rightarrow> (nat \<times> u8 list) list \<Rightarrow> u32" where
  "parse_route_metrics m [] = m"
| "parse_route_metrics m ((ty, v) # as) =
     parse_route_metrics (if ty = RTAX_MTU \<and> length v \<ge> 4 then load32 v else m) as"

text \<open>The attribute loop; \<^const>\<open>None\<close> is the early \<open>return 0\<close> for a filtered interface.\<close>

fun parse_route_attrs :: "(u32 \<Rightarrow> string) \<Rightarrow> (string \<Rightarrow> bool) \<Rightarrow> rt_attr list \<Rightarrow> route_info \<Rightarrow> route_info option"
  where
  "parse_route_attrs nm filtered [] x = Some x"
| "parse_route_attrs nm filtered (a # as) x =
     (case a of
        RTA_DST v \<Rightarrow> parse_route_attrs nm filtered as (x\<lparr>dst_ip := copy16 (dst_ip x) v\<rparr>)
      | RTA_GATEWAY v \<Rightarrow> parse_route_attrs nm filtered as (x\<lparr>gw_ip := copy16 (gw_ip x) v\<rparr>)
      | RTA_OIF v \<Rightarrow>
          if length v \<ge> 4 then
            (let x = x\<lparr>r_ifindex := load32 v, r_if_name := nm (load32 v)\<rparr> in
             if filtered (r_if_name x) then None else parse_route_attrs nm filtered as x)
          else parse_route_attrs nm filtered as x
      | RTA_PRIORITY v \<Rightarrow>
          parse_route_attrs nm filtered as (if length v \<ge> 4 then x\<lparr>metric := load32 v\<rparr> else x)
      | RTA_PREFSRC v \<Rightarrow> parse_route_attrs nm filtered as (x\<lparr>prefsrc := copy16 (prefsrc x) v\<rparr>)
      | RTA_METRICS ms \<Rightarrow> parse_route_attrs nm filtered as (x\<lparr>r_mtu := parse_route_metrics (r_mtu x) ms\<rparr>)
      | RTA_other \<Rightarrow> parse_route_attrs nm filtered as x)"

definition blank_route :: "sa_family \<Rightarrow> u32 \<Rightarrow> nat \<Rightarrow> route_info" where
  "blank_route family ty m =
     \<lparr>ip_family = family, rtype = ty, dst_mask = m, dst_ip = replicate 16 0, gw_ip = replicate 16 0,
      r_if_name = [], r_ifindex = 0, metric = 0, r_mtu = 0, prefsrc = replicate 16 0, r_if = None\<rparr>"

definition parse_route_event ::
    "bool \<Rightarrow> bool \<Rightarrow> nat \<Rightarrow> (u32 \<Rightarrow> string) \<Rightarrow> (string \<Rightarrow> bool) \<Rightarrow> if_info list \<Rightarrow> tables \<Rightarrow> rt_msg \<Rightarrow> int \<times> tables"
  where
  "parse_route_event head_ok calloc_ok budget nm filtered ifs T msg =
     (if rm_kind msg = RTM_other then (0, T)
      else if \<not> rm_long_enough msg then (- 1, T)
      else if rm_family msg \<noteq> AF_INET \<and> rm_family msg \<noteq> AF_INET6 then (0, T)
      else if \<not> rm_main_or_local msg then (0, T)
      else case parse_route_attrs nm filtered (rm_attrs msg)
                  (blank_route (rm_family msg) (rm_type msg) (rm_dst_len msg)) of
             None \<Rightarrow> (0, T)
           | Some x \<Rightarrow>
               if rm_kind msg = RTM_NEWROUTE then route_add_entry head_ok calloc_ok budget ifs T x
               else route_delete_entry T x)"

definition route_arp_clear_tables :: "tables \<Rightarrow> tables \<times> route_info list list \<times> ndp_info list list" where
  "route_arp_clear_tables T =
     (let (t4, f4) = trie_clear (ipv4_route_table T);
          (t6, f6) = trie_clear (ipv6_route_table T);
          (a, fa) = trie_clear (arp_table T);
          (n, fn) = trie_clear (ndp_table T)
      in (\<lparr>ipv4_route_table = t4, ipv6_route_table = t6, arp_table = a, ndp_table = n\<rparr>, f4 @ f6, fa @ fn))"

section \<open>Next-hop tests\<close>

definition net_of :: "sa_family \<Rightarrow> u8 list \<Rightarrow> net" where
  "net_of family ip = (if family = AF_INET6 then Net6 (Some ip) else Net4 (load32 ip))"

definition addr_bits :: "sa_family \<Rightarrow> nat" where
  "addr_bits family = (if family = AF_INET6 then 128 else 32)"

lemma route_include_bits:
  assumes f: "ip_family r = AF_INET \<or> ip_family r = AF_INET6" and m: "dst_mask r \<le> addr_bits (ip_family r)"
    and l: "length (dst_ip r) = 16" "length nh = 16"
  shows "route_include_nexthop (Some r) (Some nh) \<longleftrightarrow>
    net_bits (net_of (ip_family r) (dst_ip r)) (dst_mask r) = net_bits (net_of (ip_family r) nh) (dst_mask r)"
proof (cases "ip_family r = AF_INET")
  case True
  have "m \<le> 32 \<Longrightarrow> (htonl x AND push_bit (32 - m) (NOT 0) = htonl y AND push_bit (32 - m) (NOT 0)) \<longleftrightarrow>
      net_bits (Net4 x) m = net_bits (Net4 y) m" for m x y
    using and_high_mask_eq_iff [OF refl, of "htonl x" "32 - m" "htonl y"]
      high_bits_iff [of m 32 "bit (htonl x)" "bit (htonl y)"] by (simp add: net_bits_eq_iff)
  then show ?thesis using True m
    by (simp add: route_include_nexthop_def net_of_def addr_bits_def Let_def net_bits_def
        flip: mask_eq_exp_minus_1)
next
  case False
  then show ?thesis
    using f m bytes_mask_bits [OF l, of "dst_mask r"]
    by (auto simp: route_include_nexthop_def net_of_def addr_bits_def Let_def same_bytes_def)
qed

section \<open>Selection within one prefix\<close>

lemma select_route_best:
  "(\<exists>r \<in> set rs. ok r \<and> metric r < mm) \<Longrightarrow>
   \<exists>r. select_route rs ok mm sel = Some r \<and> r \<in> set rs \<and> ok r \<and> metric r < mm \<and>
       (\<forall>r' \<in> set rs. ok r' \<longrightarrow> metric r \<le> metric r')"
  and select_route_none:
  "\<not> (\<exists>r \<in> set rs. ok r \<and> metric r < mm) \<Longrightarrow> select_route rs ok mm sel = sel"
proof (induction rs arbitrary: mm sel)
  case (Cons a rs)
  {
    case 1
    show ?case
    proof (cases "ok a \<and> metric a < mm")
      case True
      show ?thesis
      proof (cases "\<exists>r \<in> set rs. ok r \<and> metric r < metric a")
        case b: True
        then show ?thesis using Cons(1) [of "metric a" "Some a"] True by fastforce
      next
        case b: False
        then show ?thesis using Cons(2) [of "metric a" "Some a"] True by (auto simp: not_less)
      qed
    next
      case False
      then have "\<exists>r \<in> set rs. ok r \<and> metric r < mm" using 1 by auto
      from Cons(1) [OF this, of sel] False show ?thesis by fastforce
    qed
  next
    case 2
    then show ?case using Cons(2) [of mm sel] by auto
  }
qed auto

definition usable_metric :: "route_info \<Rightarrow> bool" where
  "usable_metric r \<longleftrightarrow> metric r \<noteq> 0xFFFFFFFF"

lemma select_route_answer:
  fixes rs :: "route_info list" and ok
  defines "s \<equiv> select_route rs ok 0xFFFFFFFF None"
  shows "s = None \<longleftrightarrow> (\<forall>r \<in> set rs. \<not> (ok r \<and> usable_metric r))"
    and "s = Some r \<Longrightarrow> r \<in> set rs \<and> ok r \<and> usable_metric r \<and> (\<forall>r' \<in> set rs. ok r' \<longrightarrow> metric r \<le> metric r')"
proof -
  have lt: "metric r < 0xFFFFFFFF \<longleftrightarrow> usable_metric r" for r
    using unat_u32_lt [of "metric r"]
    by (auto simp: usable_metric_def word_less_nat_alt word_eq_iff_unat)
  show "s = None \<longleftrightarrow> (\<forall>r \<in> set rs. \<not> (ok r \<and> usable_metric r))"
    using select_route_best [of rs ok "0xFFFFFFFF" None] select_route_none [of rs ok "0xFFFFFFFF" None]
    unfolding s_def lt by fastforce
  show "r \<in> set rs \<and> ok r \<and> usable_metric r \<and> (\<forall>r' \<in> set rs. ok r' \<longrightarrow> metric r \<le> metric r')"
    if "s = Some r"
    using that select_route_best [of rs ok "0xFFFFFFFF" None] select_route_none [of rs ok "0xFFFFFFFF" None]
    unfolding s_def lt by fastforce
qed

section \<open>The routing tables\<close>

definition routes_ok :: "sa_family \<Rightarrow> route_info list trie \<Rightarrow> bool" where
  "routes_ok family t \<longleftrightarrow>
     trie_wf t \<and> type t = (if family = AF_INET6 then TRIE_IPV6 else TRIE_IPV4) \<and>
     (\<forall>p rs. elems t p = Some rs \<longrightarrow>
        (\<forall>r \<in> set rs. ip_family r = family \<and> length (dst_ip r) = 16 \<and>
           dst_mask r \<le> addr_bits family \<and> net_bits (net_of family (dst_ip r)) (dst_mask r) = p))"

definition table_routes :: "route_info list trie \<Rightarrow> route_info set" where
  "table_routes t = {r. \<exists>p rs. elems t p = Some rs \<and> r \<in> set rs}"

definition tables_ok :: "tables \<Rightarrow> bool" where
  "tables_ok T \<longleftrightarrow> routes_ok AF_INET (ipv4_route_table T) \<and> routes_ok AF_INET6 (ipv6_route_table T)"

definition route_ok :: "route_info \<Rightarrow> bool" where
  "route_ok x \<longleftrightarrow> (ip_family x = AF_INET \<or> ip_family x = AF_INET6) \<and>
     length (dst_ip x) = 16 \<and> dst_mask x \<le> addr_bits (ip_family x)"

lemma net_of_ok:
  "routes_ok family t \<Longrightarrow> length ip = 16 \<Longrightarrow> net_ok t (net_of family ip)"
  by (auto simp: routes_ok_def net_ok_def net_of_def)

lemma routes_depth: "routes_ok family t \<Longrightarrow> trie_max_depth (type t) = addr_bits family"
  by (simp add: routes_ok_def trie_max_depth_def addr_bits_def)

text \<open>
  The best route of a table for a destination: among all routes that include it and pass
  \<open>ok\<close>, longest mask first, then least metric; routes with the metric \<open>0xFFFFFFFF\<close> are invisible.
\<close>

definition best_route :: "sa_family \<Rightarrow> route_info set \<Rightarrow> (route_info \<Rightarrow> bool) \<Rightarrow> u8 list \<Rightarrow> route_info option \<Rightarrow> bool"
  where
  "best_route family R ok nh res \<longleftrightarrow>
     (let C = {r \<in> R. route_include_nexthop (Some r) (Some nh) \<and> ok r \<and> usable_metric r} in
      case res of
        None \<Rightarrow> C = {}
      | Some r \<Rightarrow> r \<in> C \<and> (\<forall>r' \<in> C. dst_mask r' < dst_mask r \<or>
                                 dst_mask r' = dst_mask r \<and> metric r \<le> metric r'))"

lemma table_routes_include:
  assumes ok: "routes_ok family t" and f: "family = AF_INET \<or> family = AF_INET6"
    and nh: "length nh = 16" and r: "elems t p = Some rs" "r \<in> set rs"
  shows "route_include_nexthop (Some r) (Some nh) \<longleftrightarrow> prefix p (net_bits (net_of family nh) (addr_bits family))"
proof -
  have x: "ip_family r = family" "length (dst_ip r) = 16" "dst_mask r \<le> addr_bits family"
    "net_bits (net_of family (dst_ip r)) (dst_mask r) = p"
    using ok r unfolding routes_ok_def by blast+
  have "route_include_nexthop (Some r) (Some nh) \<longleftrightarrow> p = net_bits (net_of family nh) (dst_mask r)"
    using route_include_bits [of r nh] x f nh by metis
  also have "net_bits (net_of family nh) (dst_mask r) = take (length p) (net_bits (net_of family nh) (addr_bits family))"
    using x(3,4) by (auto simp: net_bits_def take_map)
  finally show ?thesis by (metis append_take_drop_id prefixI prefix_def append_eq_conv_conj)
qed

lemma routes_mask: "routes_ok family t \<Longrightarrow> elems t p = Some rs \<Longrightarrow> r \<in> set rs \<Longrightarrow> dst_mask r = length p"
  unfolding routes_ok_def by (metis length_map length_upt net_bits_def diff_zero)

lemma trie_search_best_route:
  assumes R: "routes_ok family t" and f: "family = AF_INET \<or> family = AF_INET6" and nh: "length nh = 16"
  shows "best_route family (table_routes t) ok nh
     (search_trie_element (\<lambda>rs. select_route rs ok 0xFFFFFFFF None) t (net_of family nh) (addr_bits family) True)"
proof -
  let ?cb = "\<lambda>rs. select_route rs ok 0xFFFFFFFF None" and ?k = "net_of family nh"
  let ?bits = "net_bits ?k (addr_bits family)"
  let ?s = "search_trie_element ?cb t ?k (addr_bits family) True"
  note inc = table_routes_include [OF R f nh]
  have wf: "trie_wf t" and key: "trie_key_ok t ?k (addr_bits family)"
    using R net_of_ok [OF R nh] routes_depth [OF R] by (auto simp: routes_ok_def trie_key_ok_def)
  show ?thesis
  proof (cases ?s)
    case None
    have "\<not> (ok r \<and> usable_metric r)"
      if "elems t p = Some rs" "r \<in> set rs" "route_include_nexthop (Some r) (Some nh)" for p rs r
    proof -
      have "prefix p ?bits" using inc that by blast
      then have "?cb rs = None" using trie_tab.search_not_found [OF wf key, of ?cb] None that(1) by blast
      then show ?thesis using that(2) select_route_answer(1) [of rs ok] by blast
    qed
    then show ?thesis unfolding None best_route_def table_routes_def by auto
  next
    case (Some r)
    obtain q e where q: "prefix q ?bits" "elems t q = Some e" "?cb e = Some r"
      "\<And>q' e'. prefix q' ?bits \<Longrightarrow> length q < length q' \<Longrightarrow> elems t q' = Some e' \<Longrightarrow> ?cb e' = None"
      using trie_tab.search_found [OF wf key, of ?cb r] Some by blast
    have r: "r \<in> set e" "ok r" "usable_metric r" "\<And>r'. r' \<in> set e \<Longrightarrow> ok r' \<Longrightarrow> metric r \<le> metric r'"
      using select_route_answer(2) [OF q(3)] by auto
    have "dst_mask r' < dst_mask r \<or> dst_mask r' = dst_mask r \<and> metric r \<le> metric r'"
      if "elems t p = Some rs" "r' \<in> set rs" "route_include_nexthop (Some r') (Some nh)" "ok r'" "usable_metric r'"
      for p rs r'
    proof -
      have p: "prefix p ?bits" using inc that by blast
      have m: "dst_mask r' = length p" "dst_mask r = length q"
        using routes_mask [OF R] that(1,2) q(2) r(1) by auto
      have "\<not> length q < length p"
        using q(4) [OF p _ that(1)] select_route_answer(1) [of rs ok] that(2,4,5) by blast
      moreover have "length p = length q \<Longrightarrow> p = q" using p q(1) by (metis append_eq_conv_conj prefix_def)
      ultimately show ?thesis using m r(4) that q(2) by (cases "length p = length q") auto
    qed
    moreover have "route_include_nexthop (Some r) (Some nh)" using inc [OF q(2) r(1)] q(1) by simp
    ultimately show ?thesis using r q(2) unfolding Some best_route_def table_routes_def by auto
  qed
qed

lemma search_route_best:
  assumes "tables_ok T" and "length (dip key) = 16" and "rk_family key = AF_INET \<or> rk_family key = AF_INET6"
  shows "best_route (rk_family key)
     (table_routes (if rk_family key = AF_INET6 then ipv6_route_table T else ipv4_route_table T))
     (\<lambda>r. \<not> (rk_family key = AF_INET6 \<and> rk_ifindex key \<noteq> 0 \<and> r_ifindex r \<noteq> rk_ifindex key))
     (dip key) (search_route_table T key)"
proof (cases "rk_family key = AF_INET6")
  case True
  then show ?thesis
    using True trie_search_best_route [of AF_INET6 "ipv6_route_table T" "dip key"
        "\<lambda>r. \<not> (rk_ifindex key \<noteq> 0 \<and> r_ifindex r \<noteq> rk_ifindex key)"] assms
    by (simp add: search_route_table_def tables_ok_def net_of_def addr_bits_def
        route6_search_cb_impl_def [abs_def])
next
  case False
  then show ?thesis
    using trie_search_best_route [of AF_INET "ipv4_route_table T" "dip key" "\<lambda>_. True"] assms
    by (simp add: search_route_table_def tables_ok_def net_of_def addr_bits_def
        route4_search_cb_def [abs_def])
qed

section \<open>Updates keep the tables well-formed\<close>

definition entry_ok :: "sa_family \<Rightarrow> bool list \<Rightarrow> route_info \<Rightarrow> bool" where
  "entry_ok family p r \<longleftrightarrow> ip_family r = family \<and> length (dst_ip r) = 16 \<and>
     dst_mask r \<le> addr_bits family \<and> net_bits (net_of family (dst_ip r)) (dst_mask r) = p"

lemma entry_ok_copy [simp]: "entry_ok family p (route_copy_attr r x) = entry_ok family p r"
  by (simp add: entry_ok_def route_copy_attr_def)

lemma update_same_ok:
  "update_same rs x = Some rs' \<Longrightarrow> \<forall>r \<in> set rs. entry_ok family p r \<Longrightarrow> \<forall>r \<in> set rs'. entry_ok family p r"
  by (induction rs arbitrary: rs') (auto split: if_splits)

lemma remove_same_subset: "set (remove_same rs x) \<subseteq> set rs"
  by (induction rs) auto

lemma create_route_ok: "create_route_info c ifs x = Some r \<Longrightarrow> entry_ok family p r = entry_ok family p x"
  by (auto simp: create_route_info_def entry_ok_def Let_def split: if_splits)

lemma add_cb_ok:
  assumes "\<forall>rs. e = Some rs \<longrightarrow> (\<forall>r \<in> set rs. entry_ok family p r)" "entry_ok family p x"
    and "snd (route4_add_cb hd_ok c ifs e x) = Some rs"
  shows "\<forall>r \<in> set rs. entry_ok family p r"
  using assms
  by (cases e) (auto simp: route4_add_cb_def Let_def create_route_ok dest: update_same_ok split: if_splits option.splits)

lemma delete_cb_ok:
  assumes "\<forall>rs. e = Some rs \<longrightarrow> (\<forall>r \<in> set rs. entry_ok family p r)"
    and "snd (route4_delete_cb e x) = Some rs"
  shows "\<forall>r \<in> set rs. entry_ok family p r"
  using assms remove_same_subset
  by (cases e) (fastforce simp: route4_delete_cb_def Let_def split: if_splits)+

lemma routes_ok_alt:
  "routes_ok family t \<longleftrightarrow>
     trie_wf t \<and> type t = (if family = AF_INET6 then TRIE_IPV6 else TRIE_IPV4) \<and>
     (\<forall>p rs. elems t p = Some rs \<longrightarrow> (\<forall>r \<in> set rs. entry_ok family p r))"
  by (auto simp: routes_ok_def entry_ok_def)

lemma route_trie_add:
  assumes R: "routes_ok family t" and x: "route_ok x" "ip_family x = family"
  shows "routes_ok family (fst (snd (add_trie_element (route4_add_cb hd_ok c ifs) t
           (net_of family (dst_ip x)) (dst_mask x) x budget)))"
proof -
  let ?k = "net_of family (dst_ip x)"
  have k: "trie_wf t" "net_ok t ?k" "dst_mask x \<le> trie_max_depth (type t)"
    using R x net_of_ok [OF R, of "dst_ip x"] routes_depth [OF R] by (auto simp: routes_ok_def route_ok_def)
  have e: "entry_ok family (net_bits ?k (dst_mask x)) x" using x by (auto simp: entry_ok_def route_ok_def)
  show ?thesis
  proof (cases rule: add_trie_elems [OF k, of "route4_add_cb hd_ok c ifs" x budget])
    case (1 t' bud')
    then show ?thesis
      using R add_cb_ok [OF _ e, of "elems t (net_bits ?k (dst_mask x))" hd_ok c ifs]
      by (auto simp: routes_ok_alt)
  next
    case (2 t')
    then show ?thesis using R by (auto simp: routes_ok_alt)
  qed
qed

lemma route_trie_delete:
  assumes R: "routes_ok family t" and x: "route_ok x" "ip_family x = family"
  shows "routes_ok family (snd (delete_trie_element route4_delete_cb t
           (net_of family (dst_ip x)) (dst_mask x) x))"
proof -
  let ?k = "net_of family (dst_ip x)"
  have k: "trie_wf t" "net_ok t ?k" "dst_mask x \<le> trie_max_depth (type t)"
    using R x net_of_ok [OF R, of "dst_ip x"] routes_depth [OF R] by (auto simp: routes_ok_def route_ok_def)
  have "snd (route4_delete_cb None i) = None" for i by (simp add: route4_delete_cb_def)
  from delete_trie_elems [of t ?k "dst_mask x" route4_delete_cb x, OF k this] show ?thesis
    using R delete_cb_ok [of "elems t (net_bits ?k (dst_mask x))" family _ x]
    by (auto simp: routes_ok_alt)
qed

lemma tables_ok_add: "tables_ok T \<Longrightarrow> route_ok x \<Longrightarrow> tables_ok (snd (route_add_entry hd_ok c budget ifs T x))"
  using route_trie_add [of AF_INET6 "ipv6_route_table T" x hd_ok c ifs budget]
    route_trie_add [of AF_INET "ipv4_route_table T" x hd_ok c ifs budget]
  by (auto simp: tables_ok_def route_add_entry_def route_ok_def net_of_def split_beta)

lemma tables_ok_delete: "tables_ok T \<Longrightarrow> route_ok x \<Longrightarrow> tables_ok (snd (route_delete_entry T x))"
  using route_trie_delete [of AF_INET6 "ipv6_route_table T" x]
    route_trie_delete [of AF_INET "ipv4_route_table T" x]
  by (auto simp: tables_ok_def route_delete_entry_def route_ok_def net_of_def split_beta)

lemma parse_attrs_ok:
  "parse_route_attrs nm fl as x = Some y \<Longrightarrow> length (dst_ip x) = 16 \<Longrightarrow>
   length (dst_ip y) = 16 \<and> ip_family y = ip_family x \<and> dst_mask y = dst_mask x"
proof (induction as arbitrary: x)
  case (Cons a as)
  then show ?case
    by (cases a) (fastforce simp: copy16_def Let_def split: if_splits)+
qed simp

lemma parse_route_event_ok:
  assumes "tables_ok T" "rm_dst_len msg \<le> addr_bits (rm_family msg)"
  shows "tables_ok (snd (parse_route_event hd_ok c budget nm fl ifs T msg))"
proof -
  let ?b = "blank_route (rm_family msg) (rm_type msg) (rm_dst_len msg)"
  have "route_ok x" if "parse_route_attrs nm fl (rm_attrs msg) ?b = Some x"
    "rm_family msg = AF_INET \<or> rm_family msg = AF_INET6" for x
    using parse_attrs_ok [OF that(1)] that(2) assms(2) by (auto simp: blank_route_def route_ok_def)
  then show ?thesis using assms(1) tables_ok_add tables_ok_delete
    by (auto simp: parse_route_event_def split: option.split)
qed

lemma takeWhile_hit:
  assumes "i < length xs" "P (xs ! i)" "\<And>j. j < i \<Longrightarrow> \<not> P (xs ! j)"
  shows "length (takeWhile (\<lambda>x. \<not> P x) xs) = i"
  using takeWhile_eq_take_P_nth [of i xs "\<lambda>x. \<not> P x"] assms by simp

lemma takeWhile_miss: "j < length (takeWhile (\<lambda>x. \<not> P x) xs) \<Longrightarrow> \<not> P (xs ! j)"
  using nth_mem set_takeWhileD by (metis takeWhile_nth)

lemma ping_allowed_entry:
  assumes "length cache = ARP_PING_CACHE_SIZE" "ping_allowed (cache, idx) ip ix now = (True, cache', idx')"
  shows "\<exists>i < length cache'. length cache' = ARP_PING_CACHE_SIZE \<and>
     length (takeWhile (\<lambda>e. \<not> ping_match ip ix e) cache') = i \<and> pe_last_ms (cache' ! i) = now"
proof -
  let ?P = "ping_match ip ix" and ?i = "length (takeWhile (\<lambda>e. \<not> ping_match ip ix e) cache)"
  show ?thesis
  proof (cases "?i < length cache")
    case True
    have hit: "?P (cache ! ?i)" using True nth_length_takeWhile by blast
    have c: "cache' = cache[?i := (cache ! ?i)\<lparr>pe_last_ms := now\<rparr>]"
      using assms(2) True by (auto simp: ping_allowed_def Let_def split: if_splits)
    have "length (takeWhile (\<lambda>e. \<not> ?P e) cache') = ?i"
      using True hit takeWhile_miss [of _ ?P cache]
      by (intro takeWhile_hit) (auto simp: c ping_match_def)
    then show ?thesis using True c assms(1) by simp
  next
    case False
    let ?k = "unat idx mod ARP_PING_CACHE_SIZE"
    have k: "?k < length cache" using assms(1) by (simp add: ARP_PING_CACHE_SIZE_def)
    have all: "?i = length cache" using False length_takeWhile_le [of _ cache] by (metis le_neq_implies_less)
    have c: "cache' = cache[?k := \<lparr>pe_ip = ip, pe_ifindex = ix, pe_last_ms = now\<rparr>]"
      using assms(2) False by (simp add: ping_allowed_def Let_def)
    have "length (takeWhile (\<lambda>e. \<not> ?P e) cache') = ?k"
      using k takeWhile_miss [of _ ?P cache] all by (intro takeWhile_hit) (auto simp: c ping_match_def)
    then show ?thesis using k c assms(1) by simp
  qed
qed

lemma arp_search_cb_Some:
  "arp_search_cb key es = Some n \<Longrightarrow> n \<in> set es \<and> (nk_ifindex key = 0 \<or> n_ifindex n = nk_ifindex key)"
  by (induction es) (auto split: if_splits)

section \<open>Properties\<close>


definition empty_tables :: tables where
  "empty_tables = \<lparr>ipv4_route_table = \<lparr>type = TRIE_IPV4, root = TNode Null Null None\<rparr>,
     ipv6_route_table = \<lparr>type = TRIE_IPV6, root = TNode Null Null None\<rparr>,
     arp_table = \<lparr>type = TRIE_IPV4, root = TNode Null Null None\<rparr>,
     ndp_table = \<lparr>type = TRIE_IPV6, root = TNode Null Null None\<rparr>\<rparr>"

lemma elem_at_blank [simp]: "elem_at (TNode Null Null None) p = None"
  by (cases p) auto

lemma empty_tables_ok: "tables_ok empty_tables"
  by (simp add: empty_tables_def tables_ok_def routes_ok_def trie_wf_def elems_def)

definition route_example :: route_info where
  "route_example = (blank_route AF_INET 1 2)\<lparr>dst_ip := [192, 0, 0, 0] @ replicate 12 0, r_if := Some if_example\<rparr>"

definition key_example :: route_key where
  "key_example = \<lparr>rk_family = AF_INET, rk_ifindex = 0, dip = [200, 1, 2, 3] @ replicate 12 0\<rparr>"




text \<open>
  Neighbour resolution: \<open>resolve_neighbor_entry\<close> hands out only an entry of the neighbour
  table for the key's interface (any, if the key names none) that has a MAC address and a
  valid, not failed, state; and \<open>arp_ping_allowed\<close>/\<open>ndp_ping_allowed\<close> refuse a second
  probe of the same neighbour until 1000 ms after the last one they allowed.
\<close>

theorem neighbor_resolution:
  "(resolve_neighbor_entry T key = Resolved n \<longrightarrow>
      search_ndp_table T key = Some n \<and> nud_state n AND NUD_FAILED = 0 \<and>
      take 6 (mac n) \<noteq> replicate 6 0 \<and> ndp_entry_usable (Some n)) \<and>
   (arp_search_cb key es = Some n \<longrightarrow>
      n \<in> set es \<and> (nk_ifindex key = 0 \<or> n_ifindex n = nk_ifindex key)) \<and>
   (length cache = ARP_PING_CACHE_SIZE \<longrightarrow>
    ping_allowed (cache, idx) ip ix now = (True, cache', idx') \<longrightarrow>
    now' - now < 1000 \<longrightarrow> \<not> fst (ping_allowed (cache', idx') ip ix now'))"
proof (intro conjI impI)
  show "\<not> fst (ping_allowed (cache', idx') ip ix now')"
    if "length cache = ARP_PING_CACHE_SIZE" "ping_allowed (cache, idx) ip ix now = (True, cache', idx')"
      "now' - now < 1000"
    using ping_allowed_entry [OF that(1,2)] that(3)
    by (auto simp: ping_allowed_def ARP_PING_COOLDOWN_MS_def)
qed (auto simp: resolve_neighbor_entry_def ndp_entry_usable_def same_bytes_def Let_def
    dest: arp_search_cb_Some split: if_splits option.splits)

lemma neighbor_resolution_witness:
  "\<not> fst (ping_allowed (snd (ping_allowed (replicate 16 \<lparr>pe_ip = 0 :: u32, pe_ifindex = 0, pe_last_ms = 0\<rparr>, 5)
       7 2 5000)) 7 2 5999)"
proof -
  let ?c = "replicate 16 \<lparr>pe_ip = 0 :: u32, pe_ifindex = 0, pe_last_ms = 0\<rparr>"
  have "ping_allowed (?c, 5) 7 2 5000 =
     (True, ?c[5 := \<lparr>pe_ip = 7, pe_ifindex = 2, pe_last_ms = 5000\<rparr>], 6)" by code_simp
  moreover from this have "\<not> fst (ping_allowed (?c[5 := \<lparr>pe_ip = 7, pe_ifindex = 2, pe_last_ms = 5000\<rparr>], 6) 7 2 5999)"
    using neighbor_resolution [of empty_tables "\<lparr>nk_family = AF_INET, neigh_ip = [], nk_ifindex = 0\<rparr>" undefined "[]"
        ?c 5 7 2 5000 "?c[5 := \<lparr>pe_ip = 7, pe_ifindex = 2, pe_last_ms = 5000\<rparr>]" 6 5999]
    by (simp add: ARP_PING_CACHE_SIZE_def)
  ultimately show ?thesis by simp
qed

text \<open>
  C36. The IPv4 lookup finds nothing at a prefix exactly when every route stored there has the
  metric \<open>0xFFFFFFFF\<close>, the initial value of \<open>min_metric\<close>: such a route is stored but is never
  selected, not even when it is the only one of its prefix.
\<close>

theorem max_metric_route_invisible:
  "(route4_search_cb rs = None \<longleftrightarrow> (\<forall>r\<in>set rs. metric r = 0xFFFFFFFF)) \<and>
   (\<forall>r. route4_search_cb rs = Some r \<longrightarrow> metric r \<noteq> 0xFFFFFFFF)"
  using select_route_answer(1) [of rs "\<lambda>_. True"] select_route_answer(2) [of rs "\<lambda>_. True"]
  by (auto simp: route4_search_cb_def usable_metric_def)

lemma max_metric_route_invisible_witness:
  "route4_search_cb [(blank_route AF_INET 1 0)\<lparr>metric := 0xFFFFFFFF\<rparr>] = None"
  using max_metric_route_invisible [of "[(blank_route AF_INET 1 0)\<lparr>metric := 0xFFFFFFFF\<rparr>]"] by simp

end
