(* ===== verification/TcpBase.thy ===== *)
theory TcpBase
  imports Prelude
begin

text \<open>
  The TCP control block of \<^verbatim>\<open>src/main/tcp.h\<close>, together with the fields of \<open>Socket\<close> that
  \<^verbatim>\<open>src/main/tcp.c\<close> reads and writes, sequence-number comparison, the timer multiplexer
  (\<open>tcp_update_timer\<close>, \<open>tcp_reset_timer\<close>, \<open>tcp_deadline_due\<close>), window scaling and the
  reactions to a change of the send window.

  Sequence numbers, windows and sizes are 32-bit words. Times are milliseconds as natural
  numbers; \<open>now\<close> is the thread's cached clock \<open>current_time_ms\<close>, which does not change
  within one callback. The eight \<open>_deadline_ms\<close> fields that \<open>tcp_update_timer\<close> receives by
  address are one function \<open>deadline\<close> over the names of the timers
  (\<open>connect_deadline_ms\<close> is never used by the code). A segment keeps the
  sequence number and flags of \<open>skb->l4_private.tcp\<close> and its payload bytes.
  What a call does to the rest of the stack is recorded in \<open>outs\<close>.
\<close>

section \<open>Data\<close>

datatype tcp_state =
    TCP_STATE_CLOSED | TCP_STATE_LISTEN | TCP_STATE_SYN_SENT | TCP_STATE_SYN_RECEIVED
  | TCP_STATE_ESTABLISHED | TCP_STATE_FIN_WAIT_1 | TCP_STATE_FIN_WAIT_2 | TCP_STATE_CLOSE_WAIT
  | TCP_STATE_CLOSING | TCP_STATE_LAST_ACK | TCP_STATE_TIME_WAIT

datatype timer = Keepalive | Retransmit | Persist | Ack | Nagle | Timewait | Finwait2

datatype ca_state = CA_OPEN | CA_RECOVERY | CA_LOSS

record tcp_metrics =
  rtt :: nat
  rttvar :: nat

record tcp_cubic =
  epoch_start_ms :: nat
  last_max_cwnd :: nat
  origin_point :: nat
  k_ms :: nat
  ack_cnt :: nat
  tcp_cwnd :: nat
  cnt :: nat
  cwnd_cnt :: nat
  acked_bytes :: nat

record seg =
  s_seq :: u32
  s_flag :: u8
  s_data :: "u8 list"

datatype notify_event =
    notify_data_read | notify_data_write | notify_err | notify_recv_fin | notify_new_connection

text \<open>
  Effects outside the control block: a segment handed to the IP layer, a control segment of
  \<open>tcp_send_flag\<close> with its sequence number, acknowledgement and flags, an event for
  the user, the move of an established child from its parent's \<open>syn_list\<close> to the \<open>accept_list\<close>,
  completion of a lingering close, and the end of the socket.
\<close>

datatype out =
    Xmit seg u32
  | SendFlag u32 u32 u8
  | Notify notify_event
  | ToAccept
  | CompleteLinger
  | Destroyed

record sock =
  has_fd :: bool
  opt_keepalive :: bool
  is_connected :: bool
  is_bound :: bool
  close_send :: bool
  close_recv :: bool
  sock_error :: int
  send_queue :: "seg list"
  recv_queue :: "u8 list list"
  send_buffer_len :: u32
  send_buffer_len_max :: u32
  recv_buffer_len :: u32
  recv_buffer_len_max :: u32

record tcp_pcb =
  state :: tcp_state
  sk :: sock
  metrics :: "tcp_metrics option"
  deadline :: "timer \<Rightarrow> nat"
  tk_registered :: bool
  tk_timeout :: nat
  retransmit_timeout :: nat
  keepalive_timeout :: nat
  keepalive_retry_timeout :: nat
  keepalive_repeat_count :: nat
  keepalive_repeat_max :: nat
  persist_backoff :: nat
  retries_out :: nat
  retries_max :: nat
  timewait_timeout :: nat
  finwait2_timeout :: nat
  ack_timeout :: nat
  ack_pending_segments :: nat
  connect_timeout :: nat
  connect_retry_times :: nat
  nagle_interval :: nat
  rtt_meas_time :: nat
  rtt_meas_seq :: u32
  has_parent :: bool
  retransmit_queue :: "seg list"
  unordered_skb_list :: "seg list"
  rcv_nxt :: u32
  rcv_wnd :: u32
  rcv_mss :: u32
  last_ack :: u32
  last_ack_repeat :: nat
  snd_wnd :: u32
  snd_una :: u32
  snd_nxt :: u32
  snd_end :: u32
  snd_cwnd :: u32
  snd_ssthresh :: u32
  snd_wl1 :: u32
  snd_wl2 :: u32
  peer_mss :: u32
  snd_mss :: u32
  snd_wnd_scale :: nat
  rcv_wnd_scale :: nat
  ts_recent :: u32
  ts_last_tsecr :: u32
  recv_fin :: bool
  peer_ts_ok :: bool
  peer_mss_ok :: bool
  wnd_scale_sent :: bool
  peer_wnd_scale_ok :: bool
  cork :: bool
  ca_recovery_seq :: u32
  ca_prior_cwnd :: u32
  pcb_ca_state :: ca_state
  cubic :: tcp_cubic
  now :: nat
  outs :: "out list"
  xmit_rets :: "int list"

text \<open>
  \<open>xmit_rets\<close> are the return values of the coming calls to \<open>ipv4_output\<close>/\<open>ipv6_output\<close>
  and of the allocations around them; an exhausted list stands for success.
\<close>

text \<open>Objects as \<open>calloc\<close> hands them out.\<close>

definition cubic_zero :: tcp_cubic where
  "cubic_zero = \<lparr>epoch_start_ms = 0, last_max_cwnd = 0, origin_point = 0, k_ms = 0, ack_cnt = 0,
                 tcp_cwnd = 0, cnt = 0, cwnd_cnt = 0, acked_bytes = 0\<rparr>"

definition sock_blank :: sock where
  "sock_blank =
     \<lparr>has_fd = False, opt_keepalive = False, is_connected = False, is_bound = False,
      close_send = False, close_recv = False, sock_error = 0, send_queue = [], recv_queue = [],
      send_buffer_len = 0, send_buffer_len_max = 0, recv_buffer_len = 0,
      recv_buffer_len_max = 0\<rparr>"

definition pcb_blank :: tcp_pcb where
  "pcb_blank =
     \<lparr>state = TCP_STATE_CLOSED, sk = sock_blank, metrics = None, deadline = \<lambda>_. 0,
      tk_registered = False, tk_timeout = 0, retransmit_timeout = 0, keepalive_timeout = 0,
      keepalive_retry_timeout = 0, keepalive_repeat_count = 0, keepalive_repeat_max = 0,
      persist_backoff = 0, retries_out = 0, retries_max = 0, timewait_timeout = 0,
      finwait2_timeout = 0, ack_timeout = 0, ack_pending_segments = 0, connect_timeout = 0,
      connect_retry_times = 0, nagle_interval = 0, rtt_meas_time = 0, rtt_meas_seq = 0,
      has_parent = False, retransmit_queue = [], unordered_skb_list = [], rcv_nxt = 0, rcv_wnd = 0,
      rcv_mss = 0, last_ack = 0, last_ack_repeat = 0, snd_wnd = 0, snd_una = 0, snd_nxt = 0,
      snd_end = 0, snd_cwnd = 0, snd_ssthresh = 0, snd_wl1 = 0, snd_wl2 = 0, peer_mss = 0,
      snd_mss = 0, snd_wnd_scale = 0, rcv_wnd_scale = 0, ts_recent = 0, ts_last_tsecr = 0,
      recv_fin = False, peer_ts_ok = False, peer_mss_ok = False, wnd_scale_sent = False,
      peer_wnd_scale_ok = False, cork = False, ca_recovery_seq = 0, ca_prior_cwnd = 0,
      pcb_ca_state = CA_OPEN, cubic = cubic_zero, now = 0, outs = [], xmit_rets = []\<rparr>"

definition TCP_FLAG_FIN :: u8 where "TCP_FLAG_FIN = 0x01"
definition TCP_FLAG_SYN :: u8 where "TCP_FLAG_SYN = 0x02"
definition TCP_FLAG_RST :: u8 where "TCP_FLAG_RST = 0x04"
definition TCP_FLAG_PSH :: u8 where "TCP_FLAG_PSH = 0x08"
definition TCP_FLAG_ACK :: u8 where "TCP_FLAG_ACK = 0x10"

definition has :: "u8 \<Rightarrow> u8 \<Rightarrow> bool" where
  "has flags f \<longleftrightarrow> flags AND f \<noteq> 0"

definition TCP_PERSIST_BACKOFF_MS_DEFAULT :: nat where "TCP_PERSIST_BACKOFF_MS_DEFAULT = 2000"
definition TCP_PERSIST_BACKOFF_MS_MAX :: nat where "TCP_PERSIST_BACKOFF_MS_MAX = 60000"

section \<open>Sequence numbers\<close>

definition SEQ_LT :: "u32 \<Rightarrow> u32 \<Rightarrow> bool" where "SEQ_LT a b \<longleftrightarrow> sint (a - b) < 0"
definition SEQ_LEQ :: "u32 \<Rightarrow> u32 \<Rightarrow> bool" where "SEQ_LEQ a b \<longleftrightarrow> sint (a - b) \<le> 0"
definition SEQ_GT :: "u32 \<Rightarrow> u32 \<Rightarrow> bool" where "SEQ_GT a b \<longleftrightarrow> sint (a - b) > 0"
definition SEQ_GEQ :: "u32 \<Rightarrow> u32 \<Rightarrow> bool" where "SEQ_GEQ a b \<longleftrightarrow> sint (a - b) \<ge> 0"

definition skb_data_len :: "seg \<Rightarrow> u32" where
  "skb_data_len s = of_nat (length (s_data s))"

definition tcp_skb_seq_len :: "seg \<Rightarrow> u32" where
  "tcp_skb_seq_len s = skb_data_len s + (if has (s_flag s) TCP_FLAG_SYN then 1 else 0)
                                     + (if has (s_flag s) TCP_FLAG_FIN then 1 else 0)"

definition tcp_data_mss :: "tcp_pcb \<Rightarrow> u32" where
  "tcp_data_mss p = snd_mss p - (if peer_ts_ok p then 12 else 0)"

section \<open>Timers\<close>

definition min_deadline :: "nat list \<Rightarrow> nat" where
  "min_deadline ds = fold (\<lambda>d next. if d \<noteq> 0 \<and> (next = 0 \<or> d < next) then d else next) ds 0"

definition timer_order :: "timer list" where
  "timer_order = [Keepalive, Retransmit, Persist, Ack, Nagle, Timewait, Finwait2]"

definition tcp_reset_timer :: "tcp_pcb \<Rightarrow> tcp_pcb" where
  "tcp_reset_timer p =
     (let next = min_deadline (map (deadline p) timer_order) in
      if next \<noteq> 0 then p\<lparr>tk_timeout := next, tk_registered := True\<rparr>
      else p\<lparr>tk_registered := False, tk_timeout := 0\<rparr>)"

definition tcp_update_timer :: "timer \<Rightarrow> nat \<Rightarrow> bool \<Rightarrow> tcp_pcb \<Rightarrow> tcp_pcb" where
  "tcp_update_timer which deadline_ms override p =
     (if deadline p which = deadline_ms then p
      else if deadline p which = 0 \<or> deadline p which > deadline_ms \<or> override then
        (let old_deadline_ms = deadline p which;
             p = p\<lparr>deadline := (deadline p)(which := deadline_ms)\<rparr>
         in if \<not> tk_registered p \<or> old_deadline_ms = tk_timeout p then tcp_reset_timer p
            else if deadline_ms \<noteq> 0 \<and> (tk_timeout p = 0 \<or> deadline_ms < tk_timeout p)
                 then p\<lparr>tk_timeout := deadline_ms, tk_registered := True\<rparr>
            else p)
      else p)"

definition tcp_deadline_due :: "timer \<Rightarrow> tcp_pcb \<Rightarrow> bool \<times> tcp_pcb" where
  "tcp_deadline_due which p =
     (if deadline p which = 0 then (False, p)
      else if now p \<ge> deadline p which
           then (True, tcp_reset_timer (p\<lparr>deadline := (deadline p)(which := 0)\<rparr>))
      else (False, p))"

section \<open>Windows\<close>

definition tcp_window_scale_negotiated :: "tcp_pcb \<Rightarrow> bool" where
  "tcp_window_scale_negotiated p \<longleftrightarrow> wnd_scale_sent p \<and> peer_wnd_scale_ok p"

definition tcp_should_send_window_scale :: "tcp_pcb \<Rightarrow> u8 \<Rightarrow> bool" where
  "tcp_should_send_window_scale p flags =
     (if \<not> has flags TCP_FLAG_SYN then False
      else if \<not> has flags TCP_FLAG_ACK then True
      else peer_wnd_scale_ok p)"

definition tcp_encode_window :: "tcp_pcb \<Rightarrow> u8 \<Rightarrow> u16" where
  "tcp_encode_window p flags =
     (let window = rcv_wnd p;
          window = (if \<not> has flags TCP_FLAG_SYN \<and> tcp_window_scale_negotiated p
                    then drop_bit (rcv_wnd_scale p) window else window)
      in ucast (if window > 65535 then 65535 else window))"

definition tcp_decode_window :: "tcp_pcb \<Rightarrow> u16 \<Rightarrow> u8 \<Rightarrow> u32" where
  "tcp_decode_window p window flags =
     (if has flags TCP_FLAG_SYN \<or> \<not> tcp_window_scale_negotiated p then ucast window
      else push_bit (snd_wnd_scale p) (ucast window))"

definition tcp_arm_persist :: "tcp_pcb \<Rightarrow> tcp_pcb" where
  "tcp_arm_persist p =
     (if snd_wnd p = 0 \<and> deadline p Persist = 0 \<and>
         (retransmit_queue p \<noteq> [] \<or> send_queue (sk p) \<noteq> [])
      then tcp_update_timer Persist (now p + persist_backoff p) False p
      else p)"

definition tcp_send_window_update :: "u32 \<Rightarrow> u32 \<Rightarrow> tcp_pcb \<Rightarrow> tcp_pcb" where
  "tcp_send_window_update old_limit new_limit p =
     (if old_limit = new_limit then p
      else let p = (if retransmit_queue p = [] \<or> new_limit = 0
                    then tcp_update_timer Retransmit 0 True p
                    else if deadline p Retransmit = 0
                    then tcp_update_timer Retransmit (now p + retransmit_timeout p) False p
                    else p);
               was_sendable = (send_queue (sk p) \<noteq> [] \<and> old_limit \<noteq> 0 \<and>
                               SEQ_LT (snd_nxt p) (snd_una p + old_limit));
               is_sendable = (send_queue (sk p) \<noteq> [] \<and> new_limit \<noteq> 0 \<and>
                              SEQ_LT (snd_nxt p) (snd_una p + new_limit))
           in if \<not> is_sendable then tcp_update_timer Nagle 0 False p
              else if \<not> was_sendable \<or> deadline p Nagle = 0
                   then tcp_update_timer Nagle (now p) False p
              else p)"

definition tcp_snd_win_change :: "u32 \<Rightarrow> tcp_pcb \<Rightarrow> tcp_pcb" where
  "tcp_snd_win_change new_wnd p =
     (let old_wnd = snd_wnd p;
          old_limit = min (snd_wnd p) (snd_cwnd p)
      in if old_wnd = new_wnd then p
         else let p = (if new_wnd = 0 then p\<lparr>retries_out := 0\<rparr>
                       else if old_wnd = 0
                       then tcp_update_timer Persist 0 True
                              (p\<lparr>persist_backoff := TCP_PERSIST_BACKOFF_MS_DEFAULT, retries_out := 0\<rparr>)
                       else p);
                  p = p\<lparr>snd_wnd := new_wnd\<rparr>;
                  p = tcp_send_window_update old_limit (min (snd_wnd p) (snd_cwnd p)) p
              in tcp_arm_persist p)"

definition tcp_snd_cwnd_change :: "u32 \<Rightarrow> tcp_pcb \<Rightarrow> tcp_pcb" where
  "tcp_snd_cwnd_change new_cwnd p =
     (if snd_cwnd p = new_cwnd then p
      else let old_limit = min (snd_wnd p) (snd_cwnd p);
               p = p\<lparr>snd_cwnd := new_cwnd\<rparr>
           in tcp_send_window_update old_limit (min (snd_wnd p) (snd_cwnd p)) p)"

definition emit :: "out \<Rightarrow> tcp_pcb \<Rightarrow> tcp_pcb" where
  "emit x p = p\<lparr>outs := outs p @ [x]\<rparr>"

definition set_sk :: "(sock \<Rightarrow> sock) \<Rightarrow> tcp_pcb \<Rightarrow> tcp_pcb" where
  "set_sk f p = p\<lparr>sk := f (sk p)\<rparr>"

text \<open>
  \<open>destroy_tcp_socket\<close>: a socket the user still holds is only reported and kept in state
  CLOSED; an orphan is destroyed.
\<close>

definition destroy_tcp_socket :: "tcp_pcb \<Rightarrow> tcp_pcb" where
  "destroy_tcp_socket p =
     (let p = p\<lparr>state := TCP_STATE_CLOSED\<rparr> in
      if has_fd (sk p) then emit (Notify notify_err) p
      else emit Destroyed (emit CompleteLinger p))"

definition tcp_complete_linger :: "tcp_pcb \<Rightarrow> tcp_pcb" where
  "tcp_complete_linger p = emit CompleteLinger p"

section \<open>Sequence numbers within a window\<close>

lemma sint_neg_iff: "sint (w :: u32) < 0 \<longleftrightarrow> 2 ^ 31 \<le> unat w"
proof -
  have "sint w < 0 \<longleftrightarrow> bit (unat w) 31"
    using bit_last_iff [of w] by (simp add: bit_unsigned_iff)
  also have "\<dots> \<longleftrightarrow> odd (unat w div 2 ^ 31)" by (simp add: bit_iff_odd)
  also have "\<dots> \<longleftrightarrow> 2 ^ 31 \<le> unat w"
  proof
    assume "odd (unat w div 2 ^ 31)"
    then have "unat w div 2 ^ 31 \<noteq> 0" by (metis even_zero)
    then show "2 ^ 31 \<le> unat w" by (simp add: div_eq_0_iff)
  next
    assume "2 ^ 31 \<le> unat w"
    then have "unat w div 2 ^ 31 = 1"
      using unat_u32_lt [of w] by (intro div_nat_eqI) auto
    then show "odd (unat w div 2 ^ 31)" by simp
  qed
  finally show ?thesis .
qed

lemma sint_pos_iff: "sint (w :: u32) > 0 \<longleftrightarrow> 0 < unat w \<and> unat w < 2 ^ 31"
proof -
  have "sint w = sint 0 \<longleftrightarrow> w = 0" by (auto intro: signed_word_eqI)
  then have "sint w = 0 \<longleftrightarrow> unat w = 0" by (simp add: unat_eq_0)
  then show ?thesis using sint_neg_iff [of w] by linarith
qed

lemma SEQ_LT_iff: "SEQ_LT a b \<longleftrightarrow> 2 ^ 31 \<le> unat (a - b)"
  by (simp add: SEQ_LT_def sint_neg_iff)

lemma SEQ_GT_iff: "SEQ_GT a b \<longleftrightarrow> 0 < unat (a - b) \<and> unat (a - b) < 2 ^ 31"
  by (simp add: SEQ_GT_def sint_pos_iff)

lemma SEQ_GEQ_iff: "SEQ_GEQ a b \<longleftrightarrow> \<not> SEQ_LT a b"
  by (auto simp: SEQ_GEQ_def SEQ_LT_def)

lemma SEQ_LEQ_iff: "SEQ_LEQ a b \<longleftrightarrow> \<not> SEQ_GT a b"
  by (auto simp: SEQ_LEQ_def SEQ_GT_def)

text \<open>The distance of a sequence number from a base, and the window in which comparison is ordering.\<close>

definition dist :: "u32 \<Rightarrow> u32 \<Rightarrow> nat" where
  "dist base x = unat (x - base)"

lemma dist_diff: "unat (x - y) = (if dist base y \<le> dist base x then dist base x - dist base y
                                  else 2 ^ 32 - (dist base y - dist base x))"
proof -
  have "unat (x - y) = unat ((x - base) - (y - base))" by simp
  also have "\<dots> = (if dist base y \<le> dist base x then dist base x - dist base y
                   else 2 ^ 32 - (dist base y - dist base x))"
    using unat_sub_if' [of "x - base" "y - base"] unat_u32_lt [of "x - base"] unat_u32_lt [of "y - base"]
    by (auto simp: dist_def)
  finally show ?thesis .
qed

lemma SEQ_window:
  assumes "dist base x < 2 ^ 31" "dist base y < 2 ^ 31"
  shows "SEQ_LT x y \<longleftrightarrow> dist base x < dist base y" "SEQ_GT x y \<longleftrightarrow> dist base y < dist base x"
    "SEQ_LEQ x y \<longleftrightarrow> dist base x \<le> dist base y" "SEQ_GEQ x y \<longleftrightarrow> dist base y \<le> dist base x"
  using assms dist_diff [of x y base]
  by (auto simp: SEQ_LT_iff SEQ_GT_iff SEQ_LEQ_iff SEQ_GEQ_iff split: if_splits)

lemma dist_add: "dist base x + k < 2 ^ 32 \<Longrightarrow> dist base (x + of_nat k) = dist base x + k"
  unfolding dist_def
  by (subst add_diff_eq [symmetric] diff_add_eq [symmetric])
    (simp add: unat_add_no_wrap unat_of_nat take_bit_nat_eq_self)

lemma dist_self [simp]: "dist x x = 0"
  by (simp add: dist_def)

lemma dist_inj: "dist base x = dist base y \<Longrightarrow> x = y"
  by (simp add: dist_def flip: word_eq_iff_unat)

section \<open>The timer multiplexer\<close>

definition earliest :: "(timer \<Rightarrow> nat) \<Rightarrow> nat \<Rightarrow> bool" where
  "earliest f t \<longleftrightarrow>
     (if t = 0 then \<forall>k. f k = 0 else (\<exists>k. f k = t) \<and> (\<forall>k. f k \<noteq> 0 \<longrightarrow> t \<le> f k))"

definition timer_inv :: "tcp_pcb \<Rightarrow> bool" where
  "timer_inv p \<longleftrightarrow> earliest (deadline p) (tk_timeout p) \<and> (tk_registered p \<longleftrightarrow> tk_timeout p \<noteq> 0)"

lemma set_timer_order: "set timer_order = UNIV"
proof (rule UNIV_eq_I [symmetric])
  show "k \<in> set timer_order" for k by (cases k) (simp_all add: timer_order_def)
qed

definition sooner :: "nat \<Rightarrow> nat \<Rightarrow> nat" where
  "sooner d next = (if d \<noteq> 0 \<and> (next = 0 \<or> d < next) then d else next)"

lemma sooner_props:
  "sooner d a = 0 \<longleftrightarrow> d = 0 \<and> a = 0" "sooner d a = d \<or> sooner d a = a"
  "d \<noteq> 0 \<Longrightarrow> sooner d a \<le> d" "a \<noteq> 0 \<Longrightarrow> sooner d a \<le> a"
  by (auto simp: sooner_def)

lemma fold_sooner_zero: "fold sooner ds a = 0 \<longleftrightarrow> a = 0 \<and> (\<forall>d \<in> set ds. d = 0)"
  by (induction ds arbitrary: a) (auto simp: sooner_props(1))

lemma fold_sooner_mem: "fold sooner ds a = a \<or> fold sooner ds a \<in> set ds"
proof (induction ds arbitrary: a)
  case (Cons d ds)
  show ?case using Cons [of "sooner d a"] sooner_props(2) [of d a] by auto
qed simp

lemma fold_sooner_le:
  "a \<noteq> 0 \<Longrightarrow> fold sooner ds a \<le> a" "d \<in> set ds \<Longrightarrow> d \<noteq> 0 \<Longrightarrow> fold sooner ds a \<le> d"
proof (induction ds arbitrary: a)
  case (Cons x xs)
  {
    case 1
    then show ?case using Cons.IH(1) [of "sooner x a"] sooner_props [where d = x and a = a] by auto
  next
    case 2
    then show ?case using Cons.IH(1) [of "sooner x a"] Cons.IH(2) [of "sooner x a"] sooner_props [where d = x and a = a]
      by auto
  }
qed auto

lemma min_deadline_earliest: "earliest f (min_deadline (map f timer_order))"
proof -
  have m: "min_deadline ds = fold sooner ds 0" for ds
    unfolding min_deadline_def sooner_def [abs_def] ..
  have all: "(\<forall>d \<in> set (map f timer_order). P d) \<longleftrightarrow> (\<forall>k. P (f k))" for P
    using set_timer_order by auto
  have le: "fold sooner (map f timer_order) 0 \<le> f k" if "f k \<noteq> 0" for k
    using that set_timer_order by (intro fold_sooner_le(2)) auto
  show ?thesis
    using fold_sooner_zero [of "map f timer_order" 0, unfolded all]
      fold_sooner_mem [of "map f timer_order" 0] le
    unfolding earliest_def m by auto
qed

lemma reset_timer_inv: "timer_inv (tcp_reset_timer p)" "deadline (tcp_reset_timer p) = deadline p"
  using min_deadline_earliest [of "deadline p"]
  by (auto simp: timer_inv_def tcp_reset_timer_def Let_def)

definition timer_moves :: "nat \<Rightarrow> nat \<Rightarrow> bool \<Rightarrow> bool" where
  "timer_moves old new override \<longleftrightarrow> old = 0 \<or> old > new \<or> override"

lemma update_timer_deadline:
  "deadline (tcp_update_timer k d ov p) =
     (if timer_moves (deadline p k) d ov then (deadline p)(k := d) else deadline p)"
  by (auto simp: tcp_update_timer_def timer_moves_def Let_def reset_timer_inv(2) fun_eq_iff)

lemma earliest_update:
  assumes "earliest f t" "t \<noteq> 0" "f k \<noteq> t"
  shows "earliest (f(k := d)) (if d \<noteq> 0 \<and> d < t then d else t)"
proof -
  obtain j where j: "f j = t" "j \<noteq> k" using assms by (auto simp: earliest_def)
  have le: "f i \<noteq> 0 \<Longrightarrow> t \<le> f i" for i using assms by (auto simp: earliest_def)
  show ?thesis
  proof (cases "d \<noteq> 0 \<and> d < t")
    case True
    then have "d \<le> f i" if "f i \<noteq> 0" for i using le [OF that] by simp
    then show ?thesis using True by (auto simp: earliest_def intro!: exI [of _ k])
  next
    case False
    then show ?thesis using assms(2) j le by (auto simp: earliest_def intro!: exI [of _ j] dest: le)
  qed
qed

lemma update_timer_inv:
  assumes "timer_inv p"
  shows "timer_inv (tcp_update_timer k d ov p)"
proof -
  let ?p = "p\<lparr>deadline := (deadline p)(k := d)\<rparr>"
  consider "deadline p k = d \<or> \<not> timer_moves (deadline p k) d ov"
    | "deadline p k \<noteq> d" "timer_moves (deadline p k) d ov" "\<not> tk_registered p \<or> deadline p k = tk_timeout p"
    | "deadline p k \<noteq> d" "timer_moves (deadline p k) d ov" "tk_registered p" "deadline p k \<noteq> tk_timeout p"
    by blast
  then show ?thesis
  proof cases
    case 1
    then have "tcp_update_timer k d ov p = p" by (auto simp: tcp_update_timer_def timer_moves_def)
    then show ?thesis using assms by simp
  next
    case 2
    then have "tcp_update_timer k d ov p = tcp_reset_timer ?p"
      by (auto simp: tcp_update_timer_def timer_moves_def Let_def)
    then show ?thesis using reset_timer_inv(1) by simp
  next
    case 3
    then have "tcp_update_timer k d ov p =
        (if d \<noteq> 0 \<and> d < tk_timeout p then ?p\<lparr>tk_timeout := d, tk_registered := True\<rparr> else ?p)"
      using assms by (auto simp: tcp_update_timer_def timer_moves_def Let_def timer_inv_def)
    then show ?thesis
      using 3 assms earliest_update [of "deadline p" "tk_timeout p" k d]
      by (auto simp: timer_inv_def split: if_splits)
  qed
qed

lemma deadline_due_inv: "timer_inv p \<Longrightarrow> timer_inv (snd (tcp_deadline_due k p))"
  by (simp add: tcp_deadline_due_def reset_timer_inv)

text \<open>
  The contract the protocol code relies on: setting a deadline changes that deadline only,
  and the one registered alarm is the earliest deadline that is set. A client then never
  sleeps past a deadline.
\<close>

locale deadline_mux =
  fixes inv :: "'s \<Rightarrow> bool" and dl :: "'s \<Rightarrow> 'k \<Rightarrow> nat" and alarm :: "'s \<Rightarrow> nat"
    and set_dl :: "'k \<Rightarrow> nat \<Rightarrow> bool \<Rightarrow> 's \<Rightarrow> 's"
  assumes inv_set: "inv s \<Longrightarrow> inv (set_dl k d ov s)"
    and dl_set: "dl (set_dl k d ov s) =
          (if timer_moves (dl s k) d ov then (dl s)(k := d) else dl s)"
    and alarm_zero: "inv s \<Longrightarrow> alarm s = 0 \<longleftrightarrow> (\<forall>k. dl s k = 0)"
    and alarm_mem: "inv s \<Longrightarrow> alarm s \<noteq> 0 \<Longrightarrow> \<exists>k. dl s k = alarm s"
    and alarm_le: "inv s \<Longrightarrow> dl s k \<noteq> 0 \<Longrightarrow> alarm s \<le> dl s k"
begin

lemma never_late: "inv s \<Longrightarrow> dl s k \<noteq> 0 \<Longrightarrow> dl s k \<le> t \<Longrightarrow> alarm s \<noteq> 0 \<and> alarm s \<le> t"
  using alarm_zero alarm_le by (metis le_trans)

lemma fires_on_due: "inv s \<Longrightarrow> alarm s \<noteq> 0 \<Longrightarrow> alarm s \<le> t \<Longrightarrow> \<exists>k. dl s k \<noteq> 0 \<and> dl s k \<le> t"
  using alarm_mem by metis

lemma set_many:
  "inv s \<Longrightarrow> inv (fold (\<lambda>(k, d, ov). set_dl k d ov) xs s)"
  by (induction xs arbitrary: s) (auto simp: inv_set)

lemma armed_in_time:
  assumes "inv s" "d \<noteq> 0"
  shows "let s' = set_dl k d ov s in inv s' \<and> alarm s' \<noteq> 0 \<and> (timer_moves (dl s k) d ov \<longrightarrow> alarm s' \<le> d)"
proof -
  have i: "inv (set_dl k d ov s)" using inv_set assms by blast
  have "dl (set_dl k d ov s) k \<noteq> 0" using assms(2) by (auto simp: dl_set timer_moves_def)
  moreover have "timer_moves (dl s k) d ov \<Longrightarrow> dl (set_dl k d ov s) k = d" by (simp add: dl_set)
  ultimately show ?thesis using i never_late [OF i, of k] alarm_le [OF i, of k] by fastforce
qed

end

lemma timer_alarm:
  assumes "timer_inv p"
  shows "tk_timeout p = 0 \<longleftrightarrow> (\<forall>k. deadline p k = 0)"
    and "tk_timeout p \<noteq> 0 \<Longrightarrow> \<exists>k. deadline p k = tk_timeout p"
    and "deadline p k \<noteq> 0 \<Longrightarrow> tk_timeout p \<le> deadline p k"
  using assms unfolding timer_inv_def earliest_def by (metis le_zero_eq)+

interpretation tcp_timers: deadline_mux timer_inv deadline tk_timeout tcp_update_timer
  by unfold_locales
    (blast intro: update_timer_inv timer_alarm(2,3) | rule update_timer_deadline | rule timer_alarm(1))+

section \<open>What the window and timer functions leave alone\<close>

text \<open>
  Most of the control block is untouched by timer changes; these facts let the later proofs
  treat them as updates of the timer fields.
\<close>

definition same_but_timers :: "tcp_pcb \<Rightarrow> tcp_pcb \<Rightarrow> bool" where
  "same_but_timers p q \<longleftrightarrow>
     q = p\<lparr>deadline := deadline q, tk_registered := tk_registered q, tk_timeout := tk_timeout q\<rparr>"

lemma same_but_timers_refl [simp]: "same_but_timers p p"
  by (simp add: same_but_timers_def)

lemma same_reset: "same_but_timers p (tcp_reset_timer p)"
  by (simp add: same_but_timers_def tcp_reset_timer_def Let_def)

lemma same_update: "same_but_timers p (tcp_update_timer k d ov p)"
  using same_reset [of "p\<lparr>deadline := (deadline p)(k := d)\<rparr>"]
  by (auto simp: tcp_update_timer_def same_but_timers_def Let_def)

lemma same_trans: "same_but_timers p q \<Longrightarrow> same_but_timers q r \<Longrightarrow> same_but_timers p r"
proof -
  assume "same_but_timers p q" "same_but_timers q r"
  then obtain d b t d' b' t' where
    "q = p\<lparr>deadline := d, tk_registered := b, tk_timeout := t\<rparr>"
    "r = q\<lparr>deadline := d', tk_registered := b', tk_timeout := t'\<rparr>"
    unfolding same_but_timers_def by blast
  then show ?thesis by (simp add: same_but_timers_def)
qed

lemma same_fields:
  assumes "same_but_timers p q"
  shows "state q = state p" "sk q = sk p" "metrics q = metrics p" "retransmit_timeout q = retransmit_timeout p"
    "keepalive_timeout q = keepalive_timeout p" "keepalive_retry_timeout q = keepalive_retry_timeout p" "keepalive_repeat_count q = keepalive_repeat_count p" "keepalive_repeat_max q = keepalive_repeat_max p"
    "persist_backoff q = persist_backoff p" "retries_out q = retries_out p" "retries_max q = retries_max p" "timewait_timeout q = timewait_timeout p"
    "finwait2_timeout q = finwait2_timeout p" "ack_timeout q = ack_timeout p" "ack_pending_segments q = ack_pending_segments p" "connect_timeout q = connect_timeout p"
    "connect_retry_times q = connect_retry_times p" "nagle_interval q = nagle_interval p" "rtt_meas_time q = rtt_meas_time p" "rtt_meas_seq q = rtt_meas_seq p"
    "has_parent q = has_parent p" "retransmit_queue q = retransmit_queue p" "unordered_skb_list q = unordered_skb_list p" "rcv_nxt q = rcv_nxt p"
    "rcv_wnd q = rcv_wnd p" "rcv_mss q = rcv_mss p" "last_ack q = last_ack p" "last_ack_repeat q = last_ack_repeat p"
    "snd_wnd q = snd_wnd p" "snd_una q = snd_una p" "snd_nxt q = snd_nxt p" "snd_end q = snd_end p"
    "snd_cwnd q = snd_cwnd p" "snd_ssthresh q = snd_ssthresh p" "snd_wl1 q = snd_wl1 p" "snd_wl2 q = snd_wl2 p"
    "peer_mss q = peer_mss p" "snd_mss q = snd_mss p" "snd_wnd_scale q = snd_wnd_scale p" "rcv_wnd_scale q = rcv_wnd_scale p"
    "ts_recent q = ts_recent p" "ts_last_tsecr q = ts_last_tsecr p" "recv_fin q = recv_fin p" "peer_ts_ok q = peer_ts_ok p"
    "peer_mss_ok q = peer_mss_ok p" "wnd_scale_sent q = wnd_scale_sent p" "peer_wnd_scale_ok q = peer_wnd_scale_ok p" "cork q = cork p"
    "ca_recovery_seq q = ca_recovery_seq p" "ca_prior_cwnd q = ca_prior_cwnd p" "pcb_ca_state q = pcb_ca_state p" "cubic q = cubic p"
    "now q = now p" "outs q = outs p" "xmit_rets q = xmit_rets p"
proof -
  obtain d r t where q: "q = p\<lparr>deadline := d, tk_registered := r, tk_timeout := t\<rparr>"
    using assms unfolding same_but_timers_def by blast
  show "state q = state p" "sk q = sk p" "metrics q = metrics p" "retransmit_timeout q = retransmit_timeout p"
    "keepalive_timeout q = keepalive_timeout p" "keepalive_retry_timeout q = keepalive_retry_timeout p" "keepalive_repeat_count q = keepalive_repeat_count p" "keepalive_repeat_max q = keepalive_repeat_max p"
    "persist_backoff q = persist_backoff p" "retries_out q = retries_out p" "retries_max q = retries_max p" "timewait_timeout q = timewait_timeout p"
    "finwait2_timeout q = finwait2_timeout p" "ack_timeout q = ack_timeout p" "ack_pending_segments q = ack_pending_segments p" "connect_timeout q = connect_timeout p"
    "connect_retry_times q = connect_retry_times p" "nagle_interval q = nagle_interval p" "rtt_meas_time q = rtt_meas_time p" "rtt_meas_seq q = rtt_meas_seq p"
    "has_parent q = has_parent p" "retransmit_queue q = retransmit_queue p" "unordered_skb_list q = unordered_skb_list p" "rcv_nxt q = rcv_nxt p"
    "rcv_wnd q = rcv_wnd p" "rcv_mss q = rcv_mss p" "last_ack q = last_ack p" "last_ack_repeat q = last_ack_repeat p"
    "snd_wnd q = snd_wnd p" "snd_una q = snd_una p" "snd_nxt q = snd_nxt p" "snd_end q = snd_end p"
    "snd_cwnd q = snd_cwnd p" "snd_ssthresh q = snd_ssthresh p" "snd_wl1 q = snd_wl1 p" "snd_wl2 q = snd_wl2 p"
    "peer_mss q = peer_mss p" "snd_mss q = snd_mss p" "snd_wnd_scale q = snd_wnd_scale p" "rcv_wnd_scale q = rcv_wnd_scale p"
    "ts_recent q = ts_recent p" "ts_last_tsecr q = ts_last_tsecr p" "recv_fin q = recv_fin p" "peer_ts_ok q = peer_ts_ok p"
    "peer_mss_ok q = peer_mss_ok p" "wnd_scale_sent q = wnd_scale_sent p" "peer_wnd_scale_ok q = peer_wnd_scale_ok p" "cork q = cork p"
    "ca_recovery_seq q = ca_recovery_seq p" "ca_prior_cwnd q = ca_prior_cwnd p" "pcb_ca_state q = pcb_ca_state p" "cubic q = cubic p"
    "now q = now p" "outs q = outs p" "xmit_rets q = xmit_rets p"
    unfolding q by simp_all
qed

lemmas reset_timer_fields [simp] = same_fields [OF same_reset]

lemmas update_timer_fields [simp] = same_fields [OF same_update]

lemma same_arm_persist: "same_but_timers p (tcp_arm_persist p)"
  by (simp add: tcp_arm_persist_def same_update)

lemmas arm_persist_fields [simp] = same_fields [OF same_arm_persist]

lemma same_send_window_update: "same_but_timers p (tcp_send_window_update a b p)"
  unfolding tcp_send_window_update_def Let_def
  by (auto intro: same_update same_trans [OF same_update same_update])

lemmas send_window_update_fields [simp] = same_fields [OF same_send_window_update]

lemma same_cwnd_change: "same_but_timers (p\<lparr>snd_cwnd := w\<rparr>) (tcp_snd_cwnd_change w p)"
  by (auto simp: tcp_snd_cwnd_change_def same_send_window_update Let_def)

lemmas cwnd_change_fields [simp] = same_fields [OF same_cwnd_change, simplified]

text \<open>A change of the peer's window touches the window, the persist backoff and the retry count only.\<close>

lemma same_snd_wnd:
  assumes "same_but_timers p q" shows "same_but_timers (p\<lparr>snd_wnd := w\<rparr>) (q\<lparr>snd_wnd := w\<rparr>)"
proof -
  obtain d b t where "q = p\<lparr>deadline := d, tk_registered := b, tk_timeout := t\<rparr>"
    using assms unfolding same_but_timers_def by blast
  then show ?thesis by (simp add: same_but_timers_def)
qed

lemma same_win_change:
  "same_but_timers
     (p\<lparr>persist_backoff := (if snd_wnd p = 0 \<and> w \<noteq> 0 then TCP_PERSIST_BACKOFF_MS_DEFAULT
                            else persist_backoff p),
        retries_out := (if snd_wnd p = w \<or> (w \<noteq> 0 \<and> snd_wnd p \<noteq> 0) then retries_out p else 0),
        snd_wnd := w\<rparr>) (tcp_snd_win_change w p)"
proof (cases "snd_wnd p = w")
  case True
  then show ?thesis by (auto simp: tcp_snd_win_change_def Let_def)
next
  case False
  define p' where "p' = (if w = 0 then p\<lparr>retries_out := 0\<rparr>
    else if snd_wnd p = 0
    then tcp_update_timer Persist 0 True
           (p\<lparr>persist_backoff := TCP_PERSIST_BACKOFF_MS_DEFAULT, retries_out := 0\<rparr>)
    else p)"
  let ?q = "p\<lparr>persist_backoff := (if snd_wnd p = 0 \<and> w \<noteq> 0 then TCP_PERSIST_BACKOFF_MS_DEFAULT
                                  else persist_backoff p),
              retries_out := (if w \<noteq> 0 \<and> snd_wnd p \<noteq> 0 then retries_out p else 0)\<rparr>"
  have "same_but_timers ?q p'"
    unfolding p'_def using same_update [of ?q Persist 0 True] by (auto simp: False)
  then have "same_but_timers (?q\<lparr>snd_wnd := w\<rparr>) (p'\<lparr>snd_wnd := w\<rparr>)" by (rule same_snd_wnd)
  note * = same_trans [OF same_trans [OF this same_send_window_update] same_arm_persist]
  have "tcp_snd_win_change w p =
      tcp_arm_persist (tcp_send_window_update (min (snd_wnd p) (snd_cwnd p))
        (min w (snd_cwnd p')) (p'\<lparr>snd_wnd := w\<rparr>))"
    using False by (simp add: tcp_snd_win_change_def Let_def p'_def)
  with * False show ?thesis by simp
qed

lemmas win_change_fields [simp] = same_fields [OF same_win_change, simplified]

end
