(* ===== verification/TcpCong.thy ===== *)
theory TcpCong
  imports TcpBase
begin

text \<open>
  Round-trip estimation and retransmission timeouts (\<^verbatim>\<open>src/main/tcp_metrics.c\<close>) and CUBIC
  congestion control (\<^verbatim>\<open>src/main/tcp_congestion.c\<close>).

  The 32- and 64-bit integers of these files are natural numbers here: every conversion to
  \<open>uint32_t\<close> is written out as \<open>trunc32\<close> and every 64-bit product or sum that the C code
  forms as \<open>trunc64\<close>, so that "no information is lost" is something to prove. The window
  fields of the control block stay 32-bit words. A control block of the model always has a
  socket, so \<open>tcp_ca_set_cwnd\<close> always goes through \<open>tcp_snd_cwnd_change\<close>.
\<close>

section \<open>Retransmission timeouts\<close>

definition trunc32 :: "nat \<Rightarrow> nat" where "trunc32 n = n mod 2 ^ 32"
definition trunc64 :: "nat \<Rightarrow> nat" where "trunc64 n = n mod 2 ^ 64"

definition TCP_RETRANSMIT_TIMEOUT_MS_MAX :: nat where "TCP_RETRANSMIT_TIMEOUT_MS_MAX = 6000"
definition TCP_RTO_MIN_MS :: nat where "TCP_RTO_MIN_MS = 200"

text \<open>A fresh metrics object: \<open>CREATE_REF\<close> zeroes it; the argument says whether memory was there.\<close>

definition tcp_metrics_get :: "bool \<Rightarrow> tcp_metrics option" where
  "tcp_metrics_get mem_ok = (if \<not> mem_ok then None else Some \<lparr>rtt = 0, rttvar = 0\<rparr>)"

definition tcp_metrics_default_rto :: nat where
  "tcp_metrics_default_rto = trunc32 (TCP_RTO_MIN_MS * 5)"

definition tcp_metrics_rto :: "tcp_metrics option \<Rightarrow> nat" where
  "tcp_metrics_rto mo =
     (case mo of
        None \<Rightarrow> tcp_metrics_default_rto
      | Some m \<Rightarrow>
          if rtt m = 0 then tcp_metrics_default_rto
          else let rto = trunc64 (rtt m + trunc64 (4 * rttvar m));
                   rto = max rto TCP_RTO_MIN_MS
               in if rto > TCP_RETRANSMIT_TIMEOUT_MS_MAX then TCP_RETRANSMIT_TIMEOUT_MS_MAX
                  else trunc32 rto)"

definition tcp_metrics_sample :: "tcp_metrics option \<Rightarrow> nat \<Rightarrow> nat \<times> tcp_metrics option" where
  "tcp_metrics_sample mo measured_rtt =
     (case mo of
        None \<Rightarrow> (tcp_metrics_rto mo, mo)
      | Some m \<Rightarrow>
          if measured_rtt = 0 then (tcp_metrics_rto mo, mo)
          else let m' = (if rtt m = 0
                         then m\<lparr>rtt := measured_rtt, rttvar := measured_rtt div 2\<rparr>
                         else let err = (if rtt m > measured_rtt then rtt m - measured_rtt
                                         else measured_rtt - rtt m)
                              in m\<lparr>rttvar := trunc32 (trunc64 (3 * rttvar m + err) div 4),
                                   rtt := trunc32 (trunc64 (7 * rtt m + measured_rtt) div 8)\<rparr>)
               in (tcp_metrics_rto (Some m'), Some m'))"

definition tcp_metrics_backoff :: "nat \<Rightarrow> nat" where
  "tcp_metrics_backoff rto =
     (if rto \<ge> TCP_RETRANSMIT_TIMEOUT_MS_MAX div 2 then TCP_RETRANSMIT_TIMEOUT_MS_MAX
      else trunc32 (rto * 2))"

section \<open>CUBIC\<close>

definition UINT32_MAX :: nat where "UINT32_MAX = 4294967295"
definition UINT64_MAX :: nat where "UINT64_MAX = 18446744073709551615"

definition CUBIC_INITIAL_WINDOW :: nat where "CUBIC_INITIAL_WINDOW = 10"
definition CUBIC_BETA :: nat where "CUBIC_BETA = 717"
definition CUBIC_BETA_SCALE :: nat where "CUBIC_BETA_SCALE = 1024"
definition CUBIC_C_NUM :: nat where "CUBIC_C_NUM = 2"
definition CUBIC_C_DEN :: nat where "CUBIC_C_DEN = 5"
definition CUBIC_TCP_FRIEND_SCALE :: nat where "CUBIC_TCP_FRIEND_SCALE = 15"
definition CUBIC_MAX_OFFSET_MS :: nat where "CUBIC_MAX_OFFSET_MS = 600000"

definition tcp_ca_mss :: "tcp_pcb \<Rightarrow> nat" where
  "tcp_ca_mss p = (if snd_mss p \<noteq> 0 then unat (snd_mss p) else 1)"

definition tcp_ca_saturating_add :: "nat \<Rightarrow> nat \<Rightarrow> nat" where
  "tcp_ca_saturating_add v increment =
     (let result = trunc64 (v + increment)
      in if result > UINT32_MAX then UINT32_MAX else trunc32 result)"

definition tcp_ca_set_cwnd :: "nat \<Rightarrow> tcp_pcb \<Rightarrow> tcp_pcb" where
  "tcp_ca_set_cwnd cwnd p = tcp_snd_cwnd_change (of_nat (max cwnd (tcp_ca_mss p))) p"

definition tcp_cubic_cwnd_packets :: "tcp_pcb \<Rightarrow> nat" where
  "tcp_cubic_cwnd_packets p = max (unat (snd_cwnd p) div tcp_ca_mss p) 1"

definition tcp_cubic_set_cwnd_packets :: "nat \<Rightarrow> tcp_pcb \<Rightarrow> tcp_pcb" where
  "tcp_cubic_set_cwnd_packets packets p =
     (let bytes = trunc64 (packets * tcp_ca_mss p)
      in tcp_ca_set_cwnd (if bytes > UINT32_MAX then UINT32_MAX else trunc32 bytes) p)"

function cubic_root_loop :: "nat \<Rightarrow> nat \<Rightarrow> nat \<Rightarrow> nat" where
  "cubic_root_loop v low high =
     (if low < high then
        let mid = low + (high - low + 1) div 2;
            fits = (mid = 0 \<or> mid \<le> v div mid div mid)
        in if fits then cubic_root_loop v mid high else cubic_root_loop v low (mid - 1)
      else low)"
  by pat_completeness auto
termination
  by (relation "measure (\<lambda>(v, low, high). high - low)") (simp_all add: Let_def, arith+)

declare cubic_root_loop.simps [simp del]

definition tcp_cubic_root :: "nat \<Rightarrow> nat" where
  "tcp_cubic_root v = cubic_root_loop v 0 2642245"

definition tcp_cubic_reset :: "tcp_pcb \<Rightarrow> tcp_pcb" where
  "tcp_cubic_reset p = p\<lparr>cubic := cubic_zero\<rparr>"

definition tcp_cubic_take_acked_packets :: "nat \<Rightarrow> tcp_pcb \<Rightarrow> nat \<times> tcp_pcb" where
  "tcp_cubic_take_acked_packets bytes p =
     (let mss = tcp_ca_mss p;
          total = trunc64 (acked_bytes (cubic p) + bytes);
          packets = total div mss
      in (if packets > UINT32_MAX then UINT32_MAX else trunc32 packets,
          p\<lparr>cubic := (cubic p)\<lparr>acked_bytes := trunc32 (total mod mss)\<rparr>\<rparr>))"

definition tcp_cubic_slow_start :: "nat \<Rightarrow> tcp_pcb \<Rightarrow> nat \<times> tcp_pcb" where
  "tcp_cubic_slow_start acked p =
     (let mss = tcp_ca_mss p;
          cwnd = tcp_cubic_cwnd_packets p;
          ssthresh = max (unat (snd_ssthresh p) div mss) 2
      in if cwnd \<ge> ssthresh then (acked, p)
         else let increase = min acked (ssthresh - cwnd)
              in (acked - increase, tcp_cubic_set_cwnd_packets (cwnd + increase) p))"

definition tcp_cubic_k_ms :: "nat \<Rightarrow> nat" where
  "tcp_cubic_k_ms distance =
     (let scale = CUBIC_C_DEN * 1000000000;
          v = (if distance > UINT64_MAX div scale then UINT64_MAX else trunc64 (distance * scale))
      in tcp_cubic_root (v div CUBIC_C_NUM))"

definition tcp_cubic_delta :: "nat \<Rightarrow> nat" where
  "tcp_cubic_delta offset_ms =
     (let offset_ms = min offset_ms CUBIC_MAX_OFFSET_MS;
          cube = trunc64 (trunc64 (offset_ms * offset_ms) * offset_ms);
          delta = trunc64 (CUBIC_C_NUM * cube) div (CUBIC_C_DEN * 1000000000)
      in if delta > UINT32_MAX then UINT32_MAX else trunc32 delta)"

text \<open>\<open>tcp_cubic_update\<close> in the parts its comments give it: the epoch, the cubic target, the
  growth per acknowledged packet, the TCP-friendly region.\<close>

definition cubic_epoch :: "nat \<Rightarrow> nat \<Rightarrow> nat \<Rightarrow> tcp_cubic \<Rightarrow> tcp_cubic" where
  "cubic_epoch now_ms cwnd acked c =
     (let c = c\<lparr>ack_cnt := tcp_ca_saturating_add (ack_cnt c) acked\<rparr>
      in if epoch_start_ms c = 0 then
           let c = c\<lparr>epoch_start_ms := (if now_ms \<noteq> 0 then now_ms else 1), ack_cnt := acked,
                     tcp_cwnd := cwnd\<rparr>
           in if last_max_cwnd c \<le> cwnd then c\<lparr>k_ms := 0, origin_point := cwnd\<rparr>
              else c\<lparr>k_ms := tcp_cubic_k_ms (last_max_cwnd c - cwnd), origin_point := last_max_cwnd c\<rparr>
         else c)"

definition cubic_target :: "nat \<Rightarrow> tcp_cubic \<Rightarrow> nat" where
  "cubic_target now_ms c =
     (let elapsed = (if now_ms \<ge> epoch_start_ms c then now_ms - epoch_start_ms c else 0);
          offset = (if elapsed > k_ms c then elapsed - k_ms c else k_ms c - elapsed);
          delta = tcp_cubic_delta offset
      in if elapsed < k_ms c then (if delta \<ge> origin_point c then 1 else origin_point c - delta)
         else tcp_ca_saturating_add (origin_point c) delta)"

definition cubic_cnt :: "nat \<Rightarrow> nat \<Rightarrow> tcp_cubic \<Rightarrow> nat" where
  "cubic_cnt cwnd target c =
     (let n = (if target > cwnd then max (cwnd div (target - cwnd)) 1
               else tcp_ca_saturating_add 0 (trunc64 (100 * cwnd)))
      in if last_max_cwnd c = 0 \<and> n > 20 then 20 else n)"

definition cubic_friendly :: "nat \<Rightarrow> tcp_cubic \<Rightarrow> tcp_cubic" where
  "cubic_friendly cwnd c =
     (let threshold64 = trunc64 (cwnd * CUBIC_TCP_FRIEND_SCALE) div 8;
          threshold = (if threshold64 > UINT32_MAX then UINT32_MAX else max (trunc32 threshold64) 1);
          c = (if ack_cnt c > threshold then
                 let steps = (ack_cnt c - 1) div threshold
                 in c\<lparr>ack_cnt := ack_cnt c - trunc32 (steps * threshold),
                      tcp_cwnd := tcp_ca_saturating_add (tcp_cwnd c) steps\<rparr>
               else c)
      in if tcp_cwnd c > cwnd then
           let difference = tcp_cwnd c - cwnd;
               friendly_cnt = max (cwnd div difference) 1
           in c\<lparr>cnt := min (cnt c) friendly_cnt\<rparr>
         else c)"

definition tcp_cubic_update :: "nat \<Rightarrow> nat \<Rightarrow> nat \<Rightarrow> tcp_cubic \<Rightarrow> tcp_cubic" where
  "tcp_cubic_update now_ms cwnd acked c =
     (let c = cubic_epoch now_ms cwnd acked c;
          c = c\<lparr>cnt := cubic_cnt cwnd (cubic_target now_ms c) c\<rparr>;
          c = cubic_friendly cwnd c
      in c\<lparr>cnt := max (cnt c) 2\<rparr>)"

definition cong_avoid_tail :: "nat \<Rightarrow> tcp_pcb \<Rightarrow> tcp_pcb" where
  "cong_avoid_tail acked p =
     (let cwnd = tcp_cubic_cwnd_packets p;
          p = p\<lparr>cubic := tcp_cubic_update (now p) cwnd acked (cubic p)\<rparr>;
          credits = trunc64 (cwnd_cnt (cubic p) + acked);
          increase = trunc32 (credits div cnt (cubic p));
          p = p\<lparr>cubic := (cubic p)\<lparr>cwnd_cnt := trunc32 (credits mod cnt (cubic p))\<rparr>\<rparr>
      in if increase \<noteq> 0 then tcp_cubic_set_cwnd_packets (cwnd + increase) p else p)"

definition tcp_cubic_cong_avoid :: "nat \<Rightarrow> tcp_pcb \<Rightarrow> tcp_pcb" where
  "tcp_cubic_cong_avoid acked p =
     (if snd_cwnd p < snd_ssthresh p then
        (case tcp_cubic_slow_start acked p of
           (acked, p) \<Rightarrow> if acked = 0 then p else cong_avoid_tail acked p)
      else cong_avoid_tail acked p)"

definition tcp_cubic_recalc_ssthresh :: "tcp_pcb \<Rightarrow> u32 \<times> tcp_pcb" where
  "tcp_cubic_recalc_ssthresh p =
     (let cwnd = tcp_cubic_cwnd_packets p;
          c = (cubic p)\<lparr>epoch_start_ms := 0, cwnd_cnt := 0\<rparr>;
          c = (if cwnd < last_max_cwnd c
               then c\<lparr>last_max_cwnd := trunc32 (trunc64 (cwnd * (CUBIC_BETA_SCALE + CUBIC_BETA)) div
                                                (2 * CUBIC_BETA_SCALE))\<rparr>
               else c\<lparr>last_max_cwnd := cwnd\<rparr>);
          threshold = trunc32 (trunc64 (cwnd * CUBIC_BETA) div CUBIC_BETA_SCALE);
          threshold_bytes = trunc64 (max threshold 2 * tcp_ca_mss p)
      in (of_nat (if threshold_bytes > UINT32_MAX then UINT32_MAX else threshold_bytes),
          p\<lparr>cubic := c\<rparr>))"

definition tcp_congestion_init :: "tcp_pcb \<Rightarrow> tcp_pcb" where
  "tcp_congestion_init p =
     (let initial = trunc64 (CUBIC_INITIAL_WINDOW * tcp_ca_mss p)
      in tcp_cubic_reset
           (p\<lparr>snd_cwnd := of_nat (if initial > UINT32_MAX then UINT32_MAX else initial),
              snd_ssthresh := of_nat UINT32_MAX, ca_recovery_seq := 0, ca_prior_cwnd := 0,
              pcb_ca_state := CA_OPEN\<rparr>))"

definition tcp_congestion_mss_changed :: "tcp_pcb \<Rightarrow> tcp_pcb" where
  "tcp_congestion_mss_changed p =
     (if state p = TCP_STATE_CLOSED \<or> state p = TCP_STATE_SYN_SENT \<or>
         state p = TCP_STATE_SYN_RECEIVED
      then tcp_congestion_init p else p)"

definition tcp_congestion_on_ack :: "nat \<Rightarrow> bool \<Rightarrow> tcp_pcb \<Rightarrow> bool \<times> tcp_pcb" where
  "tcp_congestion_on_ack bytes was_cwnd_limited p =
     (if pcb_ca_state p \<noteq> CA_OPEN then
        if SEQ_GEQ (snd_una p) (ca_recovery_seq p) then
          (let p = tcp_ca_set_cwnd (unat (snd_ssthresh p)) p;
               p = p\<lparr>pcb_ca_state := CA_OPEN\<rparr>
           in (False, p\<lparr>cubic := (cubic p)\<lparr>cwnd_cnt := 0\<rparr>\<rparr>))
        else if pcb_ca_state p = CA_RECOVERY then
          (True, tcp_ca_set_cwnd (tcp_ca_saturating_add (unat (snd_ssthresh p)) (tcp_ca_mss p)) p)
        else (True, p)
      else if was_cwnd_limited \<and> bytes \<noteq> 0 then
        (case tcp_cubic_take_acked_packets bytes p of
           (acked, p) \<Rightarrow> (False, if acked \<noteq> 0 then tcp_cubic_cong_avoid acked p else p))
      else (False, p))"

definition tcp_congestion_on_duplicate_ack :: "nat \<Rightarrow> tcp_pcb \<Rightarrow> bool \<times> tcp_pcb" where
  "tcp_congestion_on_duplicate_ack duplicate_acks p =
     (if duplicate_acks = 3 \<and> pcb_ca_state p = CA_OPEN then
        (let p = p\<lparr>ca_prior_cwnd := snd_cwnd p\<rparr>
         in case tcp_cubic_recalc_ssthresh p of
              (thresh, p) \<Rightarrow>
                let p = p\<lparr>snd_ssthresh := thresh, ca_recovery_seq := snd_nxt p,
                          pcb_ca_state := CA_RECOVERY\<rparr>
                in (True, tcp_ca_set_cwnd (tcp_ca_saturating_add (unat (snd_ssthresh p))
                                             (3 * tcp_ca_mss p)) p))
      else if duplicate_acks > 3 \<and> pcb_ca_state p = CA_RECOVERY then
        (False, tcp_ca_set_cwnd (tcp_ca_saturating_add (unat (snd_cwnd p)) (tcp_ca_mss p)) p)
      else (False, p))"

definition tcp_congestion_on_timeout :: "tcp_pcb \<Rightarrow> tcp_pcb" where
  "tcp_congestion_on_timeout p =
     (let p = (if pcb_ca_state p = CA_OPEN then
                 let p = p\<lparr>ca_prior_cwnd := snd_cwnd p\<rparr>
                 in case tcp_cubic_recalc_ssthresh p of
                      (thresh, p) \<Rightarrow> p\<lparr>snd_ssthresh := thresh, ca_recovery_seq := snd_nxt p\<rparr>
               else p);
          p = p\<lparr>pcb_ca_state := CA_LOSS\<rparr>;
          p = tcp_ca_set_cwnd (tcp_ca_mss p) p
      in tcp_cubic_reset p)"

section \<open>No information is lost\<close>

lemma trunc32_id [simp]: "n < 4294967296 \<Longrightarrow> trunc32 n = n"
  by (simp add: trunc32_def)

lemma trunc64_id [simp]: "n < 18446744073709551616 \<Longrightarrow> trunc64 n = n"
  by (simp add: trunc64_def)

lemma saturating_add:
  assumes "v < 2 ^ 32" "increment < 2 ^ 63"
  shows "tcp_ca_saturating_add v increment = min (v + increment) UINT32_MAX"
  using assms by (simp add: tcp_ca_saturating_add_def UINT32_MAX_def Let_def min_def)

lemma ca_mss: "0 < tcp_ca_mss p" "tcp_ca_mss p < 2 ^ 32"
  using unat_u32_lt [of "snd_mss p"] by (auto simp: tcp_ca_mss_def word_eq_iff_unat)

lemma unat_of_nat_u32: "n < 2 ^ 32 \<Longrightarrow> unat (of_nat n :: u32) = n"
  by (simp add: unat_of_nat)

lemma u32_mult_bound: "a < 2 ^ 32 \<Longrightarrow> b < 2 ^ 32 \<Longrightarrow> a * b < (2::nat) ^ 64"
proof -
  assume "a < 2 ^ 32" "b < 2 ^ 32"
  then have "a * b \<le> (2 ^ 32 - 1) * (2 ^ 32 - 1)" by (intro mult_le_mono) auto
  then show ?thesis by simp
qed

section \<open>The cube root\<close>

lemma fits_iff: "0 < mid \<Longrightarrow> mid \<le> v div mid div mid \<longleftrightarrow> mid ^ 3 \<le> (v::nat)"
  by (simp add: less_eq_div_iff_mult_less_eq power3_eq_cube mult.assoc)

lemma cubic_root_loop_spec:
  "low ^ 3 \<le> v \<Longrightarrow> v < Suc high ^ 3 \<Longrightarrow> low \<le> high \<Longrightarrow>
   cubic_root_loop v low high ^ 3 \<le> v \<and> v < Suc (cubic_root_loop v low high) ^ 3 \<and>
   cubic_root_loop v low high \<le> high"
proof (induction v low high rule: cubic_root_loop.induct)
  case (1 v low high)
  show ?case
  proof (cases "low < high")
    case True
    define mid where "mid = low + (high - low + 1) div 2"
    have mid: "low < mid" "mid \<le> high" using True unfolding mid_def by linarith+
    have step: "cubic_root_loop v low high =
        (if mid ^ 3 \<le> v then cubic_root_loop v mid high else cubic_root_loop v low (mid - 1))"
      using True mid fits_iff [of mid v]
      by (subst cubic_root_loop.simps, unfold Let_def, fold mid_def) simp
    show ?thesis
    proof (cases "mid ^ 3 \<le> v")
      case fit: True
      with step "1.IH"(1) [OF True mid_def refl] fit mid "1.prems" fits_iff [of mid v] show ?thesis by simp
    next
      case over: False
      have "Suc (mid - 1) = mid" "low \<le> mid - 1" using mid by auto
      then show ?thesis
        using step "1.IH"(2) [OF True mid_def refl] over mid "1.prems" fits_iff [of mid v] by auto
    qed
  next
    case False
    with "1.prems" show ?thesis by (subst (1 2 3) cubic_root_loop.simps) simp
  qed
qed

lemma cubic_root:
  assumes "v < 2 ^ 64"
  shows "tcp_cubic_root v ^ 3 \<le> v" "v < Suc (tcp_cubic_root v) ^ 3" "tcp_cubic_root v \<le> 2642245"
proof -
  have "v < Suc 2642245 ^ 3" using assms by simp
  then show "tcp_cubic_root v ^ 3 \<le> v" "v < Suc (tcp_cubic_root v) ^ 3" "tcp_cubic_root v \<le> 2642245"
    using cubic_root_loop_spec [of 0 v 2642245] by (auto simp: tcp_cubic_root_def)
qed

section \<open>Retransmission timeouts stay in range\<close>

definition metrics_ok :: "tcp_metrics option \<Rightarrow> bool" where
  "metrics_ok mo \<longleftrightarrow> (\<forall>m. mo = Some m \<longrightarrow> rtt m < 2 ^ 32 \<and> rttvar m < 2 ^ 32)"

lemma rto_value:
  assumes "rtt m < 2 ^ 32" "rttvar m < 2 ^ 32" "rtt m \<noteq> 0"
  shows "tcp_metrics_rto (Some m) = min 6000 (max 200 (rtt m + 4 * rttvar m))"
  using assms by (simp add: tcp_metrics_rto_def Let_def TCP_RTO_MIN_MS_def TCP_RETRANSMIT_TIMEOUT_MS_MAX_def max.commute)

lemma rto_range:
  assumes "metrics_ok mo"
  shows "200 \<le> tcp_metrics_rto mo \<and> tcp_metrics_rto mo \<le> 6000"
proof (cases mo)
  case (Some m)
  with assms show ?thesis
    using rto_value [of m]
    by (cases "rtt m = 0")
      (auto simp: metrics_ok_def tcp_metrics_rto_def tcp_metrics_default_rto_def TCP_RTO_MIN_MS_def)
qed (simp add: tcp_metrics_rto_def tcp_metrics_default_rto_def TCP_RTO_MIN_MS_def)

lemma sample_metrics:
  assumes "rtt m < 2 ^ 32" "rttvar m < 2 ^ 32" "0 < sample" "sample < 2 ^ 32"
  obtains m' where "tcp_metrics_sample (Some m) sample = (tcp_metrics_rto (Some m'), Some m')"
    "rtt m' = (if rtt m = 0 then sample else (7 * rtt m + sample) div 8)"
    "rttvar m' = (if rtt m = 0 then sample div 2
       else (3 * rttvar m + (if rtt m > sample then rtt m - sample else sample - rtt m)) div 4)"
    "rtt m' < 2 ^ 32" "rttvar m' < 2 ^ 32"
proof -
  have *: "(7 * rtt m + sample) div 8 < 2 ^ 32" using assms by simp
  have **: "(3 * rttvar m + (if rtt m > sample then rtt m - sample else sample - rtt m)) div 4 < 2 ^ 32"
    using assms by (auto simp: less_mult_imp_div_less)
  show ?thesis
  proof (cases "rtt m = 0")
    case True
    with assms show ?thesis
      by (intro that [of "m\<lparr>rtt := sample, rttvar := sample div 2\<rparr>"])
        (simp_all add: tcp_metrics_sample_def Let_def)
  next
    case False
    let ?err = "if rtt m > sample then rtt m - sample else sample - rtt m"
    have "3 * rttvar m + ?err < 2 ^ 64" using assms by auto
    with False assms * ** show ?thesis
      by (intro that [of "m\<lparr>rttvar := (3 * rttvar m + ?err) div 4, rtt := (7 * rtt m + sample) div 8\<rparr>"])
        (simp_all add: tcp_metrics_sample_def Let_def)
  qed
qed

lemma sample_ok:
  assumes "metrics_ok mo" "sample < 2 ^ 32"
  shows "metrics_ok (snd (tcp_metrics_sample mo sample))"
    and "fst (tcp_metrics_sample mo sample) = tcp_metrics_rto (snd (tcp_metrics_sample mo sample))"
proof -
  have "metrics_ok (snd (tcp_metrics_sample mo sample)) \<and>
      fst (tcp_metrics_sample mo sample) = tcp_metrics_rto (snd (tcp_metrics_sample mo sample))"
  proof (cases "mo = None \<or> sample = 0")
    case True
    with assms show ?thesis by (auto simp: tcp_metrics_sample_def split: option.split)
  next
    case False
    then obtain m where m: "mo = Some m" by auto
    with assms False have "rtt m < 2 ^ 32" "rttvar m < 2 ^ 32" "0 < sample" "sample < 2 ^ 32"
      by (auto simp: metrics_ok_def)
    then show ?thesis unfolding m by (rule sample_metrics) (auto simp: metrics_ok_def)
  qed
  then show "metrics_ok (snd (tcp_metrics_sample mo sample))"
    "fst (tcp_metrics_sample mo sample) = tcp_metrics_rto (snd (tcp_metrics_sample mo sample))" by auto
qed

lemma backoff_value: "rto \<le> 6000 \<Longrightarrow> tcp_metrics_backoff rto = min 6000 (2 * rto)"
  by (simp add: tcp_metrics_backoff_def TCP_RETRANSMIT_TIMEOUT_MS_MAX_def min_def)

text \<open>Backing off any number of times from a legal timeout doubles it up to the cap.\<close>

lemma backoff_iterate:
  "rto \<le> 6000 \<Longrightarrow> (tcp_metrics_backoff ^^ n) rto = min 6000 (2 ^ n * rto)"
proof (induction n)
  case (Suc n)
  have "2 ^ Suc n * rto = 2 * (2 ^ n * rto)" by simp
  moreover have "(tcp_metrics_backoff ^^ Suc n) rto = min 6000 (2 * min 6000 (2 ^ n * rto))"
    using Suc by (simp add: backoff_value del: power_Suc)
  moreover have "min 6000 (2 * min 6000 k) = min 6000 (2 * k)" for k :: nat by (simp add: min_def)
  ultimately show ?case by (simp only:)
qed simp

section \<open>CUBIC keeps a usable window\<close>

lemma ca_mss_upd [simp]:
  "tcp_ca_mss (p\<lparr>cubic := c\<rparr>) = tcp_ca_mss p" "tcp_ca_mss (p\<lparr>pcb_ca_state := st\<rparr>) = tcp_ca_mss p"
  "tcp_ca_mss (p\<lparr>snd_ssthresh := t\<rparr>) = tcp_ca_mss p" "tcp_ca_mss (p\<lparr>ca_recovery_seq := r\<rparr>) = tcp_ca_mss p"
  "tcp_ca_mss (p\<lparr>ca_prior_cwnd := w\<rparr>) = tcp_ca_mss p"
  by (simp_all add: tcp_ca_mss_def)

lemma set_cwnd_fields [simp]:
  "snd_ssthresh (tcp_ca_set_cwnd c p) = snd_ssthresh p" "cubic (tcp_ca_set_cwnd c p) = cubic p"
  "tcp_ca_mss (tcp_ca_set_cwnd c p) = tcp_ca_mss p" "now (tcp_ca_set_cwnd c p) = now p"
  "pcb_ca_state (tcp_ca_set_cwnd c p) = pcb_ca_state p" "snd_una (tcp_ca_set_cwnd c p) = snd_una p"
  by (simp_all add: tcp_ca_set_cwnd_def tcp_ca_mss_def)

lemma set_cwnd:
  assumes "c < 2 ^ 32"
  shows "unat (snd_cwnd (tcp_ca_set_cwnd c p)) = max c (tcp_ca_mss p)"
proof -
  have "max c (tcp_ca_mss p) < 2 ^ 32" using assms ca_mss [of p] by simp
  then show ?thesis by (simp add: tcp_ca_set_cwnd_def unat_of_nat_u32 del: of_nat_max)
qed

lemma cwnd_packets:
  "1 \<le> tcp_cubic_cwnd_packets p" "tcp_cubic_cwnd_packets p < 2 ^ 32"
  "tcp_ca_mss p \<le> unat (snd_cwnd p) \<Longrightarrow> tcp_cubic_cwnd_packets p * tcp_ca_mss p \<le> unat (snd_cwnd p)"
proof -
  show "tcp_cubic_cwnd_packets p < 2 ^ 32"
    using le_less_trans [OF div_le_dividend unat_u32_lt] by (simp add: tcp_cubic_cwnd_packets_def)
  show "tcp_cubic_cwnd_packets p * tcp_ca_mss p \<le> unat (snd_cwnd p)" if "tcp_ca_mss p \<le> unat (snd_cwnd p)"
    using that div_times_less_eq_dividend [of "unat (snd_cwnd p)" "tcp_ca_mss p"]
    by (simp add: tcp_cubic_cwnd_packets_def max_def)
qed (simp add: tcp_cubic_cwnd_packets_def)

lemma set_packets_fields [simp]:
  "snd_ssthresh (tcp_cubic_set_cwnd_packets n p) = snd_ssthresh p"
  "cubic (tcp_cubic_set_cwnd_packets n p) = cubic p"
  "tcp_ca_mss (tcp_cubic_set_cwnd_packets n p) = tcp_ca_mss p"
  "now (tcp_cubic_set_cwnd_packets n p) = now p"
  by (simp_all add: tcp_cubic_set_cwnd_packets_def Let_def)

text \<open>Adding packets to the window never wraps: the byte count saturates at \<open>UINT32_MAX\<close>.\<close>

lemma set_packets:
  assumes ok: "tcp_ca_mss p \<le> unat (snd_cwnd p)" and inc: "inc < 2 ^ 32"
  shows "unat (snd_cwnd (tcp_cubic_set_cwnd_packets (tcp_cubic_cwnd_packets p + inc) p)) =
     min ((tcp_cubic_cwnd_packets p + inc) * tcp_ca_mss p) UINT32_MAX"
proof -
  let ?n = "tcp_cubic_cwnd_packets p + inc" and ?m = "tcp_ca_mss p"
  have "?n * ?m \<le> (2 ^ 32 - 1) + (2 ^ 32 - 1) * (2 ^ 32 - 1)"
    unfolding add_mult_distrib
    using cwnd_packets(3) [OF ok] unat_u32_lt [of "snd_cwnd p"] inc ca_mss(2) [of p]
    by (intro add_mono mult_le_mono) auto
  then have "?n * ?m < 18446744073709551616" by simp
  moreover have "?m \<le> ?n * ?m" "?m < 2 ^ 32" using cwnd_packets(1) [of p] ca_mss [of p] by auto
  moreover have "unat (snd_cwnd (tcp_cubic_set_cwnd_packets ?n p)) =
      unat (snd_cwnd (tcp_ca_set_cwnd (min (?n * ?m) UINT32_MAX) p))"
    using calculation(1)
    by (simp add: tcp_cubic_set_cwnd_packets_def Let_def UINT32_MAX_def min_def)
  moreover have "min (?n * ?m) UINT32_MAX < 2 ^ 32" by (simp add: UINT32_MAX_def min_def)
  ultimately show ?thesis using set_cwnd [of "min (?n * ?m) UINT32_MAX" p]
    by (simp add: UINT32_MAX_def)
qed

definition cubic_ok :: "tcp_cubic \<Rightarrow> bool" where
  "cubic_ok c \<longleftrightarrow> last_max_cwnd c < 2 ^ 32 \<and> origin_point c < 2 ^ 32 \<and> k_ms c < 2 ^ 32 \<and>
     ack_cnt c < 2 ^ 32 \<and> tcp_cwnd c < 2 ^ 32 \<and> cnt c < 2 ^ 32 \<and> cwnd_cnt c < 2 ^ 32 \<and>
     acked_bytes c < 2 ^ 32"

definition cong_ok :: "tcp_pcb \<Rightarrow> bool" where
  "cong_ok p \<longleftrightarrow> tcp_ca_mss p \<le> unat (snd_cwnd p) \<and> cubic_ok (cubic p)"

lemma saturating_bound [simp]: "tcp_ca_saturating_add v i < 4294967296"
  by (simp add: tcp_ca_saturating_add_def Let_def UINT32_MAX_def)

lemma k_ms_bound [simp]: "tcp_cubic_k_ms d < 4294967296"
proof -
  have "(if d > UINT64_MAX div (CUBIC_C_DEN * 1000000000) then UINT64_MAX
         else trunc64 (d * (CUBIC_C_DEN * 1000000000))) < 2 ^ 64"
    by (simp add: UINT64_MAX_def trunc64_def)
  then have "(if d > UINT64_MAX div (CUBIC_C_DEN * 1000000000) then UINT64_MAX
         else trunc64 (d * (CUBIC_C_DEN * 1000000000))) div CUBIC_C_NUM < 2 ^ 64"
    by (rule le_less_trans [OF div_le_dividend])
  from cubic_root(3) [OF this] show ?thesis unfolding tcp_cubic_k_ms_def Let_def by linarith
qed

lemma cubic_epoch_ok:
  "cubic_ok c \<Longrightarrow> cwnd < 2 ^ 32 \<Longrightarrow> acked < 2 ^ 32 \<Longrightarrow> cubic_ok (cubic_epoch now_ms cwnd acked c)"
  by (auto simp: cubic_ok_def cubic_epoch_def Let_def)

lemma cubic_cnt_bound: "cwnd < 2 ^ 32 \<Longrightarrow> cubic_cnt cwnd target c < 2 ^ 32"
  by (auto simp: cubic_cnt_def Let_def intro: le_less_trans [OF div_le_dividend])

lemma cubic_ok_cnt: "cubic_ok c \<Longrightarrow> n < 2 ^ 32 \<Longrightarrow> cubic_ok (c\<lparr>cnt := n\<rparr>)"
  by (simp add: cubic_ok_def)

lemma cubic_ok_ack: "cubic_ok c \<Longrightarrow> a < 2 ^ 32 \<Longrightarrow> b < 2 ^ 32 \<Longrightarrow> cubic_ok (c\<lparr>ack_cnt := a, tcp_cwnd := b\<rparr>)"
  by (simp add: cubic_ok_def)

lemma cubic_friendly_shape:
  obtains a b n where "cubic_friendly cwnd c = c\<lparr>ack_cnt := a, tcp_cwnd := b, cnt := n\<rparr>"
    "a \<le> ack_cnt c" "b = tcp_cwnd c \<or> b < 2 ^ 32" "n \<le> cnt c"
proof -
  define t where "t = (let threshold64 = trunc64 (cwnd * CUBIC_TCP_FRIEND_SCALE) div 8
    in if threshold64 > UINT32_MAX then UINT32_MAX else max (trunc32 threshold64) 1)"
  define a where "a = (if ack_cnt c > t then ack_cnt c - trunc32 ((ack_cnt c - 1) div t * t) else ack_cnt c)"
  define b where "b = (if ack_cnt c > t then tcp_ca_saturating_add (tcp_cwnd c) ((ack_cnt c - 1) div t)
    else tcp_cwnd c)"
  define n where "n = (if b > cwnd then min (cnt c) (max (cwnd div (b - cwnd)) 1) else cnt c)"
  have "cubic_friendly cwnd c = c\<lparr>ack_cnt := a, tcp_cwnd := b, cnt := n\<rparr>"
  proof -
    let ?c = "if ack_cnt c > t then c\<lparr>ack_cnt := ack_cnt c - trunc32 ((ack_cnt c - 1) div t * t),
      tcp_cwnd := tcp_ca_saturating_add (tcp_cwnd c) ((ack_cnt c - 1) div t)\<rparr> else c"
    have c: "?c = c\<lparr>ack_cnt := a, tcp_cwnd := b\<rparr>" by (cases "ack_cnt c > t") (simp_all add: a_def b_def)
    have "cubic_friendly cwnd c = (if tcp_cwnd ?c > cwnd
        then ?c\<lparr>cnt := min (cnt ?c) (max (cwnd div (tcp_cwnd ?c - cwnd)) 1)\<rparr> else ?c)"
      unfolding cubic_friendly_def Let_def t_def ..
    then show ?thesis unfolding c n_def by (cases "b > cwnd") simp_all
  qed
  moreover have "a \<le> ack_cnt c" "b = tcp_cwnd c \<or> b < 2 ^ 32" "n \<le> cnt c"
    by (simp_all add: a_def b_def n_def)
  ultimately show thesis by (rule that)
qed

lemma cubic_friendly_ok:
  assumes "cubic_ok c" shows "cubic_ok (cubic_friendly cwnd c)"
  by (rule cubic_friendly_shape [of cwnd c]) (use assms in \<open>auto simp: cubic_ok_def\<close>)

lemma cubic_update_ok:
  assumes "cubic_ok c" "cwnd < 2 ^ 32" "acked < 2 ^ 32"
  shows "cubic_ok (tcp_cubic_update now_ms cwnd acked c)" "2 \<le> cnt (tcp_cubic_update now_ms cwnd acked c)"
    "cwnd_cnt (tcp_cubic_update now_ms cwnd acked c) = cwnd_cnt c"
proof -
  define c1 where "c1 = cubic_epoch now_ms cwnd acked c"
  define n where "n = cubic_cnt cwnd (cubic_target now_ms c1) c1"
  define c' where "c' = c1\<lparr>cnt := n\<rparr>"
  have "n < 2 ^ 32" unfolding n_def by (rule cubic_cnt_bound [OF assms(2)])
  then have c': "cubic_ok c'" unfolding c'_def c1_def by (rule cubic_ok_cnt [OF cubic_epoch_ok [OF assms]])
  have u: "tcp_cubic_update now_ms cwnd acked c =
      (cubic_friendly cwnd c')\<lparr>cnt := max (cnt (cubic_friendly cwnd c')) 2\<rparr>"
    unfolding tcp_cubic_update_def Let_def c'_def n_def c1_def ..
  have ok: "cubic_ok (cubic_friendly cwnd c')" by (rule cubic_friendly_ok [OF c'])
  then have "max (cnt (cubic_friendly cwnd c')) 2 < 2 ^ 32" by (simp add: cubic_ok_def)
  then show "cubic_ok (tcp_cubic_update now_ms cwnd acked c)" unfolding u by (rule cubic_ok_cnt [OF ok])
  show "2 \<le> cnt (tcp_cubic_update now_ms cwnd acked c)" unfolding u by simp
  show "cwnd_cnt (tcp_cubic_update now_ms cwnd acked c) = cwnd_cnt c"
    unfolding u by (rule cubic_friendly_shape [of cwnd c']) (simp add: c'_def c1_def cubic_epoch_def Let_def)
qed

lemma cubic_ok_cwnd_cnt: "cubic_ok c \<Longrightarrow> n < 2 ^ 32 \<Longrightarrow> cubic_ok (c\<lparr>cwnd_cnt := n\<rparr>)"
  by (simp add: cubic_ok_def)

lemma cong_avoid_tail:
  assumes ok: "cong_ok p" and "acked < 2 ^ 32"
  shows "cong_ok (cong_avoid_tail acked p)"
    "unat (snd_cwnd (cong_avoid_tail acked p)) \<le>
       unat (snd_cwnd p) + (cwnd_cnt (cubic p) + acked) div 2 * tcp_ca_mss p"
    "tcp_ca_mss (cong_avoid_tail acked p) = tcp_ca_mss p"
proof -
  define c where "c = tcp_cubic_update (now p) (tcp_cubic_cwnd_packets p) acked (cubic p)"
  have c: "cubic_ok c" "2 \<le> cnt c" "cwnd_cnt c = cwnd_cnt (cubic p)"
    using cubic_update_ok [OF _ cwnd_packets(2) assms(2)] ok by (simp_all add: c_def cong_ok_def)
  define k where "k = cwnd_cnt (cubic p) + acked"
  have k: "k < 2 ^ 33" using c(1,3) assms(2) by (simp add: k_def cubic_ok_def)
  have "k div cnt c \<le> k div 2" using c(2) by (simp add: div_le_mono2)
  moreover have "k div 2 < 2 ^ 32" using k by simp
  ultimately have inc: "k div cnt c \<le> k div 2" "k div cnt c < 2 ^ 32" by linarith+
  have "k mod cnt c < cnt c" using c(2) by simp
  then have md: "k mod cnt c < 2 ^ 32" using c(1) by (simp add: cubic_ok_def)
  define q where "q = p\<lparr>cubic := c\<lparr>cwnd_cnt := k mod cnt c\<rparr>\<rparr>"
  have t: "cong_avoid_tail acked p =
      (if k div cnt c \<noteq> 0 then tcp_cubic_set_cwnd_packets (tcp_cubic_cwnd_packets p + k div cnt c) q else q)"
    using inc(2) md k c(3)
    by (simp add: cong_avoid_tail_def Let_def q_def k_def flip: c_def)
  have q: "tcp_ca_mss q = tcp_ca_mss p" "snd_cwnd q = snd_cwnd p"
    "tcp_cubic_cwnd_packets q = tcp_cubic_cwnd_packets p" "cubic_ok (cubic q)"
    using cubic_ok_cwnd_cnt [OF c(1) md] by (simp_all add: q_def tcp_ca_mss_def tcp_cubic_cwnd_packets_def)
  show m: "tcp_ca_mss (cong_avoid_tail acked p) = tcp_ca_mss p" by (simp add: t q)
  have mss: "tcp_ca_mss p \<le> unat (snd_cwnd p)" using ok by (simp add: cong_ok_def)
  have w: "unat (snd_cwnd (cong_avoid_tail acked p)) =
      (if k div cnt c \<noteq> 0 then min ((tcp_cubic_cwnd_packets p + k div cnt c) * tcp_ca_mss p) UINT32_MAX
       else unat (snd_cwnd p))"
    using set_packets [of q "k div cnt c"] inc(2) mss by (simp add: t q)
  have "(k div cnt c) * tcp_ca_mss p \<le> k div 2 * tcp_ca_mss p" using inc(1) by (rule mult_le_mono1)
  with cwnd_packets(3) [OF mss] have "(tcp_cubic_cwnd_packets p + k div cnt c) * tcp_ca_mss p \<le>
      unat (snd_cwnd p) + k div 2 * tcp_ca_mss p" unfolding add_mult_distrib by (rule add_mono)
  then show "unat (snd_cwnd (cong_avoid_tail acked p)) \<le>
      unat (snd_cwnd p) + (cwnd_cnt (cubic p) + acked) div 2 * tcp_ca_mss p"
    unfolding w by (simp add: min_le_iff_disj flip: k_def)
  have "tcp_ca_mss p \<le> (tcp_cubic_cwnd_packets p + k div cnt c) * tcp_ca_mss p" "tcp_ca_mss p \<le> UINT32_MAX"
    using cwnd_packets(1) [of p] ca_mss [of p] by (simp_all add: UINT32_MAX_def)
  then show "cong_ok (cong_avoid_tail acked p)"
    using mss q(4) by (simp add: cong_ok_def m w) (simp add: t)
qed

lemma slow_start:
  assumes ok: "cong_ok p" and "acked < 2 ^ 32" and e: "tcp_cubic_slow_start acked p = (rest, q)"
  shows "cong_ok q" "rest \<le> acked" "tcp_ca_mss q = tcp_ca_mss p" "cubic q = cubic p"
    "unat (snd_cwnd q) \<le> unat (snd_cwnd p) + (acked - rest) * tcp_ca_mss p"
    "rest \<noteq> 0 \<longrightarrow> max (unat (snd_ssthresh p) div tcp_ca_mss p) 2 \<le> tcp_cubic_cwnd_packets p + (acked - rest)"
proof -
  let ?t = "max (unat (snd_ssthresh p) div tcp_ca_mss p) 2" and ?w = "tcp_cubic_cwnd_packets p"
  define inc where "inc = (if ?w \<ge> ?t then 0 else min acked (?t - ?w))"
  have inc: "inc \<le> acked" "inc < 2 ^ 32" using assms(2) by (auto simp: inc_def)
  have q: "rest = acked - inc" "q = (if ?w \<ge> ?t then p else tcp_cubic_set_cwnd_packets (?w + inc) p)"
    using e by (auto simp: tcp_cubic_slow_start_def Let_def inc_def split: if_splits)
  have mss: "tcp_ca_mss p \<le> unat (snd_cwnd p)" using ok by (simp add: cong_ok_def)
  show m: "rest \<le> acked" "tcp_ca_mss q = tcp_ca_mss p" "cubic q = cubic p" by (simp_all add: q)
  show "rest \<noteq> 0 \<longrightarrow> ?t \<le> ?w + (acked - rest)" using inc by (auto simp: q(1) inc_def)
  have d: "acked - rest = inc" using inc by (simp add: q(1))
  have w: "unat (snd_cwnd q) = (if ?w \<ge> ?t then unat (snd_cwnd p)
      else min ((?w + inc) * tcp_ca_mss p) UINT32_MAX)"
    using set_packets [OF mss inc(2)] by (simp add: q(2))
  show "unat (snd_cwnd q) \<le> unat (snd_cwnd p) + (acked - rest) * tcp_ca_mss p"
    using cwnd_packets(3) [OF mss] unfolding w d by (simp add: add_mult_distrib min_le_iff_disj)
  have "tcp_ca_mss p \<le> (?w + inc) * tcp_ca_mss p" "tcp_ca_mss p \<le> UINT32_MAX"
    using cwnd_packets(1) [of p] ca_mss [of p] by (simp_all add: UINT32_MAX_def)
  then show "cong_ok q" using ok mss by (simp add: cong_ok_def m w)
qed

lemma cong_avoid:
  assumes "cong_ok p" "acked < 2 ^ 32"
  shows "cong_ok (tcp_cubic_cong_avoid acked p)"
    "unat (snd_cwnd (tcp_cubic_cong_avoid acked p)) \<le>
       unat (snd_cwnd p) + (if snd_cwnd p < snd_ssthresh p then acked + cwnd_cnt (cubic p)
                            else (cwnd_cnt (cubic p) + acked) div 2) * tcp_ca_mss p"
proof -
  obtain rest q where e: "tcp_cubic_slow_start acked p = (rest, q)" by (cases "tcp_cubic_slow_start acked p")
  note ss = slow_start [OF assms e]
  have tail: "cong_ok (cong_avoid_tail rest q)" "unat (snd_cwnd (cong_avoid_tail rest q)) \<le>
      unat (snd_cwnd p) + (acked + cwnd_cnt (cubic p)) * tcp_ca_mss p"
  proof -
    have "rest < 2 ^ 32" using ss(2) assms(2) by simp
    note t = cong_avoid_tail [OF ss(1) this]
    show "cong_ok (cong_avoid_tail rest q)" by (rule t)
    have "(cwnd_cnt (cubic p) + rest) div 2 + (acked - rest) \<le> acked + cwnd_cnt (cubic p)"
      using ss(2) by simp
    then have "((cwnd_cnt (cubic p) + rest) div 2 + (acked - rest)) * tcp_ca_mss p \<le>
        (acked + cwnd_cnt (cubic p)) * tcp_ca_mss p" by (rule mult_le_mono1)
    with t(2) ss(5) show "unat (snd_cwnd (cong_avoid_tail rest q)) \<le>
        unat (snd_cwnd p) + (acked + cwnd_cnt (cubic p)) * tcp_ca_mss p"
      by (simp add: ss(3,4) add_mult_distrib)
  qed
  have q: "unat (snd_cwnd q) \<le> unat (snd_cwnd p) + (acked + cwnd_cnt (cubic p)) * tcp_ca_mss p"
    using ss(5) by (rule order_trans) (intro add_left_mono mult_le_mono1, linarith)
  show "cong_ok (tcp_cubic_cong_avoid acked p)"
    using tail(1) ss(1) cong_avoid_tail(1) [OF assms] by (simp add: tcp_cubic_cong_avoid_def e)
  show "unat (snd_cwnd (tcp_cubic_cong_avoid acked p)) \<le>
      unat (snd_cwnd p) + (if snd_cwnd p < snd_ssthresh p then acked + cwnd_cnt (cubic p)
                            else (cwnd_cnt (cubic p) + acked) div 2) * tcp_ca_mss p"
    using tail(2) q cong_avoid_tail(2) [OF assms] by (simp add: tcp_cubic_cong_avoid_def e)
qed

lemma take_acked:
  assumes "cubic_ok (cubic p)" "bytes < 2 ^ 32"
  shows "tcp_cubic_take_acked_packets bytes p =
     (min ((acked_bytes (cubic p) + bytes) div tcp_ca_mss p) UINT32_MAX,
      p\<lparr>cubic := (cubic p)\<lparr>acked_bytes := (acked_bytes (cubic p) + bytes) mod tcp_ca_mss p\<rparr>\<rparr>)"
proof -
  let ?t = "acked_bytes (cubic p) + bytes"
  have "?t < 2 ^ 64" using assms by (simp add: cubic_ok_def)
  moreover have "?t mod tcp_ca_mss p < 2 ^ 32"
    using mod_less_divisor [OF ca_mss(1), of ?t p] ca_mss(2) [of p] by linarith
  ultimately show ?thesis
    by (simp add: tcp_cubic_take_acked_packets_def Let_def UINT32_MAX_def min_def)
qed

text \<open>A multiplicative decrease: seven tenths of the window, at least two packets.\<close>

definition recalc_cubic :: "tcp_pcb \<Rightarrow> tcp_cubic" where
  "recalc_cubic p = (cubic p)\<lparr>epoch_start_ms := 0, cwnd_cnt := 0,
     last_max_cwnd := (if tcp_cubic_cwnd_packets p < last_max_cwnd (cubic p)
        then tcp_cubic_cwnd_packets p * 1741 div 2048 else tcp_cubic_cwnd_packets p)\<rparr>"

lemma recalc_ssthresh:
  "tcp_cubic_recalc_ssthresh p =
     (of_nat (min (max (tcp_cubic_cwnd_packets p * 717 div 1024) 2 * tcp_ca_mss p) UINT32_MAX),
      p\<lparr>cubic := recalc_cubic p\<rparr>)"
proof -
  let ?w = "tcp_cubic_cwnd_packets p"
  have w: "?w * 717 < 2 ^ 64" "?w * 717 div 1024 < 2 ^ 32" "?w * 1741 < 2 ^ 64" "?w * 1741 div 2048 < 2 ^ 32"
    using cwnd_packets(2) [of p] by simp_all
  then have "max (?w * 717 div 1024) 2 * tcp_ca_mss p < 2 ^ 64"
    by (intro u32_mult_bound ca_mss) simp
  with w show ?thesis
    by (simp add: tcp_cubic_recalc_ssthresh_def Let_def CUBIC_BETA_def CUBIC_BETA_SCALE_def
        UINT32_MAX_def min_def recalc_cubic_def del: of_nat_mult of_nat_max)
qed

lemma recalc_cubic_ok: "cubic_ok (cubic p) \<Longrightarrow> cubic_ok (recalc_cubic p)"
  using cwnd_packets(2) [of p] by (auto simp: cubic_ok_def recalc_cubic_def less_mult_imp_div_less)

lemma recalc_thresh:
  "unat (fst (tcp_cubic_recalc_ssthresh p)) =
     min (max (tcp_cubic_cwnd_packets p * 717 div 1024) 2 * tcp_ca_mss p) UINT32_MAX"
proof -
  have "min x UINT32_MAX < 2 ^ 32" for x by (simp add: UINT32_MAX_def)
  then show ?thesis by (simp add: recalc_ssthresh unat_of_nat_u32 del: of_nat_min of_nat_max of_nat_mult)
qed

section \<open>Congestion events\<close>

datatype cong_event = Acked nat bool | DupAck nat | Rto

fun cong_step :: "cong_event \<Rightarrow> tcp_pcb \<Rightarrow> tcp_pcb" where
  "cong_step (Acked bytes limited) p = snd (tcp_congestion_on_ack bytes limited p)"
| "cong_step (DupAck n) p = snd (tcp_congestion_on_duplicate_ack n p)"
| "cong_step Rto p = tcp_congestion_on_timeout p"

definition cong_event_ok :: "cong_event \<Rightarrow> bool" where
  "cong_event_ok e \<longleftrightarrow> (case e of Acked bytes _ \<Rightarrow> bytes < 2 ^ 32 | _ \<Rightarrow> True)"

lemma cong_ok_set_cwnd:
  assumes "cubic_ok (cubic p)" "c < 2 ^ 32" shows "cong_ok (tcp_ca_set_cwnd c p)"
  using assms by (simp add: cong_ok_def set_cwnd)

lemma cong_ok_init: "cong_ok (tcp_congestion_init p)"
proof -
  have "CUBIC_INITIAL_WINDOW * tcp_ca_mss p < 2 ^ 64"
    using ca_mss [of p] by (simp add: CUBIC_INITIAL_WINDOW_def)
  then have "unat (snd_cwnd (tcp_congestion_init p)) = min (10 * tcp_ca_mss p) UINT32_MAX"
    by (simp add: tcp_congestion_init_def tcp_cubic_reset_def Let_def CUBIC_INITIAL_WINDOW_def
        UINT32_MAX_def min_def unat_of_nat_u32 del: of_nat_mult)
  moreover have "tcp_ca_mss (tcp_congestion_init p) = tcp_ca_mss p"
    by (simp add: tcp_congestion_init_def tcp_cubic_reset_def tcp_ca_mss_def Let_def)
  ultimately show ?thesis using ca_mss [of p]
    by (simp add: cong_ok_def UINT32_MAX_def)
      (simp add: tcp_congestion_init_def tcp_cubic_reset_def cubic_zero_def cubic_ok_def Let_def)
qed

lemma on_ack_ok:
  assumes "cong_ok p" "bytes < 2 ^ 32"
  shows "cong_ok (snd (tcp_congestion_on_ack bytes limited p))"
proof -
  have c: "cubic_ok (cubic p)" using assms(1) by (simp add: cong_ok_def)
  define q where
    "q = p\<lparr>cubic := (cubic p)\<lparr>acked_bytes := (acked_bytes (cubic p) + bytes) mod tcp_ca_mss p\<rparr>\<rparr>"
  have "(acked_bytes (cubic p) + bytes) mod tcp_ca_mss p < 2 ^ 32"
    using mod_less_divisor [OF ca_mss(1), of "acked_bytes (cubic p) + bytes" p] ca_mss(2) [of p] by linarith
  then have q: "cong_ok q" using assms(1) by (simp add: q_def cong_ok_def cubic_ok_def)
  have open_ok: "cong_ok (tcp_cubic_cong_avoid (min n UINT32_MAX) q)" for n
    using cong_avoid(1) [OF q] by (simp add: UINT32_MAX_def)
  have set_ok: "cong_ok ((tcp_ca_set_cwnd n p)\<lparr>pcb_ca_state := CA_OPEN, cubic := (cubic p)\<lparr>cwnd_cnt := 0\<rparr>\<rparr>)"
    if "n < 2 ^ 32" for n
    using cong_ok_set_cwnd [OF c that] by (simp add: cong_ok_def cubic_ok_def)
  show ?thesis
    using assms(1) q open_ok set_ok [of "unat (snd_ssthresh p)"] unat_u32_lt [of "snd_ssthresh p"]
      cong_ok_set_cwnd [OF c]
    by (auto simp: tcp_congestion_on_ack_def take_acked [OF c assms(2)] Let_def simp flip: q_def)
qed

lemma on_duplicate_ack_ok:
  assumes "cong_ok p" shows "cong_ok (snd (tcp_congestion_on_duplicate_ack n p))"
proof -
  have c: "cubic_ok (cubic p)" using assms by (simp add: cong_ok_def)
  then have "cubic_ok (recalc_cubic (p\<lparr>ca_prior_cwnd := snd_cwnd p\<rparr>))" by (intro recalc_cubic_ok) simp
  then show ?thesis using assms c
    by (auto simp: tcp_congestion_on_duplicate_ack_def Let_def recalc_ssthresh intro!: cong_ok_set_cwnd)
qed

lemma on_timeout_shape:
  obtains q where "tcp_congestion_on_timeout p = tcp_cubic_reset (tcp_ca_set_cwnd (tcp_ca_mss q) q)"
    "tcp_ca_mss q = tcp_ca_mss p"
proof -
  define q where "q = (if pcb_ca_state p = CA_OPEN then
      (p\<lparr>ca_prior_cwnd := snd_cwnd p, cubic := recalc_cubic (p\<lparr>ca_prior_cwnd := snd_cwnd p\<rparr>),
         snd_ssthresh := fst (tcp_cubic_recalc_ssthresh (p\<lparr>ca_prior_cwnd := snd_cwnd p\<rparr>)),
         ca_recovery_seq := snd_nxt p\<rparr>) else p)\<lparr>pcb_ca_state := CA_LOSS\<rparr>"
  have "tcp_congestion_on_timeout p = tcp_cubic_reset (tcp_ca_set_cwnd (tcp_ca_mss q) q)"
    by (cases "pcb_ca_state p = CA_OPEN")
      (simp_all only: tcp_congestion_on_timeout_def q_def Let_def recalc_ssthresh if_True if_False
        prod.case fst_conv, simp_all)
  moreover have "tcp_ca_mss q = tcp_ca_mss p" by (simp add: q_def)
  ultimately show thesis by (rule that)
qed

lemma timeout_cwnd: "unat (snd_cwnd (tcp_congestion_on_timeout p)) = tcp_ca_mss p"
  by (rule on_timeout_shape [of p]) (use ca_mss [of p] in \<open>simp add: tcp_cubic_reset_def set_cwnd\<close>)

lemma on_timeout_ok: "cong_ok (tcp_congestion_on_timeout p)"
  by (rule on_timeout_shape [of p])
    (use ca_mss [of p] in \<open>simp add: tcp_cubic_reset_def cong_ok_def set_cwnd cubic_zero_def cubic_ok_def\<close>)

lemma cong_step_ok: "cong_ok p \<Longrightarrow> cong_event_ok e \<Longrightarrow> cong_ok (cong_step e p)"
  by (cases e) (simp_all add: cong_event_ok_def on_ack_ok on_duplicate_ack_ok on_timeout_ok)

lemma cong_steps_ok: "cong_ok p \<Longrightarrow> list_all cong_event_ok es \<Longrightarrow> cong_ok (fold cong_step es p)"
  by (induction es arbitrary: p) (simp_all add: cong_step_ok)

section \<open>The cubic curve\<close>

text \<open>The curve of a new epoch starts at or above the current window: K is rounded down.\<close>

lemma k_ms_cube: "d < 2 ^ 32 \<Longrightarrow> 2 * tcp_cubic_k_ms d ^ 3 \<le> d * 5000000000"
proof -
  assume d: "d < 2 ^ 32"
  define v where "v = (if d > UINT64_MAX div (CUBIC_C_DEN * 1000000000) then UINT64_MAX
         else trunc64 (d * (CUBIC_C_DEN * 1000000000)))"
  have v: "v < 2 ^ 64" "v \<le> d * 5000000000"
    by (auto simp: v_def UINT64_MAX_def CUBIC_C_DEN_def trunc64_def)
  have "v div CUBIC_C_NUM < 2 ^ 64" using v(1) by (rule le_less_trans [OF div_le_dividend])
  then have "tcp_cubic_k_ms d ^ 3 \<le> v div 2"
    using cubic_root(1) by (simp add: tcp_cubic_k_ms_def Let_def v_def CUBIC_C_NUM_def)
  then show ?thesis using v(2) by linarith
qed

lemma delta_value:
  "tcp_cubic_delta x = 2 * min x 600000 ^ 3 div 5000000000"
proof -
  let ?x = "min x 600000 :: nat"
  have "?x ^ 2 \<le> 600000 ^ 2" "?x ^ 3 \<le> 600000 ^ 3" by (rule power_mono; simp)+
  then have b: "?x * ?x \<le> 360000000000" "?x * ?x * ?x \<le> 216000000000000000"
    by (simp_all add: power2_eq_square power3_eq_cube)
  then have "2 * (?x * ?x * ?x) div 5000000000 < 2 ^ 32" by simp
  with b show ?thesis
    by (simp add: tcp_cubic_delta_def Let_def CUBIC_MAX_OFFSET_MS_def CUBIC_C_NUM_def CUBIC_C_DEN_def
        UINT32_MAX_def power3_eq_cube)
qed

lemma delta_k_ms:
  assumes "d < 2 ^ 32" shows "tcp_cubic_delta (tcp_cubic_k_ms d) \<le> d"
proof -
  have "2 * min (tcp_cubic_k_ms d) 600000 ^ 3 \<le> 2 * tcp_cubic_k_ms d ^ 3"
    by (intro mult_le_mono2 power_mono) auto
  also have "\<dots> \<le> d * 5000000000" by (rule k_ms_cube [OF assms])
  finally have "2 * min (tcp_cubic_k_ms d) 600000 ^ 3 div 5000000000 \<le> d * 5000000000 div 5000000000"
    by (rule div_le_mono)
  also have "\<dots> = d" by (rule nonzero_mult_div_cancel_right) simp
  finally show ?thesis unfolding delta_value .
qed

lemma epoch_target:
  assumes "cubic_ok c" "epoch_start_ms c = 0" "0 < now_ms" "0 < w" "w < 2 ^ 32"
  shows "w \<le> cubic_target now_ms (cubic_epoch now_ms w acked c)"
proof (cases "last_max_cwnd c \<le> w")
  case True
  with assms have "cubic_target now_ms (cubic_epoch now_ms w acked c) = tcp_ca_saturating_add w (tcp_cubic_delta 0)"
    by (simp add: cubic_target_def cubic_epoch_def Let_def)
  with assms(5) show ?thesis by (simp add: delta_value saturating_add UINT32_MAX_def)
next
  case False
  let ?d = "last_max_cwnd c - w"
  have "?d < 2 ^ 32" using assms(1) by (auto simp: cubic_ok_def)
  from delta_k_ms [OF this] have "w \<le> last_max_cwnd c - tcp_cubic_delta (tcp_cubic_k_ms ?d)" using False by linarith
  moreover have "last_max_cwnd c < 2 ^ 32" using assms(1) by (simp add: cubic_ok_def)
  moreover have "cubic_target now_ms (cubic_epoch now_ms w acked c) =
      (if 0 < tcp_cubic_k_ms ?d
       then if tcp_cubic_delta (tcp_cubic_k_ms ?d) \<ge> last_max_cwnd c then 1
            else last_max_cwnd c - tcp_cubic_delta (tcp_cubic_k_ms ?d)
       else tcp_ca_saturating_add (last_max_cwnd c) (tcp_cubic_delta 0))"
    using False assms(2,3) by (simp add: cubic_target_def cubic_epoch_def Let_def)
  moreover have "tcp_ca_saturating_add (last_max_cwnd c) (tcp_cubic_delta 0) = last_max_cwnd c"
    using calculation(2) by (simp add: delta_value saturating_add UINT32_MAX_def)
  ultimately show ?thesis using False assms(4) by auto
qed

lemma third_duplicate:
  assumes "cong_ok p" "pcb_ca_state p = CA_OPEN"
  shows "unat (snd_ssthresh (snd (tcp_congestion_on_duplicate_ack 3 p))) =
      min (max (tcp_cubic_cwnd_packets p * 717 div 1024) 2 * tcp_ca_mss p) UINT32_MAX"
    "unat (snd_cwnd (snd (tcp_congestion_on_duplicate_ack 3 p))) =
      min (unat (snd_ssthresh (snd (tcp_congestion_on_duplicate_ack 3 p))) + 3 * tcp_ca_mss p) UINT32_MAX"
proof -
  define p' where "p' = p\<lparr>ca_prior_cwnd := snd_cwnd p\<rparr>"
  define t where "t = fst (tcp_cubic_recalc_ssthresh p')"
  define r where "r = p'\<lparr>cubic := recalc_cubic p', snd_ssthresh := t, ca_recovery_seq := snd_nxt p,
     pcb_ca_state := CA_RECOVERY\<rparr>"
  have q: "snd (tcp_congestion_on_duplicate_ack 3 p) =
      tcp_ca_set_cwnd (tcp_ca_saturating_add (unat t) (3 * tcp_ca_mss r)) r"
    using assms(2)
    by (simp add: tcp_congestion_on_duplicate_ack_def Let_def recalc_ssthresh t_def r_def p'_def)
  have m: "tcp_ca_mss r = tcp_ca_mss p" "snd_ssthresh r = t" by (simp_all add: r_def p'_def)
  have t: "unat t = min (max (tcp_cubic_cwnd_packets p * 717 div 1024) 2 * tcp_ca_mss p) UINT32_MAX"
    by (simp add: t_def recalc_thresh) (simp add: p'_def tcp_cubic_cwnd_packets_def)
  then show "unat (snd_ssthresh (snd (tcp_congestion_on_duplicate_ack 3 p))) =
      min (max (tcp_cubic_cwnd_packets p * 717 div 1024) 2 * tcp_ca_mss p) UINT32_MAX"
    by (simp add: q m)
  have "tcp_ca_saturating_add (unat t) (3 * tcp_ca_mss p) = min (unat t + 3 * tcp_ca_mss p) UINT32_MAX"
    using ca_mss [of p] unat_u32_lt [of t] by (intro saturating_add) simp_all
  then show "unat (snd_cwnd (snd (tcp_congestion_on_duplicate_ack 3 p))) =
      min (unat (snd_ssthresh (snd (tcp_congestion_on_duplicate_ack 3 p))) + 3 * tcp_ca_mss p) UINT32_MAX"
    using ca_mss [of p] by (simp add: q m set_cwnd UINT32_MAX_def)
qed

lemma samples_ok:
  "list_all (\<lambda>s. s < 2 ^ 32) samples \<Longrightarrow>
   metrics_ok (fold (\<lambda>s mo. snd (tcp_metrics_sample mo s)) samples (tcp_metrics_get mem_ok))"
proof -
  have "metrics_ok mo \<Longrightarrow> list_all (\<lambda>s. s < 2 ^ 32) samples \<Longrightarrow>
      metrics_ok (fold (\<lambda>s mo. snd (tcp_metrics_sample mo s)) samples mo)" for mo
    by (induction samples arbitrary: mo) (simp_all add: sample_ok)
  moreover have "metrics_ok (tcp_metrics_get mem_ok)" by (simp add: metrics_ok_def tcp_metrics_get_def)
  ultimately show "list_all (\<lambda>s. s < 2 ^ 32) samples \<Longrightarrow>
      metrics_ok (fold (\<lambda>s mo. snd (tcp_metrics_sample mo s)) samples (tcp_metrics_get mem_ok))" by blast
qed

section \<open>Properties\<close>

text \<open>
  C16. \<open>tcp_cubic_root\<close>, a binary search that tests \<open>mid \<le> value / mid / mid\<close> so as not to overflow,
  ends with the integer cube root of every 64-bit value.
\<close>

theorem cubic_root_is_floor:
  "v < 2 ^ 64 \<Longrightarrow> tcp_cubic_root v ^ 3 \<le> v \<and> v < (tcp_cubic_root v + 1) ^ 3"
  using cubic_root(1,2) [of v] by simp

theorem cubic_root_is_floor_witness: "tcp_cubic_root 1000 ^ 3 \<le> 1000 \<and> 1000 < (tcp_cubic_root 1000 + 1) ^ 3"
  using cubic_root_is_floor [of 1000] by simp




definition cong_example :: tcp_pcb where
  "cong_example = pcb_blank\<lparr>snd_mss := 1460, snd_cwnd := 14600, snd_ssthresh := 2920, now := 7\<rparr>"




end
