(* ===== verification/TcpOut.thy ===== *)
theory TcpOut
  imports TcpCong
begin

text \<open>
  The output half of \<^verbatim>\<open>src/main/tcp.c\<close>: TCP options, the retransmit queue, transmission of new
  and old segments, control segments, and the timer callback.

  \<open>next_ret\<close> yields the outcome of the next call that leaves the module: an allocation
  (\<open>skb_alloc\<close>, \<open>skb_clone\<close>, \<open>skb_split\<close>, room for \<open>skb_append_skb\<close>), the route lookup
  of \<open>set_tcp_socket_route\<close>, and \<open>ipv4_output\<close>/\<open>ipv6_output\<close>. A negative value is a failure.
\<close>

definition next_ret :: "tcp_pcb \<Rightarrow> int \<times> tcp_pcb" where
  "next_ret p = (case xmit_rets p of [] \<Rightarrow> (0, p) | r # rs \<Rightarrow> (r, p\<lparr>xmit_rets := rs\<rparr>))"

definition ENOMEM :: int where "ENOMEM = 12"
definition EHOSTUNREACH :: int where "EHOSTUNREACH = 113"
definition ETIMEDOUT :: int where "ETIMEDOUT = 110"

definition TCP_NAGLE_INTERVAL_MS_DEFAULT :: nat where "TCP_NAGLE_INTERVAL_MS_DEFAULT = 10"
definition TCP_CORK_TIMEOUT_MS_DEFAULT :: nat where "TCP_CORK_TIMEOUT_MS_DEFAULT = 200"
definition TCP_OUTPUT_BURST_MAX :: nat where "TCP_OUTPUT_BURST_MAX = 64"
definition TCP_CONNECT_RETRY_MAX :: nat where "TCP_CONNECT_RETRY_MAX = 8"
definition TCP_RCV_WND_SCALE_DEFAULT :: nat where "TCP_RCV_WND_SCALE_DEFAULT = 6"

section \<open>Options\<close>

definition tcp_predict_options_len :: "tcp_pcb \<Rightarrow> u8 \<Rightarrow> nat" where
  "tcp_predict_options_len p flags =
     (if has flags TCP_FLAG_SYN then 8 else 0) + (if peer_ts_ok p then 12 else 0)"

text \<open>
  The option bytes are written one after the other; \<open>opt\<close> is what has been written, so its length
  is \<open>pos\<close>. The rest of the \<open>opt_len\<close> bytes stays zero.
\<close>

definition syn_options :: "tcp_pcb \<Rightarrow> u8 \<Rightarrow> u8 list" where
  "syn_options p flags =
     (let opt = [2, 4] @ bytes_of_u16 (htons (ucast (rcv_mss p)))
      in if tcp_should_send_window_scale p flags
         then opt @ [1, 3, 3, of_nat TCP_RCV_WND_SCALE_DEFAULT]
         else opt @ replicate (8 - length opt) 1)"

definition timestamp_option :: "tcp_pcb \<Rightarrow> u8 list" where
  "timestamp_option p =
     [8, 10] @ bytes_of_u32 (htonl (of_nat (now p))) @ bytes_of_u32 (htonl (ts_recent p))"

definition option_bytes :: "tcp_pcb \<Rightarrow> u8 \<Rightarrow> u8 list" where
  "option_bytes p flags =
     (let opt = (if has flags TCP_FLAG_SYN then syn_options p flags else []);
          opt = (if peer_ts_ok p
                 then opt @ replicate ((4 - length opt mod 4) mod 4) 1 @ timestamp_option p else opt)
      in opt @ replicate ((4 - (20 + length opt) mod 4) mod 4) 1)"

definition make_tcp_options :: "u8 \<Rightarrow> tcp_pcb \<Rightarrow> u8 list \<times> tcp_pcb" where
  "make_tcp_options flags p =
     (let opt_len = tcp_predict_options_len p flags
      in if opt_len = 0 then ([], p)
         else let opt = option_bytes p flags
              in (opt @ replicate (opt_len - length opt) 0,
                  if has flags TCP_FLAG_SYN \<and> tcp_should_send_window_scale p flags
                  then p\<lparr>rcv_wnd_scale := TCP_RCV_WND_SCALE_DEFAULT, wnd_scale_sent := True\<rparr> else p))"

text \<open>
  One round of the option loop of \<open>parse_tcp_options\<close> on the bytes \<open>opt[i..]\<close>. The PAWS rejection
  returns \<open>-1\<close> at once and leaves what earlier options of the segment have already set.
\<close>

definition parse_mss :: "u8 list \<Rightarrow> tcp_pcb \<Rightarrow> tcp_pcb" where
  "parse_mss body p =
     (let mss = htons (le16 (body ! 0) (body ! 1))
      in if mss < 64 then p
         else p\<lparr>peer_mss := ucast mss, snd_mss := min (ucast mss) (rcv_mss p), peer_mss_ok := True\<rparr>)"

definition parse_wscale :: "u8 list \<Rightarrow> tcp_pcb \<Rightarrow> tcp_pcb" where
  "parse_wscale body p =
     p\<lparr>snd_wnd_scale := (if body ! 0 > 14 then 14 else unat (body ! 0)), peer_wnd_scale_ok := True\<rparr>"

definition parse_timestamps :: "u8 \<Rightarrow> u8 list \<Rightarrow> tcp_pcb \<Rightarrow> int \<times> tcp_pcb" where
  "parse_timestamps flags body p =
     (let tsval = htonl (load32 body);
          tsecr = htonl (load32 (drop 4 body))
      in if peer_ts_ok p \<and> tsval < ts_recent p then (- 1, p)
         else (0, (if has flags TCP_FLAG_SYN then p\<lparr>peer_ts_ok := True\<rparr> else p)
                      \<lparr>ts_recent := tsval, ts_last_tsecr := tsecr\<rparr>))"

function parse_options_loop :: "bool \<Rightarrow> u8 \<Rightarrow> u8 list \<Rightarrow> tcp_pcb \<Rightarrow> int \<times> tcp_pcb" where
  "parse_options_loop hs flags opt p =
     (case opt of
        [] \<Rightarrow> (0, p)
      | kind # rest \<Rightarrow>
          if kind = 0 then (0, p)
          else if kind = 1 then parse_options_loop hs flags rest p
          else (case rest of
                  [] \<Rightarrow> (0, p)
                | len # body \<Rightarrow>
                    if len < 2 \<or> unat len > length opt then (0, p)
                    else let next = drop (unat len) opt
                         in if kind = 2 \<and> len = 4 \<and> hs then parse_options_loop hs flags next (parse_mss body p)
                            else if kind = 3 \<and> len = 3 \<and> hs
                                 then parse_options_loop hs flags next (parse_wscale body p)
                            else if kind = 8 \<and> len = 10
                                 then (case parse_timestamps flags body p of
                                         (r, p) \<Rightarrow> if r < 0 then (r, p) else parse_options_loop hs flags next p)
                            else parse_options_loop hs flags next p))"
  by pat_completeness auto
termination
  by (relation "measure (\<lambda>(hs, flags, opt, p). length opt)")
    (auto simp: word_less_nat_alt not_less)

declare parse_options_loop.simps [simp del]

definition parse_tcp_options :: "u8 \<Rightarrow> u8 list \<Rightarrow> tcp_pcb \<Rightarrow> int \<times> tcp_pcb" where
  "parse_tcp_options flags opt p =
     (let is_handshake = (has flags TCP_FLAG_SYN \<and>
            (state p = TCP_STATE_SYN_SENT \<or> state p = TCP_STATE_SYN_RECEIVED));
          old_mss = snd_mss p
      in case parse_options_loop is_handshake flags opt p of
           (r, p) \<Rightarrow>
             if r < 0 then (r, p)
             else (0, if is_handshake \<and> snd_mss p \<noteq> old_mss then tcp_congestion_mss_changed p else p))"

section \<open>Segments\<close>

definition clear_flag :: "u8 \<Rightarrow> seg \<Rightarrow> seg" where
  "clear_flag f s = s\<lparr>s_flag := s_flag s AND NOT f\<rparr>"

definition add_flag :: "u8 \<Rightarrow> seg \<Rightarrow> seg" where
  "add_flag f s = s\<lparr>s_flag := s_flag s OR f\<rparr>"

definition tcp_retransmit_enqueue :: "seg \<Rightarrow> tcp_pcb \<Rightarrow> tcp_pcb" where
  "tcp_retransmit_enqueue skb p =
     (if tcp_skb_seq_len skb = 0 then p
      else let q = retransmit_queue p in
        if q \<noteq> [] \<and> s_flag skb = TCP_FLAG_ACK \<and> s_flag (last q) = TCP_FLAG_ACK \<and>
           skb_data_len skb \<le> snd_mss p div 3 \<and>
           skb_data_len (last q) + skb_data_len skb \<le> snd_mss p
        then (case next_ret p of
                (r, p) \<Rightarrow> if r \<ge> 0
                          then p\<lparr>retransmit_queue := butlast q @ [(last q)\<lparr>s_data := s_data (last q) @ s_data skb\<rparr>]\<rparr>
                          else p\<lparr>retransmit_queue := q @ [skb]\<rparr>)
        else p\<lparr>retransmit_queue := q @ [skb]\<rparr>)"

text \<open>What \<open>tcp_xmit_segment\<close> puts on the wire of a queued segment within a sequence budget.\<close>

definition wire_segment :: "seg \<Rightarrow> u32 \<Rightarrow> bool \<Rightarrow> seg" where
  "wire_segment skb seq_budget push =
     (let original_data_len = skb_data_len skb;
          syn_seq_len = (if has (s_flag skb) TCP_FLAG_SYN then 1 else 0);
          seq_budget = min seq_budget (tcp_skb_seq_len skb);
          payload_budget = (if seq_budget > syn_seq_len then seq_budget - syn_seq_len else 0);
          send_data_len = min original_data_len payload_budget;
          send_fin = (has (s_flag skb) TCP_FLAG_FIN \<and> seq_budget > syn_seq_len + original_data_len);
          s = (if send_data_len < original_data_len
               then skb\<lparr>s_data := take (unat send_data_len) (s_data skb)\<rparr> else skb);
          s = (if \<not> send_fin then clear_flag TCP_FLAG_FIN s else s)
      in if push \<and> send_data_len \<noteq> 0 then add_flag TCP_FLAG_PSH s else s)"

definition tcp_xmit_segment :: "seg \<Rightarrow> u32 \<Rightarrow> bool \<Rightarrow> tcp_pcb \<Rightarrow> int \<times> tcp_pcb" where
  "tcp_xmit_segment skb seq_budget push p =
     (case next_ret p of (r, p) \<Rightarrow>
        if r < 0 then (- ENOMEM, p)
        else let s = wire_segment skb seq_budget push in
          case next_ret p of (r, p) \<Rightarrow>
            if r < 0 then
              (- EHOSTUNREACH, emit (Notify notify_err) (set_sk (\<lambda>k. k\<lparr>sock_error := EHOSTUNREACH\<rparr>) p))
            else case make_tcp_options (s_flag s) p of (_, p) \<Rightarrow>
              case next_ret p of (r, p) \<Rightarrow>
                if r < 0 then (r, p)
                else let p = emit (Xmit s (rcv_nxt p)) p
                     in (r, if has (s_flag s) TCP_FLAG_ACK
                            then tcp_update_timer Ack 0 False (p\<lparr>ack_pending_segments := 0\<rparr>)
                            else p))"

definition tcp_commit_fin_send :: "tcp_pcb \<Rightarrow> tcp_pcb" where
  "tcp_commit_fin_send p =
     (case state p of
        TCP_STATE_SYN_RECEIVED \<Rightarrow> p\<lparr>state := TCP_STATE_FIN_WAIT_1\<rparr>
      | TCP_STATE_ESTABLISHED \<Rightarrow> p\<lparr>state := TCP_STATE_FIN_WAIT_1\<rparr>
      | TCP_STATE_CLOSE_WAIT \<Rightarrow> p\<lparr>state := TCP_STATE_LAST_ACK\<rparr>
      | _ \<Rightarrow> p)"

definition set_send_queue :: "seg list \<Rightarrow> tcp_pcb \<Rightarrow> tcp_pcb" where
  "set_send_queue q = set_sk (\<lambda>k. k\<lparr>send_queue := q\<rparr>)"

text \<open>
  The part of \<open>tcp_xmit_new_skb\<close> before the packet is submitted: the head of the send queue is
  split when the budget does not cover it. \<open>Inl\<close> is the allocation failure.
\<close>

definition split_head :: "seg \<Rightarrow> seg list \<Rightarrow> u32 \<Rightarrow> bool \<Rightarrow> u32 \<Rightarrow> seg \<times> seg list" where
  "split_head skb rest send_data_len send_fin send_seq_len =
     (let skb' = skb\<lparr>s_data := take (unat send_data_len) (s_data skb)\<rparr>;
          skb' = (if \<not> send_fin then clear_flag TCP_FLAG_FIN skb' else skb');
          tail_skb = \<lparr>s_seq = s_seq skb + send_seq_len, s_flag = s_flag skb,
                      s_data = drop (unat send_data_len) (s_data skb)\<rparr>
      in (skb', tail_skb # rest))"

definition tcp_xmit_new_skb :: "seg \<Rightarrow> seg list \<Rightarrow> u32 \<Rightarrow> bool \<Rightarrow> tcp_pcb \<Rightarrow> int \<times> tcp_pcb" where
  "tcp_xmit_new_skb skb rest seq_budget push p =
     (let original_data_len = skb_data_len skb;
          original_seq_len = tcp_skb_seq_len skb;
          seq_budget = min seq_budget original_seq_len;
          send_data_len = min original_data_len seq_budget;
          send_fin = (has (s_flag skb) TCP_FLAG_FIN \<and> seq_budget > original_data_len);
          send_seq_len = send_data_len + (if send_fin then 1 else 0);
          retry = tcp_update_timer Nagle (now p + TCP_NAGLE_INTERVAL_MS_DEFAULT) False;
          send = (\<lambda>skb rest p.
            case tcp_xmit_segment skb send_seq_len push p of (ret, p) \<Rightarrow>
              if ret < 0 then (ret, retry p)
              else let p = p\<lparr>snd_nxt := snd_nxt p + send_seq_len\<rparr>;
                       p = tcp_update_timer Retransmit (now p + retransmit_timeout p) False p;
                       p = (if send_fin then tcp_commit_fin_send p else p);
                       p = (if rtt_meas_time p = 0
                            then p\<lparr>rtt_meas_time := now p, rtt_meas_seq := s_seq skb\<rparr> else p);
                       p = set_send_queue rest p
                   in (ret, tcp_retransmit_enqueue skb p))
      in if send_seq_len < original_seq_len then
           case next_ret p of (r, p) \<Rightarrow>
             if r < 0 then (- ENOMEM, retry p)
             else case split_head skb rest send_data_len send_fin send_seq_len of (skb', rest') \<Rightarrow>
                    send skb' rest' (set_send_queue (skb' # rest') p)
         else send skb rest p)"

section \<open>Sending what the window allows\<close>

function write_xmit_loop :: "nat \<Rightarrow> bool \<Rightarrow> int \<Rightarrow> tcp_pcb \<Rightarrow> int \<times> tcp_pcb" where
  "write_xmit_loop sent_count flush_partial ret p =
     (case send_queue (sk p) of
        [] \<Rightarrow> (ret, p)
      | skb # rest \<Rightarrow>
          let win_min = min (snd_wnd p) (snd_cwnd p);
              window_end = snd_una p + win_min
          in if win_min = 0 \<or> SEQ_GEQ (s_seq skb) window_end then (ret, tcp_arm_persist p)
             else if cork p \<and> \<not> flush_partial \<and> \<not> has (s_flag skb) TCP_FLAG_FIN \<and> rest = [] \<and>
                     skb_data_len skb < tcp_data_mss p
                  then (ret, tcp_update_timer Nagle (now p + TCP_CORK_TIMEOUT_MS_DEFAULT) False p)
             else let seq_len = tcp_skb_seq_len skb;
                      seq_budget = min seq_len (window_end - s_seq skb);
                      push = (seq_budget = seq_len \<and> skb_data_len skb \<noteq> 0 \<and> rest = [])
                  in case tcp_xmit_new_skb skb rest seq_budget push p of (ret, p) \<Rightarrow>
                       if ret < 0 then (ret, p)
                       else if Suc sent_count \<ge> TCP_OUTPUT_BURST_MAX
                            then (ret, if send_queue (sk p) \<noteq> []
                                       then tcp_update_timer Nagle (now p) False p else p)
                       else write_xmit_loop (Suc sent_count) flush_partial ret p)"
  by pat_completeness auto
termination
  by (relation "measure (\<lambda>(c, f, r, p). TCP_OUTPUT_BURST_MAX - c)") auto

declare write_xmit_loop.simps [simp del]

definition tcp_write_xmit :: "bool \<Rightarrow> tcp_pcb \<Rightarrow> int \<times> tcp_pcb" where
  "tcp_write_xmit flush_partial p = write_xmit_loop 0 flush_partial 0 p"

definition tcp_retransmit_skb :: "seg \<Rightarrow> bool \<Rightarrow> tcp_pcb \<Rightarrow> int \<times> tcp_pcb" where
  "tcp_retransmit_skb skb probe p =
     (let send = (\<lambda>seq_budget. tcp_xmit_segment skb seq_budget False (p\<lparr>rtt_meas_time := 0\<rparr>));
          seq_budget = tcp_skb_seq_len skb
      in if probe then send (min seq_budget 1)
         else if \<not> has (s_flag skb) TCP_FLAG_SYN then
           (let win_min = min (snd_wnd p) (snd_cwnd p);
                window_end = snd_una p + win_min
            in if win_min = 0 \<or> SEQ_GEQ (s_seq skb) window_end then (0, p)
               else send (min seq_budget (window_end - s_seq skb)))
         else send seq_budget)"

text \<open>\<open>tcp_send_probe\<close> is called with something queued (the caller tests it).\<close>

definition tcp_send_probe :: "tcp_pcb \<Rightarrow> int \<times> tcp_pcb" where
  "tcp_send_probe p =
     (case retransmit_queue p of
        skb # _ \<Rightarrow> tcp_retransmit_skb skb True p
      | [] \<Rightarrow> (case send_queue (sk p) of
                skb # rest \<Rightarrow> tcp_xmit_new_skb skb rest (min (tcp_skb_seq_len skb) 1) False p
              | [] \<Rightarrow> (0, p)))"

definition tcp_retransmit_now :: "tcp_pcb \<Rightarrow> tcp_pcb" where
  "tcp_retransmit_now p =
     (case retransmit_queue p of
        [] \<Rightarrow> p
      | skb # _ \<Rightarrow> (case tcp_retransmit_skb skb False p of
          (_, p) \<Rightarrow> tcp_update_timer Retransmit (now p + retransmit_timeout p) True p))"

section \<open>Acknowledged data\<close>

fun ack_loop :: "u32 \<Rightarrow> seg list \<Rightarrow> u32 \<Rightarrow> bool \<Rightarrow> seg list \<times> u32 \<times> bool" where
  "ack_loop ack [] buffered acked = ([], buffered, acked)"
| "ack_loop ack (skb # q) buffered acked =
     (if SEQ_GT ack (s_seq skb) then
        if SEQ_GEQ ack (s_seq skb + tcp_skb_seq_len skb)
        then ack_loop ack q (buffered - skb_data_len skb) True
        else let consumed = ack - s_seq skb;
                 syn = has (s_flag skb) TCP_FLAG_SYN;
                 skb = (if syn \<and> consumed > 0 then clear_flag TCP_FLAG_SYN skb else skb);
                 consumed = (if syn \<and> consumed > 0 then consumed - 1 else consumed);
                 skb = skb\<lparr>s_data := drop (unat consumed) (s_data skb), s_seq := ack\<rparr>
             in (skb # q, buffered - consumed, True)
      else (skb # q, buffered, acked))"

definition tcp_update_retransmit_queue :: "tcp_pcb \<Rightarrow> tcp_pcb" where
  "tcp_update_retransmit_queue p =
     (case ack_loop (snd_una p) (retransmit_queue p) (send_buffer_len (sk p)) False of
        (q, buffered, acked) \<Rightarrow>
          let p = set_sk (\<lambda>k. k\<lparr>send_buffer_len := buffered\<rparr>) (p\<lparr>retransmit_queue := q\<rparr>);
              p = (if acked then
                     let p = emit (Notify notify_data_write)
                               (p\<lparr>retries_out := 0, retransmit_timeout := tcp_metrics_rto (metrics p)\<rparr>);
                         win_min = min (snd_wnd p) (snd_cwnd p)
                     in if send_queue (sk p) \<noteq> [] \<and> win_min \<noteq> 0 \<and> SEQ_LT (snd_nxt p) (snd_una p + win_min)
                        then tcp_update_timer Nagle (now p) False p else p
                   else p)
          in if retransmit_queue p = []
             then (tcp_update_timer Retransmit 0 True p)\<lparr>last_ack_repeat := 0\<rparr>
             else if acked then tcp_update_timer Retransmit (now p + retransmit_timeout p) True p
             else p)"

section \<open>Control segments\<close>

text \<open>
  A socket of the model always has its control block; the temporary socket of an unmatched packet,
  which has none, is not modelled here.
\<close>

definition tcp_send_flag :: "u32 \<Rightarrow> u32 \<Rightarrow> u8 \<Rightarrow> tcp_pcb \<Rightarrow> int \<times> tcp_pcb" where
  "tcp_send_flag sq ack flag p =
     (case next_ret p of (r, p) \<Rightarrow>
        if r < 0 then (- ENOMEM, p)
        else let finish = (\<lambda>p.
               case make_tcp_options flag p of (_, p) \<Rightarrow>
                 case next_ret p of (r, p) \<Rightarrow>
                   let p = (if r < 0 then p else emit (SendFlag sq ack flag) p)
                   in (r, if r \<ge> 0 \<and> has flag TCP_FLAG_ACK
                          then tcp_update_timer Ack 0 True (p\<lparr>ack_pending_segments := 0\<rparr>) else p))
             in if has flag TCP_FLAG_SYN then
                  case next_ret p of (r, p) \<Rightarrow>
                    if r < 0 then (- ENOMEM, p)
                    else let p = p\<lparr>retransmit_queue := retransmit_queue p @
                                     [\<lparr>s_seq = sq, s_flag = flag, s_data = []\<rparr>],
                                   snd_nxt := snd_nxt p + 1, snd_end := snd_end p + 1\<rparr>
                         in finish (tcp_update_timer Retransmit (now p + retransmit_timeout p) False p)
                else finish p)"

definition tcp_send_fin :: "tcp_pcb \<Rightarrow> tcp_pcb" where
  "tcp_send_fin p =
     (let finish = (\<lambda>p. let q = send_queue (sk p);
                            p = set_send_queue (butlast q @ [add_flag TCP_FLAG_FIN (last q)]) p;
                            p = p\<lparr>snd_end := snd_end p + 1\<rparr>
                        in tcp_update_timer Nagle (now p) False p)
      in if send_queue (sk p) = [] then
           case next_ret p of (r, p) \<Rightarrow>
             if r < 0 then p
             else finish (set_send_queue [\<lparr>s_seq = snd_end p, s_flag = TCP_FLAG_ACK, s_data = []\<rparr>] p)
         else finish p)"

section \<open>The timer callback\<close>

definition time_out :: "tcp_pcb \<Rightarrow> tcp_pcb" where
  "time_out p = destroy_tcp_socket (set_sk (\<lambda>k. k\<lparr>sock_error := ETIMEDOUT\<rparr>) p)"

definition retransmit_expired :: "tcp_pcb \<Rightarrow> tcp_pcb" where
  "retransmit_expired p =
     (case retransmit_queue p of
        [] \<Rightarrow> p
      | skb # _ \<Rightarrow>
          if state p = TCP_STATE_SYN_SENT \<or> state p = TCP_STATE_SYN_RECEIVED then
            (let tries = connect_retry_times p;
                 p = p\<lparr>connect_retry_times := tries + 1\<rparr>
             in if tries \<ge> TCP_CONNECT_RETRY_MAX then time_out p
                else let p = p\<lparr>connect_timeout := connect_timeout p * 2\<rparr>;
                         p = tcp_update_timer Retransmit (now p + connect_timeout p) True p
                     in snd (tcp_retransmit_skb skb False p))
          else
            (let tries = retries_out p;
                 p = p\<lparr>retries_out := tries + 1\<rparr>
             in if tries \<ge> retries_max p then time_out p
                else let p = tcp_congestion_on_timeout p;
                         p = p\<lparr>retransmit_timeout := tcp_metrics_backoff (retransmit_timeout p)\<rparr>;
                         p = tcp_update_timer Retransmit (now p + retransmit_timeout p) False p
                     in snd (tcp_retransmit_skb skb False p)))"

definition persist_expired :: "tcp_pcb \<Rightarrow> tcp_pcb" where
  "persist_expired p =
     (if snd_wnd p = 0 \<and> (retransmit_queue p \<noteq> [] \<or> send_queue (sk p) \<noteq> []) then
        (let tries = retries_out p;
             p = p\<lparr>retries_out := tries + 1\<rparr>
         in if tries \<ge> retries_max p then time_out p
            else let p = p\<lparr>persist_backoff := min (persist_backoff p * 2) TCP_PERSIST_BACKOFF_MS_MAX\<rparr>;
                     p = tcp_update_timer Persist (now p + persist_backoff p) True p
                 in snd (tcp_send_probe p))
      else p)"

definition keepalive_expired :: "tcp_pcb \<Rightarrow> tcp_pcb" where
  "keepalive_expired p =
     (if \<not> opt_keepalive (sk p) \<or> state p \<noteq> TCP_STATE_ESTABLISHED
      then p\<lparr>keepalive_repeat_count := 0\<rparr>
      else let tries = keepalive_repeat_count p;
               p = p\<lparr>keepalive_repeat_count := tries + 1\<rparr>
           in if tries \<ge> keepalive_repeat_max p then time_out p
              else let p = tcp_update_timer Keepalive (now p + keepalive_retry_timeout p) False p
                   in snd (tcp_send_flag (snd_una p - 1) (rcv_nxt p) TCP_FLAG_ACK p))"

definition tcp_timer_cb :: "tcp_pcb \<Rightarrow> tcp_pcb" where
  "tcp_timer_cb p =
     (case tcp_deadline_due Nagle p of (due, p) \<Rightarrow>
        if due then (if send_queue (sk p) \<noteq> [] then snd (tcp_write_xmit True p) else p)
      else case tcp_deadline_due Retransmit p of (due, p) \<Rightarrow>
        if due then retransmit_expired p
      else case tcp_deadline_due Ack p of (due, p) \<Rightarrow>
        if due then snd (tcp_send_flag (snd_nxt p) (rcv_nxt p) TCP_FLAG_ACK p)
      else case tcp_deadline_due Persist p of (due, p) \<Rightarrow>
        if due then persist_expired p
      else case tcp_deadline_due Timewait p of (due, p) \<Rightarrow>
        if due then destroy_tcp_socket p
      else case tcp_deadline_due Finwait2 p of (due, p) \<Rightarrow>
        if due then (if state p = TCP_STATE_FIN_WAIT_2 then destroy_tcp_socket p else p)
      else case tcp_deadline_due Keepalive p of (due, p) \<Rightarrow>
        if due then keepalive_expired p else p)"

end
