(* ===== verification/TcpSend.thy ===== *)
theory TcpSend
  imports TcpOut
begin

text \<open>
  The correctness of the output half of TCP: the send queue and the retransmit queue hold one
  contiguous stream between \<open>snd_una\<close>, \<open>snd_nxt\<close> and \<open>snd_end\<close>; sending moves bytes from one to
  the other without losing or reordering any and without leaving the window; an acknowledgement
  removes exactly the acknowledged bytes; while something is queued, a timer is armed.
\<close>

section \<open>Queues as streams\<close>

definition seg_len :: "seg \<Rightarrow> nat" where
  "seg_len s = length (s_data s) + (if has (s_flag s) TCP_FLAG_SYN then 1 else 0)
                                 + (if has (s_flag s) TCP_FLAG_FIN then 1 else 0)"

definition total :: "seg list \<Rightarrow> nat" where
  "total ss = sum_list (map seg_len ss)"

definition stream :: "seg list \<Rightarrow> u8 list" where
  "stream ss = concat (map s_data ss)"

fun contig :: "u32 \<Rightarrow> seg list \<Rightarrow> u32 \<Rightarrow> bool" where
  "contig a [] b \<longleftrightarrow> a = b"
| "contig a (s # ss) b \<longleftrightarrow> s_seq s = a \<and> contig (a + of_nat (seg_len s)) ss b"

lemma seq_len_of_nat: "tcp_skb_seq_len s = of_nat (seg_len s)"
  by (simp add: tcp_skb_seq_len_def skb_data_len_def seg_len_def)

lemma total_simps [simp]:
  "total [] = 0" "total (s # ss) = seg_len s + total ss" "total (xs @ ys) = total xs + total ys"
  by (simp_all add: total_def)

lemma stream_simps [simp]:
  "stream [] = []" "stream (s # ss) = s_data s @ stream ss" "stream (xs @ ys) = stream xs @ stream ys"
  by (simp_all add: stream_def)

lemma length_stream_le: "length (stream ss) \<le> total ss"
  by (induction ss) (auto simp: seg_len_def)

lemma contig_append:
  "contig a (xs @ ys) b \<longleftrightarrow> contig a xs (a + of_nat (total xs)) \<and> contig (a + of_nat (total xs)) ys b"
  by (induction xs arbitrary: a) (auto simp: add.assoc)

lemma contig_end: "contig a xs b \<Longrightarrow> b = a + of_nat (total xs)"
proof (induction xs arbitrary: a)
  case (Cons s ss)
  from Cons.IH [of "a + of_nat (seg_len s)"] Cons.prems show ?case by (simp add: add.assoc)
qed simp

lemma contig_total: "contig a xs (a + of_nat (total xs)) \<longleftrightarrow> (\<exists>b. contig a xs b)"
  by (auto dest: contig_end)

lemma unat_data_len: "length (s_data s) < 2 ^ 32 \<Longrightarrow> unat (skb_data_len s) = length (s_data s)"
  by (simp add: skb_data_len_def unat_of_nat_u32)

lemma unat_seq_len: "seg_len s < 2 ^ 32 \<Longrightarrow> unat (tcp_skb_seq_len s) = seg_len s"
  by (simp add: seq_len_of_nat unat_of_nat_u32)

section \<open>The invariant of the send side\<close>

definition snd_inv :: "tcp_pcb \<Rightarrow> bool" where
  "snd_inv p \<longleftrightarrow>
     contig (snd_una p) (retransmit_queue p) (snd_nxt p) \<and>
     contig (snd_nxt p) (send_queue (sk p)) (snd_end p) \<and>
     total (retransmit_queue p @ send_queue (sk p)) < 2 ^ 31 \<and>
     unat (send_buffer_len (sk p)) = length (stream (retransmit_queue p @ send_queue (sk p))) \<and>
     (\<forall>s \<in> set (retransmit_queue p @ send_queue (sk p)). 0 < seg_len s) \<and>
     (\<forall>s \<in> set (send_queue (sk p)). \<not> has (s_flag s) TCP_FLAG_SYN)"

definition unacked :: "tcp_pcb \<Rightarrow> u8 list" where
  "unacked p = stream (retransmit_queue p @ send_queue (sk p))"

text \<open>What submitting a packet leaves alone.\<close>

definition core where
  "core p = (state p, retransmit_queue p, send_queue (sk p), send_buffer_len (sk p), snd_una p,
     snd_nxt p, snd_end p, snd_wnd p, snd_cwnd p, snd_mss p, now p, retransmit_timeout p,
     rtt_meas_time p, rtt_meas_seq p, rcv_nxt p, cork p, peer_ts_ok p, metrics p, retries_out p)"

lemma core_eq:
  assumes "core p = core q"
  shows "state p = state q" "retransmit_queue p = retransmit_queue q" "send_queue (sk p) = send_queue (sk q)"
    "send_buffer_len (sk p) = send_buffer_len (sk q)" "snd_una p = snd_una q" "snd_nxt p = snd_nxt q"
    "snd_end p = snd_end q" "snd_wnd p = snd_wnd q" "snd_cwnd p = snd_cwnd q" "snd_mss p = snd_mss q"
    "now p = now q" "retransmit_timeout p = retransmit_timeout q" "rtt_meas_time p = rtt_meas_time q"
    "rcv_nxt p = rcv_nxt q" "cork p = cork q" "retries_out p = retries_out q"
  using assms by (simp_all add: core_def)

lemma snd_inv_core: "core p = core q \<Longrightarrow> snd_inv p = snd_inv q"
  by (simp add: snd_inv_def core_def)

lemma core_frame [simp]:
  "core (tcp_update_timer k d ov p) = core p" "core (emit x p) = core p"
  "core (p\<lparr>xmit_rets := rs\<rparr>) = core p" "core (p\<lparr>ack_pending_segments := n\<rparr>) = core p"
  "core (set_sk (\<lambda>k. k\<lparr>sock_error := e\<rparr>) p) = core p"
  "core (p\<lparr>rcv_wnd_scale := w, wnd_scale_sent := b\<rparr>) = core p"
  "core (tcp_arm_persist p) = core p"
  by (simp_all add: core_def emit_def set_sk_def)

lemma core_next_ret: "core (snd (next_ret p)) = core p"
  by (simp add: next_ret_def split: list.split)

lemma core_options: "core (snd (make_tcp_options f p)) = core p"
  by (simp add: make_tcp_options_def Let_def)

section \<open>Segments on the wire\<close>

lemma has_flags [simp]:
  "\<not> has TCP_FLAG_ACK TCP_FLAG_SYN" "\<not> has TCP_FLAG_ACK TCP_FLAG_FIN"
  "has (f AND NOT TCP_FLAG_FIN) TCP_FLAG_SYN = has f TCP_FLAG_SYN"
  "\<not> has (f AND NOT TCP_FLAG_FIN) TCP_FLAG_FIN"
  "has (f AND NOT TCP_FLAG_SYN) TCP_FLAG_FIN = has f TCP_FLAG_FIN"
  "\<not> has (f AND NOT TCP_FLAG_SYN) TCP_FLAG_SYN"
  "has (f OR TCP_FLAG_PSH) TCP_FLAG_SYN = has f TCP_FLAG_SYN"
  "has (f OR TCP_FLAG_PSH) TCP_FLAG_FIN = has f TCP_FLAG_FIN"
  "has (f OR TCP_FLAG_FIN) TCP_FLAG_SYN = has f TCP_FLAG_SYN"
  "has (f OR TCP_FLAG_FIN) TCP_FLAG_FIN"
  by (simp_all add: has_def TCP_FLAG_FIN_def TCP_FLAG_SYN_def TCP_FLAG_ACK_def TCP_FLAG_PSH_def
      and.assoc bit.conj_disj_distrib2)

lemma flag_fields [simp]:
  "s_seq (clear_flag f s) = s_seq s" "s_data (clear_flag f s) = s_data s"
  "s_seq (add_flag f s) = s_seq s" "s_data (add_flag f s) = s_data s"
  "s_flag (clear_flag f s) = s_flag s AND NOT f" "s_flag (add_flag f s) = s_flag s OR f"
  by (simp_all add: clear_flag_def add_flag_def)

text \<open>The wire form of a queued segment is a prefix of it that fits the budget.\<close>

lemma unat_min_word: "unat (min a b) = min (unat a) (unat b)" for a b :: "'a::len word"
  by (simp add: min_def word_le_nat_alt)

lemma wire_segment:
  assumes "seg_len skb < 2 ^ 32" "\<not> has (s_flag skb) TCP_FLAG_SYN"
  shows "s_seq (wire_segment skb b push) = s_seq skb"
    and "s_data (wire_segment skb b push) = take (unat b) (s_data skb)"
    and "seg_len (wire_segment skb b push) = min (unat b) (seg_len skb)"
proof -
  let ?n = "length (s_data skb)"
  have n: "?n \<le> seg_len skb" "?n < 2 ^ 32" using assms(1) by (simp_all add: seg_len_def)
  define B where "B = min b (tcp_skb_seq_len skb)"
  define d where "d = min (skb_data_len skb) B"
  define fin where "fin \<longleftrightarrow> has (s_flag skb) TCP_FLAG_FIN \<and> B > skb_data_len skb"
  define s1 where "s1 = (if d < skb_data_len skb then skb\<lparr>s_data := take (unat d) (s_data skb)\<rparr> else skb)"
  define s2 where "s2 = (if \<not> fin then clear_flag TCP_FLAG_FIN s1 else s1)"
  have B: "unat B = min (unat b) (seg_len skb)"
    by (simp add: B_def unat_min_word unat_seq_len [OF assms(1)])
  have d: "unat d = min ?n (unat b)" using n by (simp add: d_def unat_min_word unat_data_len B)
  have fin: "fin \<longleftrightarrow> has (s_flag skb) TCP_FLAG_FIN \<and> seg_len skb \<le> unat b"
    using n(2) assms(2) by (auto simp: fin_def word_less_nat_alt B unat_data_len seg_len_def)
  have s1: "s_seq s1 = s_seq skb" "s_flag s1 = s_flag skb" "s_data s1 = take (unat b) (s_data skb)"
    using n(2) by (auto simp: s1_def word_less_nat_alt d unat_data_len min_def)
  have "(if B > 0 then B - 0 else 0) = B" by (simp add: word_gt_0)
  then have w: "wire_segment skb b push = (if push \<and> d \<noteq> 0 then add_flag TCP_FLAG_PSH s2 else s2)"
    using assms(2)
    by (simp only: wire_segment_def Let_def if_False s2_def s1_def fin_def d_def B_def add_0_left)
  have f: "has (s_flag s2) TCP_FLAG_FIN = fin" "\<not> has (s_flag s2) TCP_FLAG_SYN"
    using assms(2) by (auto simp: s2_def s1 fin)
  show "s_seq (wire_segment skb b push) = s_seq skb" by (simp add: w s2_def s1)
  show "s_data (wire_segment skb b push) = take (unat b) (s_data skb)" by (simp add: w s2_def s1)
  then show "seg_len (wire_segment skb b push) = min (unat b) (seg_len skb)"
    using assms(2) f fin by (auto simp: seg_len_def w)
qed

section \<open>Submitting a packet\<close>

lemma next_ret_frame [simp]: "deadline (snd (next_ret p)) = deadline p" "outs (snd (next_ret p)) = outs p"
  by (simp_all add: next_ret_def split: list.split)

lemma options_frame [simp]:
  "deadline (snd (make_tcp_options f p)) = deadline p" "outs (snd (make_tcp_options f p)) = outs p"
  by (simp_all add: make_tcp_options_def Let_def)

lemma emit_frame [simp]: "deadline (emit x p) = deadline p" "outs (emit x p) = outs p @ [x]"
  by (simp_all add: emit_def)

lemma set_sk_frame [simp]: "deadline (set_sk f p) = deadline p" "outs (set_sk f p) = outs p"
  by (simp_all add: set_sk_def)

lemma update_timer_other: "k \<noteq> k' \<Longrightarrow> deadline (tcp_update_timer k' d ov p) k = deadline p k"
  by (simp add: update_timer_deadline)

lemma xmit_segment:
  assumes "tcp_xmit_segment skb b push p = (ret, q)"
  shows "core q = core p \<and> (\<forall>k. k \<noteq> Ack \<longrightarrow> deadline q k = deadline p k) \<and>
    (\<exists>os. outs q = outs p @ os \<and>
       (if 0 \<le> ret then os = [Xmit (wire_segment skb b push) (rcv_nxt p)] else \<forall>s a. Xmit s a \<notin> set os))"
proof -
  obtain r1 p1 where p1: "next_ret p = (r1, p1)" by fastforce
  obtain r2 p2 where p2: "next_ret p1 = (r2, p2)" by fastforce
  obtain bs p3 where p3: "make_tcp_options (s_flag (wire_segment skb b push)) p2 = (bs, p3)" by fastforce
  obtain r4 p4 where p4: "next_ret p3 = (r4, p4)" by fastforce
  have c: "core p1 = core p" "core p2 = core p" "core p3 = core p" "core p4 = core p"
    using core_next_ret [of p] core_next_ret [of p1] core_next_ret [of p3]
      core_options [of "s_flag (wire_segment skb b push)" p2] p1 p2 p3 p4 by simp_all
  have d: "deadline p1 = deadline p" "deadline p2 = deadline p" "deadline p4 = deadline p"
    and o: "outs p1 = outs p" "outs p2 = outs p" "outs p4 = outs p"
    using next_ret_frame [of p] next_ret_frame [of p1] next_ret_frame [of p3]
      options_frame [of "s_flag (wire_segment skb b push)" p2] p1 p2 p3 p4 by simp_all
  have e: "(ret, q) = (if r1 < 0 then (- ENOMEM, p1)
      else if r2 < 0 then (- EHOSTUNREACH, emit (Notify notify_err) (set_sk (\<lambda>k. k\<lparr>sock_error := EHOSTUNREACH\<rparr>) p2))
      else if r4 < 0 then (r4, p4)
      else (r4, if has (s_flag (wire_segment skb b push)) TCP_FLAG_ACK
                then tcp_update_timer Ack 0 False
                  ((emit (Xmit (wire_segment skb b push) (rcv_nxt p4)) p4)\<lparr>ack_pending_segments := 0\<rparr>)
                else emit (Xmit (wire_segment skb b push) (rcv_nxt p4)) p4))"
    unfolding assms [symmetric] tcp_xmit_segment_def p1 prod.case p2 p3 p4 Let_def by (simp only: p2 prod.case p3 p4)
  have "rcv_nxt p4 = rcv_nxt p" by (rule core_eq(14) [OF c(4)])
  then show ?thesis using e c d o
    by (simp add: ENOMEM_def EHOSTUNREACH_def update_timer_other split: if_splits)
qed

lemma core_rtx [simp]: "core (p\<lparr>xmit_rets := rs, retransmit_queue := q\<rparr>) = core (p\<lparr>retransmit_queue := q\<rparr>)"
  by (simp add: core_def)

lemma retransmit_enqueue_cases:
  assumes "0 < seg_len s" "seg_len s < 2 ^ 32"
  shows "\<exists>rs q. tcp_retransmit_enqueue s p = p\<lparr>xmit_rets := rs, retransmit_queue := q\<rparr> \<and>
    (q = retransmit_queue p @ [s] \<or>
     (retransmit_queue p \<noteq> [] \<and> s_flag s = TCP_FLAG_ACK \<and> s_flag (last (retransmit_queue p)) = TCP_FLAG_ACK \<and>
      q = butlast (retransmit_queue p) @
          [(last (retransmit_queue p))\<lparr>s_data := s_data (last (retransmit_queue p)) @ s_data s\<rparr>]))"
proof -
  have "tcp_skb_seq_len s \<noteq> 0" using assms unat_seq_len [OF assms(2)] by auto
  then show ?thesis
  proof (cases "retransmit_queue p \<noteq> [] \<and> s_flag s = TCP_FLAG_ACK \<and>
      s_flag (last (retransmit_queue p)) = TCP_FLAG_ACK \<and> skb_data_len s \<le> snd_mss p div 3 \<and>
      skb_data_len (last (retransmit_queue p)) + skb_data_len s \<le> snd_mss p")
    case c: True
    obtain r rs where r: "next_ret p = (r, p\<lparr>xmit_rets := rs\<rparr>)"
    proof (cases "xmit_rets p")
      case Nil
      then have "next_ret p = (0, p\<lparr>xmit_rets := xmit_rets p\<rparr>)" by (simp add: next_ret_def)
      then show thesis by (rule that)
    next
      case (Cons r rs)
      then have "next_ret p = (r, p\<lparr>xmit_rets := rs\<rparr>)" by (simp add: next_ret_def)
      then show thesis by (rule that)
    qed
    show ?thesis
      using c \<open>tcp_skb_seq_len s \<noteq> 0\<close>
      by (cases "0 \<le> r") (auto simp: tcp_retransmit_enqueue_def Let_def r)
  next
    case False
    then have "tcp_retransmit_enqueue s p =
        p\<lparr>xmit_rets := xmit_rets p, retransmit_queue := retransmit_queue p @ [s]\<rparr>"
      using \<open>tcp_skb_seq_len s \<noteq> 0\<close> unfolding tcp_retransmit_enqueue_def Let_def
      by (simp only: if_False) simp
    then show ?thesis by blast
  qed
qed

lemma retransmit_enqueue:
  assumes "0 < seg_len s" "seg_len s < 2 ^ 32" "contig u (retransmit_queue p @ [s]) e"
    "\<forall>x \<in> set (retransmit_queue p). 0 < seg_len x"
  defines "q \<equiv> tcp_retransmit_enqueue s p"
  shows "contig u (retransmit_queue q) e" "stream (retransmit_queue q) = stream (retransmit_queue p) @ s_data s"
    "total (retransmit_queue q) = total (retransmit_queue p) + seg_len s"
    "\<forall>x \<in> set (retransmit_queue q). 0 < seg_len x" "retransmit_queue q \<noteq> []"
    "core q = core (p\<lparr>retransmit_queue := retransmit_queue q\<rparr>)" "deadline q = deadline p" "outs q = outs p"
proof -
  obtain rs r where r: "q = p\<lparr>xmit_rets := rs, retransmit_queue := r\<rparr>"
    "r = retransmit_queue p @ [s] \<or>
     (retransmit_queue p \<noteq> [] \<and> s_flag s = TCP_FLAG_ACK \<and> s_flag (last (retransmit_queue p)) = TCP_FLAG_ACK \<and>
      r = butlast (retransmit_queue p) @
          [(last (retransmit_queue p))\<lparr>s_data := s_data (last (retransmit_queue p)) @ s_data s\<rparr>])"
    using retransmit_enqueue_cases [OF assms(1,2), of p] unfolding q_def by blast
  have "contig u r e \<and> stream r = stream (retransmit_queue p) @ s_data s \<and>
      total r = total (retransmit_queue p) + seg_len s \<and> (\<forall>x \<in> set r. 0 < seg_len x) \<and> r \<noteq> []"
    using r(2)
  proof (elim disjE conjE)
    assume "r = retransmit_queue p @ [s]"
    with assms(1,3,4) show ?thesis by auto
  next
    assume m: "retransmit_queue p \<noteq> []" "s_flag s = TCP_FLAG_ACK"
      "s_flag (last (retransmit_queue p)) = TCP_FLAG_ACK"
      "r = butlast (retransmit_queue p) @
          [(last (retransmit_queue p))\<lparr>s_data := s_data (last (retransmit_queue p)) @ s_data s\<rparr>]"
    then obtain xs x where x: "retransmit_queue p = xs @ [x]" by (metis rev_exhaust)
    have "seg_len x = length (s_data x)" "seg_len s = length (s_data s)"
      "seg_len (x\<lparr>s_data := s_data x @ s_data s\<rparr>) = length (s_data x) + length (s_data s)"
      using m(2,3) by (simp_all add: seg_len_def x)
    with m(4) assms(1,3,4) show ?thesis by (auto simp: x contig_append add.assoc)
  qed
  with r(1) show "contig u (retransmit_queue q) e"
    "stream (retransmit_queue q) = stream (retransmit_queue p) @ s_data s"
    "total (retransmit_queue q) = total (retransmit_queue p) + seg_len s"
    "\<forall>x \<in> set (retransmit_queue q). 0 < seg_len x" "retransmit_queue q \<noteq> []"
    "core q = core (p\<lparr>retransmit_queue := retransmit_queue q\<rparr>)" "deadline q = deadline p" "outs q = outs p"
    by simp_all
qed

section \<open>New data\<close>

text \<open>The head of the send queue as \<open>tcp_xmit_new_skb\<close> leaves it: what it sends and what stays.\<close>

definition head_split :: "seg \<Rightarrow> seg list \<Rightarrow> nat \<Rightarrow> seg \<times> seg list" where
  "head_split skb rest n =
     (if seg_len skb \<le> n then (skb, rest)
      else (clear_flag TCP_FLAG_FIN (skb\<lparr>s_data := take n (s_data skb)\<rparr>),
            \<lparr>s_seq = s_seq skb + of_nat n, s_flag = s_flag skb, s_data = drop n (s_data skb)\<rparr> # rest))"

lemma head_split:
  assumes "head_split skb rest n = (s, ss)" "0 < n" "0 < seg_len skb" "\<not> has (s_flag skb) TCP_FLAG_SYN"
  shows "seg_len s = min n (seg_len skb)" "s_data s @ stream ss = s_data skb @ stream rest"
    "total ss + seg_len s = seg_len skb + total rest" "s_seq s = s_seq skb"
    "contig a (skb # rest) e \<Longrightarrow> contig (a + of_nat (seg_len s)) ss e"
    "(\<forall>x \<in> set rest. 0 < seg_len x) \<Longrightarrow> \<forall>x \<in> set ss. 0 < seg_len x"
    "(\<forall>x \<in> set rest. \<not> has (s_flag x) TCP_FLAG_SYN) \<Longrightarrow> \<forall>x \<in> set ss. \<not> has (s_flag x) TCP_FLAG_SYN"
    "\<not> has (s_flag s) TCP_FLAG_SYN"
proof -
  have l: "seg_len s = min n (seg_len skb) \<and> s_data s @ stream ss = s_data skb @ stream rest \<and>
      total ss + seg_len s = seg_len skb + total rest \<and> s_seq s = s_seq skb"
    using assms by (auto simp: head_split_def seg_len_def min_def split: if_splits)
  then show "seg_len s = min n (seg_len skb)" "s_data s @ stream ss = s_data skb @ stream rest"
    "total ss + seg_len s = seg_len skb + total rest" "s_seq s = s_seq skb" by blast+
  show "contig (a + of_nat (seg_len s)) ss e" if c: "contig a (skb # rest) e"
  proof (cases "seg_len skb \<le> n")
    case True
    with assms(1) c show ?thesis by (simp add: head_split_def)
  next
    case False
    define tail where "tail = \<lparr>s_seq = s_seq skb + of_nat n, s_flag = s_flag skb, s_data = drop n (s_data skb)\<rparr>"
    have t: "ss = tail # rest" "seg_len s = n" using False assms(1) l by (auto simp: head_split_def tail_def)
    have "n + seg_len tail = seg_len skb"
      using False assms(4) by (auto simp: tail_def seg_len_def split: if_splits)
    then have "a + of_nat n + of_nat (seg_len tail) = a + of_nat (seg_len skb)"
      by (metis add.assoc of_nat_add)
    note eq = this
    have "s_seq tail = s_seq skb + of_nat n" by (simp add: tail_def)
    with c show ?thesis unfolding t contig.simps eq by simp
  qed
  show "\<forall>x \<in> set ss. 0 < seg_len x" if "\<forall>x \<in> set rest. 0 < seg_len x"
    using assms that by (auto simp: head_split_def seg_len_def split: if_splits)
  show "\<forall>x \<in> set ss. \<not> has (s_flag x) TCP_FLAG_SYN" if "\<forall>x \<in> set rest. \<not> has (s_flag x) TCP_FLAG_SYN"
    using assms that by (auto simp: head_split_def split: if_splits)
  show "\<not> has (s_flag s) TCP_FLAG_SYN" using assms by (auto simp: head_split_def split: if_splits)
qed

definition retry_soon :: "tcp_pcb \<Rightarrow> tcp_pcb" where
  "retry_soon p = tcp_update_timer Nagle (now p + TCP_NAGLE_INTERVAL_MS_DEFAULT) False p"

definition sent_new :: "seg \<Rightarrow> seg list \<Rightarrow> tcp_pcb \<Rightarrow> tcp_pcb" where
  "sent_new s ss p =
     (let p = p\<lparr>snd_nxt := snd_nxt p + of_nat (seg_len s)\<rparr>;
          p = tcp_update_timer Retransmit (now p + retransmit_timeout p) False p;
          p = (if has (s_flag s) TCP_FLAG_FIN then tcp_commit_fin_send p else p);
          p = (if rtt_meas_time p = 0 then p\<lparr>rtt_meas_time := now p, rtt_meas_seq := s_seq s\<rparr> else p)
      in tcp_retransmit_enqueue s (set_send_queue ss p))"

definition send_new :: "seg \<Rightarrow> seg list \<Rightarrow> bool \<Rightarrow> tcp_pcb \<Rightarrow> int \<times> tcp_pcb" where
  "send_new s ss push p =
     (case tcp_xmit_segment s (of_nat (seg_len s)) push p of
        (ret, p) \<Rightarrow> if ret < 0 then (ret, retry_soon p) else (ret, sent_new s ss p))"

lemma now_frame [simp]:
  "now (snd (next_ret p)) = now p" "now (set_send_queue q p) = now p"
  by (simp_all add: next_ret_def set_send_queue_def set_sk_def split: list.split)

lemma xmit_segment_now: "now (snd (tcp_xmit_segment s b push p)) = now p"
  using xmit_segment [of s b push p] core_eq(11) by (metis prod.collapse)

lemma xmit_new_skb_alt:
  assumes "seg_len skb < 2 ^ 32" "\<not> has (s_flag skb) TCP_FLAG_SYN" "0 < b"
    and "head_split skb rest (unat b) = (s, ss)" "0 < seg_len skb"
  shows "tcp_xmit_new_skb skb rest b push p =
     (if seg_len skb \<le> unat b then send_new s ss push p
      else case next_ret p of (r, p) \<Rightarrow>
        if r < 0 then (- ENOMEM, retry_soon p) else send_new s ss push (set_send_queue (s # ss) p))"
proof -
  let ?n = "length (s_data skb)"
  have n: "?n \<le> seg_len skb" "?n < 2 ^ 32" "seg_len skb = ?n + (if has (s_flag skb) TCP_FLAG_FIN then 1 else 0)"
    using assms(1,2) by (simp_all add: seg_len_def)
  define B where "B = min b (tcp_skb_seq_len skb)"
  define d where "d = min (skb_data_len skb) B"
  define fin where "fin \<longleftrightarrow> has (s_flag skb) TCP_FLAG_FIN \<and> B > skb_data_len skb"
  define L where "L = d + (if fin then 1 else 0)"
  have B: "unat B = min (unat b) (seg_len skb)"
    by (simp add: B_def unat_min_word unat_seq_len [OF assms(1)])
  have d: "unat d = min ?n (unat b)" using n by (simp add: d_def unat_min_word unat_data_len B)
  have fin: "fin \<longleftrightarrow> has (s_flag skb) TCP_FLAG_FIN \<and> seg_len skb \<le> unat b"
    using n by (auto simp: fin_def word_less_nat_alt B unat_data_len)
  have uL: "unat L = min (unat b) (seg_len skb)"
  proof (cases fin)
    case True
    then have "unat d = ?n" "?n + 1 = seg_len skb" "?n + 1 \<le> unat b" using fin d n(3) by auto
    moreover from this have "unat (d + 1) = unat d + 1" using assms(1) by (simp add: unat_word_ariths)
    ultimately show ?thesis using True by (simp add: L_def)
  next
    case False
    then show ?thesis using fin d n(3) by (auto simp: L_def min_def)
  qed
  have sl: "seg_len s = min (unat b) (seg_len skb)"
    using assms(2,3,5) by (intro head_split(1) [OF assms(4)]) (auto simp: word_less_nat_alt)
  have "L = of_nat (unat L)" by simp
  then have L1: "L = of_nat (seg_len s)" unfolding uL sl .
  have L2: "L < tcp_skb_seq_len skb \<longleftrightarrow> \<not> seg_len skb \<le> unat b"
    by (auto simp: word_less_nat_alt unat_seq_len [OF assms(1)] uL)
  note L = L1 L2
  have s: "fin \<longleftrightarrow> has (s_flag s) TCP_FLAG_FIN"
    using assms(4) by (auto simp: fin head_split_def split: if_splits)
  have sp: "split_head skb rest d fin L = (s, ss)" if "\<not> seg_len skb \<le> unat b"
  proof -
    have "unat d = unat b" "\<not> fin" using that d n(3) fin by (auto split: if_splits)
    then show ?thesis using that assms(4) sl by (simp add: split_head_def head_split_def L(1) Let_def)
  qed
  have ss: "s = skb" "ss = rest" if "seg_len skb \<le> unat b" using that assms(4) by (simp_all add: head_split_def)
  define snd_fn where "snd_fn = (\<lambda>skb rest q. case tcp_xmit_segment skb L push q of (ret, q) \<Rightarrow>
      if ret < 0 then (ret, tcp_update_timer Nagle (now p + TCP_NAGLE_INTERVAL_MS_DEFAULT) False q)
      else (ret, tcp_retransmit_enqueue skb (set_send_queue rest
        (let q = q\<lparr>snd_nxt := snd_nxt q + L\<rparr>;
             q = tcp_update_timer Retransmit (now q + retransmit_timeout q) False q;
             q = (if fin then tcp_commit_fin_send q else q)
         in if rtt_meas_time q = 0 then q\<lparr>rtt_meas_time := now q, rtt_meas_seq := s_seq skb\<rparr> else q))))"
  have fn: "snd_fn s ss q = send_new s ss push q" if "now q = now p" for q
    using xmit_segment_now [of s L push q] that
    by (cases "tcp_xmit_segment s L push q")
      (simp add: snd_fn_def send_new_def retry_soon_def sent_new_def Let_def L(1) s)
  have "tcp_xmit_new_skb skb rest b push p =
     (if L < tcp_skb_seq_len skb then
        case next_ret p of (r, q) \<Rightarrow>
          if r < 0 then (- ENOMEM, tcp_update_timer Nagle (now p + TCP_NAGLE_INTERVAL_MS_DEFAULT) False q)
          else case split_head skb rest d fin L of (skb', rest') \<Rightarrow>
                 snd_fn skb' rest' (set_send_queue (skb' # rest') q)
      else snd_fn skb rest p)"
    unfolding tcp_xmit_new_skb_def snd_fn_def L_def fin_def d_def B_def Let_def ..
  then show ?thesis
    using fn [of p] fn [of "set_send_queue (s # ss) (snd (next_ret p))"] sp ss now_frame(1) [of p]
    by (cases "next_ret p") (auto simp: L(2) retry_soon_def)
qed

lemma set_send_queue_fields [simp]:
  "send_queue (sk (set_send_queue q p)) = q" "retransmit_queue (set_send_queue q p) = retransmit_queue p"
  "send_buffer_len (sk (set_send_queue q p)) = send_buffer_len (sk p)" "snd_una (set_send_queue q p) = snd_una p"
  "snd_nxt (set_send_queue q p) = snd_nxt p" "snd_end (set_send_queue q p) = snd_end p"
  "snd_wnd (set_send_queue q p) = snd_wnd p" "snd_cwnd (set_send_queue q p) = snd_cwnd p"
  "retransmit_timeout (set_send_queue q p) = retransmit_timeout p" "cork (set_send_queue q p) = cork p"
  "deadline (set_send_queue q p) = deadline p" "outs (set_send_queue q p) = outs p"
  "rcv_nxt (set_send_queue q p) = rcv_nxt p"
  by (simp_all add: set_send_queue_def set_sk_def)

lemma snd_inv_split:
  assumes "snd_inv p" "send_queue (sk p) = skb # rest" "head_split skb rest n = (s, ss)" "0 < n"
  shows "snd_inv (set_send_queue (s # ss) p)" "unacked (set_send_queue (s # ss) p) = unacked p"
    "\<not> has (s_flag s) TCP_FLAG_SYN" "0 < seg_len s" "seg_len s < 2 ^ 31" "s_seq s = snd_nxt p"
proof -
  have i: "0 < seg_len skb" "\<not> has (s_flag skb) TCP_FLAG_SYN" "contig (snd_nxt p) (skb # rest) (snd_end p)"
    "\<forall>x \<in> set rest. 0 < seg_len x" "\<forall>x \<in> set rest. \<not> has (s_flag x) TCP_FLAG_SYN"
    "seg_len skb + total rest + total (retransmit_queue p) < 2 ^ 31"
    using assms(1,2) by (auto simp: snd_inv_def)
  note h = head_split [OF assms(3,4) i(1,2)]
  show sl: "0 < seg_len s" "seg_len s < 2 ^ 31" "s_seq s = snd_nxt p" "\<not> has (s_flag s) TCP_FLAG_SYN"
    using assms(4) i(1,3,6) h(1,4,8) by auto
  have st: "stream (s # ss) = stream (skb # rest)" "total (s # ss) = total (skb # rest)" using h(2,3) by auto
  then show "unacked (set_send_queue (s # ss) p) = unacked p" by (simp add: unacked_def assms(2))
  show "snd_inv (set_send_queue (s # ss) p)"
    using assms(1) st arg_cong [OF st(1), of length] h(5) [OF i(3)] h(6) [OF i(4)] h(7) [OF i(5)] sl
    by (auto simp: snd_inv_def assms(2))
qed

lemma commit_fin_fields [simp]:
  "snd_una (tcp_commit_fin_send p) = snd_una p" "snd_nxt (tcp_commit_fin_send p) = snd_nxt p"
  "snd_end (tcp_commit_fin_send p) = snd_end p" "retransmit_queue (tcp_commit_fin_send p) = retransmit_queue p"
  "sk (tcp_commit_fin_send p) = sk p" "deadline (tcp_commit_fin_send p) = deadline p"
  "outs (tcp_commit_fin_send p) = outs p" "now (tcp_commit_fin_send p) = now p"
  "snd_wnd (tcp_commit_fin_send p) = snd_wnd p" "snd_cwnd (tcp_commit_fin_send p) = snd_cwnd p"
  "retransmit_timeout (tcp_commit_fin_send p) = retransmit_timeout p" "cork (tcp_commit_fin_send p) = cork p"
  "rtt_meas_time (tcp_commit_fin_send p) = rtt_meas_time p"
  by (simp_all add: tcp_commit_fin_send_def split: tcp_state.split)

text \<open>The fields of the control block that sending does not change, and the window.\<close>

definition same_conn :: "tcp_pcb \<Rightarrow> tcp_pcb \<Rightarrow> bool" where
  "same_conn p q \<longleftrightarrow> snd_una q = snd_una p \<and> snd_end q = snd_end p \<and> snd_wnd q = snd_wnd p \<and>
     snd_cwnd q = snd_cwnd p \<and> now q = now p \<and> retransmit_timeout q = retransmit_timeout p \<and> cork q = cork p"

lemma same_conn_trans: "same_conn p q \<Longrightarrow> same_conn q r \<Longrightarrow> same_conn p r"
  by (simp add: same_conn_def)

lemma same_conn_core: "core q = core p \<Longrightarrow> same_conn p q"
  by (simp add: same_conn_def core_def)

lemma sent_new:
  assumes inv: "snd_inv p" "send_queue (sk p) = s # ss"
  defines "q \<equiv> sent_new s ss p"
  shows "snd_inv q" "unacked q = unacked p" "same_conn p q" "outs q = outs p"
    "send_queue (sk q) = ss" "0 < now p \<Longrightarrow> deadline q Retransmit \<noteq> 0"
    "k \<noteq> Retransmit \<Longrightarrow> deadline q k = deadline p k"
proof -
  have i: "contig (snd_una p) (retransmit_queue p) (snd_nxt p)" "s_seq s = snd_nxt p" "0 < seg_len s"
    "contig (snd_nxt p + of_nat (seg_len s)) ss (snd_end p)"
    "seg_len s + total ss + total (retransmit_queue p) < 2 ^ 31"
    "\<forall>x \<in> set (retransmit_queue p). 0 < seg_len x"
    using inv by (auto simp: snd_inv_def)
  define p1 where "p1 = tcp_update_timer Retransmit (now p + retransmit_timeout p) False
     (p\<lparr>snd_nxt := snd_nxt p + of_nat (seg_len s)\<rparr>)"
  define p2 where "p2 = (if has (s_flag s) TCP_FLAG_FIN then tcp_commit_fin_send p1 else p1)"
  define p3 where "p3 = set_send_queue ss
     (if rtt_meas_time p2 = 0 then p2\<lparr>rtt_meas_time := now p2, rtt_meas_seq := s_seq s\<rparr> else p2)"
  have q: "q = tcp_retransmit_enqueue s p3"
    by (simp add: q_def sent_new_def p1_def p2_def p3_def Let_def)
  have f: "snd_una p3 = snd_una p" "snd_nxt p3 = snd_nxt p + of_nat (seg_len s)" "snd_end p3 = snd_end p"
    "retransmit_queue p3 = retransmit_queue p" "send_queue (sk p3) = ss"
    "send_buffer_len (sk p3) = send_buffer_len (sk p)" "snd_wnd p3 = snd_wnd p" "snd_cwnd p3 = snd_cwnd p"
    "now p3 = now p" "retransmit_timeout p3 = retransmit_timeout p" "cork p3 = cork p" "outs p3 = outs p"
    "deadline p3 = deadline p1"
    by (simp_all add: p3_def p2_def p1_def)
  have c3: "contig (snd_una p) (retransmit_queue p3 @ [s]) (snd_nxt p + of_nat (seg_len s))"
    using i(1,2) contig_end [OF i(1)] by (simp add: contig_append f)
  have n3: "\<forall>x \<in> set (retransmit_queue p3). 0 < seg_len x" using i(6) by (simp add: f)
  have "seg_len s < 2 ^ 32" using i(5) by simp
  note e = retransmit_enqueue [OF i(3) this c3 n3, folded q]
  note c = core_eq [OF e(6)]
  show "send_queue (sk q) = ss" "outs q = outs p" "same_conn p q"
    using c f e(8) by (simp_all add: same_conn_def)
  show "unacked q = unacked p" using c e(2) inv(2) f by (simp add: unacked_def)
  show "snd_inv q" unfolding snd_inv_def
    using c e(1,2,3,4) inv i f by (simp add: snd_inv_def ball_Un)
  show "0 < now p \<Longrightarrow> deadline q Retransmit \<noteq> 0" using e(7) f(13)
    by (auto simp: p1_def update_timer_deadline timer_moves_def)
  show "k \<noteq> Retransmit \<Longrightarrow> deadline q k = deadline p k" using e(7) f(13)
    by (simp add: p1_def update_timer_other)
qed

lemma update_timer_keeps:
  "d \<noteq> 0 \<Longrightarrow> deadline p k \<noteq> 0 \<Longrightarrow> deadline (tcp_update_timer k' d ov p) k \<noteq> 0"
  "d \<noteq> 0 \<Longrightarrow> deadline (tcp_update_timer k d ov p) k \<noteq> 0"
  by (auto simp: update_timer_deadline timer_moves_def)

text \<open>
  \<open>xmit_ok\<close>: a transmission step keeps the invariant, the unacknowledged stream and the window;
  what it puts on the wire lies in the window; armed timers other than the delayed
  acknowledgement stay armed.
\<close>

definition in_window :: "tcp_pcb \<Rightarrow> seg \<Rightarrow> bool" where
  "in_window p s \<longleftrightarrow> dist (snd_una p) (s_seq s) + seg_len s \<le> unat (min (snd_wnd p) (snd_cwnd p))"

definition xmit_ok :: "tcp_pcb \<Rightarrow> tcp_pcb \<Rightarrow> bool" where
  "xmit_ok p q \<longleftrightarrow> snd_inv q \<and> unacked q = unacked p \<and> same_conn p q \<and>
     (\<exists>os. outs q = outs p @ os \<and> (\<forall>s a. Xmit s a \<in> set os \<longrightarrow> in_window p s)) \<and>
     (\<forall>k. k \<noteq> Ack \<longrightarrow> deadline p k \<noteq> 0 \<longrightarrow> deadline q k \<noteq> 0)"

lemma in_window_same: "same_conn p q \<Longrightarrow> in_window q s = in_window p s"
  by (simp add: in_window_def same_conn_def)

lemma xmit_ok_trans:
  assumes "xmit_ok p q" "xmit_ok q r" shows "xmit_ok p r"
proof -
  obtain os os' where "outs q = outs p @ os" "\<forall>s a. Xmit s a \<in> set os \<longrightarrow> in_window p s"
    "outs r = outs q @ os'" "\<forall>s a. Xmit s a \<in> set os' \<longrightarrow> in_window q s"
    using assms unfolding xmit_ok_def by blast
  moreover have c: "same_conn p q" "same_conn q r" using assms by (simp_all add: xmit_ok_def)
  ultimately have "outs r = outs p @ (os @ os')" "\<forall>s a. Xmit s a \<in> set (os @ os') \<longrightarrow> in_window p s"
    by (auto simp: in_window_same)
  then have "\<exists>os. outs r = outs p @ os \<and> (\<forall>s a. Xmit s a \<in> set os \<longrightarrow> in_window p s)" by blast
  then show ?thesis using assms same_conn_trans [OF c] by (simp add: xmit_ok_def)
qed

lemma xmit_ok_timer: "snd_inv p \<Longrightarrow> d \<noteq> 0 \<Longrightarrow> xmit_ok p (tcp_update_timer k d ov p)"
  using snd_inv_core [of "tcp_update_timer k d ov p" p]
  by (simp add: xmit_ok_def unacked_def same_conn_core update_timer_keeps)

lemma xmit_ok_refl: "snd_inv p \<Longrightarrow> xmit_ok p p"
  by (simp add: xmit_ok_def same_conn_def)

lemma xmit_ok_core:
  assumes "snd_inv p" "core q = core p" "\<forall>k. k \<noteq> Ack \<longrightarrow> deadline q k = deadline p k"
    "outs q = outs p @ os" "\<forall>s a. Xmit s a \<in> set os \<longrightarrow> in_window p s"
  shows "xmit_ok p q"
  using assms snd_inv_core [OF assms(2)] same_conn_core [OF assms(2)] core_eq(2,3) [OF assms(2)]
  by (auto simp: xmit_ok_def unacked_def)

lemma send_new:
  assumes "snd_inv p" "send_queue (sk p) = s # ss" "0 < now p"
    "dist (snd_una p) (s_seq s) + seg_len s \<le> unat (min (snd_wnd p) (snd_cwnd p))"
    "send_new s ss push p = (ret, q)"
  shows "xmit_ok p q" "if ret < 0 then deadline q Nagle \<noteq> 0 else deadline q Retransmit \<noteq> 0"
proof -
  obtain r p1 where e: "tcp_xmit_segment s (of_nat (seg_len s)) push p = (r, p1)" by fastforce
  have sl: "seg_len s < 2 ^ 32" "\<not> has (s_flag s) TCP_FLAG_SYN" using assms(1,2) by (auto simp: snd_inv_def)
  note w = wire_segment [OF sl, of "of_nat (seg_len s)" push]
  have "in_window p (wire_segment s (of_nat (seg_len s)) push)"
    using assms(4) by (simp add: in_window_def w unat_of_nat_u32 sl(1))
  with xmit_segment [OF e] have p1: "core p1 = core p" "xmit_ok p p1"
    by (auto intro!: xmit_ok_core [OF assms(1)] split: if_splits)
  have i1: "snd_inv p1" "send_queue (sk p1) = s # ss" "now p1 = now p"
    using assms(1,2) snd_inv_core [OF p1(1)] core_eq(3,11) [OF p1(1)] by auto
  note sn = sent_new [OF i1(1,2)]
  have "xmit_ok p1 (sent_new s ss p1)"
    using sn(1,2,3,4,6,7) i1(3) assms(3) by (auto simp: xmit_ok_def) metis
  moreover have "xmit_ok p1 (retry_soon p1)" "deadline (retry_soon p1) Nagle \<noteq> 0"
    using i1(1,3) assms(3) by (simp_all add: retry_soon_def xmit_ok_timer update_timer_keeps)
  ultimately show "xmit_ok p q" "if ret < 0 then deadline q Nagle \<noteq> 0 else deadline q Retransmit \<noteq> 0"
    using assms(5) xmit_ok_trans [OF p1(2)] sn(6) i1(3) assms(3)
    by (auto simp: send_new_def e split: if_splits)
qed

lemma xmit_new_skb:
  assumes "snd_inv p" "send_queue (sk p) = skb # rest" "0 < now p" "0 < b"
    "dist (snd_una p) (snd_nxt p) + unat b \<le> unat (min (snd_wnd p) (snd_cwnd p))"
    "tcp_xmit_new_skb skb rest b push p = (ret, q)"
  shows "xmit_ok p q \<and> (if ret < 0 then deadline q Nagle \<noteq> 0 else deadline q Retransmit \<noteq> 0)"
proof -
  obtain s ss where h: "head_split skb rest (unat b) = (s, ss)" by fastforce
  have b: "0 < unat b" using assms(4) by (simp add: word_less_nat_alt)
  have i: "seg_len skb < 2 ^ 32" "\<not> has (s_flag skb) TCP_FLAG_SYN" "0 < seg_len skb"
    using assms(1,2) by (auto simp: snd_inv_def)
  note sp = snd_inv_split [OF assms(1,2) h b]
  have sl: "seg_len s \<le> unat b" using head_split(1) [OF h b i(3,2)] by simp
  note alt = xmit_new_skb_alt [OF i(1,2) assms(4) h i(3), of push p]
  show ?thesis
  proof (cases "seg_len skb \<le> unat b")
    case True
    then have "send_queue (sk p) = s # ss" using h assms(2) by (simp add: head_split_def)
    moreover have "send_new s ss push p = (ret, q)" using alt True assms(6) by simp
    moreover have "dist (snd_una p) (s_seq s) + seg_len s \<le> unat (min (snd_wnd p) (snd_cwnd p))"
      using assms(5) sl sp(6) by simp
    ultimately show ?thesis using send_new [OF assms(1) _ assms(3)] by blast
  next
    case False
    obtain r p1 where r: "next_ret p = (r, p1)" by fastforce
    have p1: "core p1 = core p" "deadline p1 = deadline p" "outs p1 = outs p"
      using core_next_ret [of p] next_ret_frame [of p] r by simp_all
    have ok1: "snd_inv p1" "now p1 = now p" "xmit_ok p p1"
      using assms(1) snd_inv_core [OF p1(1)] core_eq(11) [OF p1(1)]
        xmit_ok_core [OF assms(1) p1(1), of "[]"] p1(2,3) by simp_all
    define p2 where "p2 = set_send_queue (s # ss) p1"
    have q1: "send_queue (sk p1) = skb # rest" "snd_nxt p1 = snd_nxt p" using assms(2) core_eq(3,6) [OF p1(1)] by simp_all
    note sp1 = snd_inv_split [OF ok1(1) q1(1) h b]
    have ok2: "xmit_ok p1 p2"
      using sp1(1,2) by (simp add: xmit_ok_def p2_def same_conn_def)
    have w: "dist (snd_una p2) (s_seq s) + seg_len s \<le> unat (min (snd_wnd p2) (snd_cwnd p2))"
      using assms(5) sl sp1(6) q1(2) core_eq(5,8,9) [OF p1(1)] by (simp add: p2_def)
    have "(ret, q) = (if r < 0 then (- ENOMEM, retry_soon p1) else send_new s ss push p2)"
      using alt False assms(6) by (simp add: r p2_def)
    note e = this
    show ?thesis
    proof (cases "r < 0")
      case True
      have "xmit_ok p1 (retry_soon p1)" "deadline (retry_soon p1) Nagle \<noteq> 0"
        using ok1(1,2) assms(3) by (simp_all add: retry_soon_def xmit_ok_timer update_timer_keeps)
      then show ?thesis using e True xmit_ok_trans [OF ok1(3)] by (simp add: ENOMEM_def)
    next
      case False
      then have "send_new s ss push p2 = (ret, q)" using e by simp
      moreover have "snd_inv p2" "send_queue (sk p2) = s # ss" "0 < now p2"
        using sp1(1) ok1(2) assms(3) by (simp_all add: p2_def)
      ultimately have "xmit_ok p2 q" "if ret < 0 then deadline q Nagle \<noteq> 0 else deadline q Retransmit \<noteq> 0"
        using send_new [OF _ _ _ w] by blast+
      then show ?thesis using xmit_ok_trans [OF xmit_ok_trans [OF ok1(3) ok2]] by blast
    qed
  qed
qed

section \<open>The send loop\<close>

definition rtx_armed :: "tcp_pcb \<Rightarrow> bool" where
  "rtx_armed p \<longleftrightarrow> (retransmit_queue p \<noteq> [] \<longrightarrow> deadline p Retransmit \<noteq> 0 \<or> deadline p Persist \<noteq> 0)"

definition armed :: "tcp_pcb \<Rightarrow> bool" where
  "armed p \<longleftrightarrow> (retransmit_queue p \<noteq> [] \<or> send_queue (sk p) \<noteq> [] \<longrightarrow>
     deadline p Nagle \<noteq> 0 \<or> deadline p Retransmit \<noteq> 0 \<or> deadline p Persist \<noteq> 0)"

lemma arm_persist:
  assumes "snd_inv p" "0 < now p"
  shows "xmit_ok p (tcp_arm_persist p)"
    "snd_wnd p = 0 \<Longrightarrow> send_queue (sk p) \<noteq> [] \<Longrightarrow> deadline (tcp_arm_persist p) Persist \<noteq> 0"
  using assms xmit_ok_refl [OF assms(1)] xmit_ok_timer [OF assms(1)]
  by (auto simp: tcp_arm_persist_def update_timer_deadline timer_moves_def)

lemma nxt_dist:
  assumes "snd_inv p"
  shows "dist (snd_una p) (snd_nxt p) = total (retransmit_queue p)"
proof -
  have "snd_nxt p = snd_una p + of_nat (total (retransmit_queue p))" "total (retransmit_queue p) < 2 ^ 32"
    using assms contig_end by (auto simp: snd_inv_def)
  then show ?thesis using dist_add [of "snd_una p" "snd_una p" "total (retransmit_queue p)"] by simp
qed

text \<open>The room the loop finds: the comparison of sequence numbers is the comparison of distances.\<close>

lemma window_room:
  assumes "snd_inv p" "unat (snd_wnd p) < 2 ^ 31"
  defines "w \<equiv> min (snd_wnd p) (snd_cwnd p)"
  shows "SEQ_GEQ (snd_nxt p) (snd_una p + w) \<longleftrightarrow> unat w \<le> total (retransmit_queue p)"
    "total (retransmit_queue p) < unat w \<Longrightarrow>
       unat (snd_una p + w - snd_nxt p) = unat w - total (retransmit_queue p)"
proof -
  have "unat w \<le> unat (snd_wnd p)" by (simp add: w_def unat_min_word)
  then have w: "unat w < 2 ^ 31" using assms(2) by simp
  have d: "dist (snd_una p) (snd_nxt p) = total (retransmit_queue p)" by (rule nxt_dist [OF assms(1)])
  have t: "total (retransmit_queue p) < 2 ^ 31" using assms(1) by (simp add: snd_inv_def)
  have dw: "dist (snd_una p) (snd_una p + w) = unat w" by (simp add: dist_def)
  show "SEQ_GEQ (snd_nxt p) (snd_una p + w) \<longleftrightarrow> unat w \<le> total (retransmit_queue p)"
    using SEQ_window(4) [of "snd_una p" "snd_nxt p" "snd_una p + w"] d dw w t by simp
  show "unat (snd_una p + w - snd_nxt p) = unat w - total (retransmit_queue p)"
    if "total (retransmit_queue p) < unat w"
    using dist_diff [of "snd_una p + w" "snd_nxt p" "snd_una p"] that d dw by simp
qed

definition send_ready :: "tcp_pcb \<Rightarrow> bool" where
  "send_ready p \<longleftrightarrow> snd_inv p \<and> 0 < now p \<and> unat (snd_wnd p) < 2 ^ 31 \<and> 0 < snd_cwnd p \<and> rtx_armed p"

lemma xmit_okD:
  assumes "xmit_ok p q"
  shows "snd_inv q" "snd_una q = snd_una p" "snd_wnd q = snd_wnd p" "snd_cwnd q = snd_cwnd p" "now q = now p"
    "k \<noteq> Ack \<Longrightarrow> deadline p k \<noteq> 0 \<Longrightarrow> deadline q k \<noteq> 0"
  using assms by (simp_all add: xmit_ok_def same_conn_def)

lemma closed_window:
  assumes "send_ready p" "send_queue (sk p) = skb # rest"
    "min (snd_wnd p) (snd_cwnd p) = 0 \<or> SEQ_GEQ (snd_nxt p) (snd_una p + min (snd_wnd p) (snd_cwnd p))"
  shows "xmit_ok p (tcp_arm_persist p)" "armed (tcp_arm_persist p)"
proof -
  have r: "snd_inv p" "0 < now p" "unat (snd_wnd p) < 2 ^ 31" "0 < snd_cwnd p" "rtx_armed p"
    using assms(1) by (simp_all add: send_ready_def)
  show ok: "xmit_ok p (tcp_arm_persist p)" by (rule arm_persist(1) [OF r(1,2)])
  show "armed (tcp_arm_persist p)"
  proof (cases "snd_wnd p = 0")
    case True
    then show ?thesis using arm_persist(2) [OF r(1,2)] assms(2) by (simp add: armed_def)
  next
    case False
    then have "min (snd_wnd p) (snd_cwnd p) \<noteq> 0" using r(4) by (auto simp: min_def)
    then have "0 < total (retransmit_queue p)"
      using assms(3) window_room(1) [OF r(1,3)] by (metis gr_zeroI le_zero_eq unat_eq_zero)
    then have "retransmit_queue p \<noteq> []" by auto
    then show ?thesis using r(5) xmit_okD(6) [OF ok, of Persist] xmit_okD(6) [OF ok, of Retransmit]
      by (auto simp: rtx_armed_def armed_def)
  qed
qed

lemma write_loop:
  "send_ready p \<Longrightarrow> write_xmit_loop c flush r p = (ret, q) \<Longrightarrow> xmit_ok p q \<and> armed q"
proof (induction "TCP_OUTPUT_BURST_MAX - c" arbitrary: c r p rule: less_induct)
  case less
  note e = less.prems(2) [unfolded write_xmit_loop.simps [of c]]
  have rd: "snd_inv p" "0 < now p" "unat (snd_wnd p) < 2 ^ 31" "rtx_armed p"
    using less.prems(1) by (simp_all add: send_ready_def)
  show ?case
  proof (cases "send_queue (sk p)")
    case Nil
    with e rd(1,4) show ?thesis by (auto simp: xmit_ok_refl armed_def rtx_armed_def)
  next
    case (Cons skb rest)
    let ?w = "min (snd_wnd p) (snd_cwnd p)"
    have sq: "s_seq skb = snd_nxt p" "0 < seg_len skb" "seg_len skb < 2 ^ 32" using rd(1) Cons by (auto simp: snd_inv_def)
    consider (closed) "?w = 0 \<or> SEQ_GEQ (snd_nxt p) (snd_una p + ?w)"
      | (cork) "\<not> (?w = 0 \<or> SEQ_GEQ (snd_nxt p) (snd_una p + ?w))"
          "q = tcp_update_timer Nagle (now p + TCP_CORK_TIMEOUT_MS_DEFAULT) False p"
      | (send) push p1 r1 where "\<not> (?w = 0 \<or> SEQ_GEQ (snd_nxt p) (snd_una p + ?w))"
          "tcp_xmit_new_skb skb rest (min (tcp_skb_seq_len skb) (snd_una p + ?w - snd_nxt p)) push p = (r1, p1)"
          "(ret, q) = (if r1 < 0 then (r1, p1)
             else if Suc c \<ge> TCP_OUTPUT_BURST_MAX
                  then (r1, if send_queue (sk p1) \<noteq> [] then tcp_update_timer Nagle (now p1) False p1 else p1)
             else write_xmit_loop (Suc c) flush r1 p1)"
      using e Cons by (auto simp: Let_def sq(1) split: if_splits prod.splits)
    then show ?thesis
    proof cases
      case closed
      then have "q = tcp_arm_persist p" using e Cons by (auto simp: Let_def sq(1))
      with closed_window [OF less.prems(1) Cons closed] show ?thesis by simp
    next
      case cork
      then show ?thesis using rd(1,2)
        by (simp add: xmit_ok_timer armed_def update_timer_deadline timer_moves_def)
    next
      case send
      let ?b = "min (tcp_skb_seq_len skb) (snd_una p + ?w - snd_nxt p)"
      have room: "total (retransmit_queue p) < unat ?w"
        using send(1) window_room(1) [OF rd(1,3)] by simp
      have b: "unat ?b = min (seg_len skb) (unat ?w - total (retransmit_queue p))"
        using window_room(2) [OF rd(1,3) room] by (simp add: unat_min_word unat_seq_len [OF sq(3)])
      then have "0 < ?b" using room sq(2) by (simp add: word_less_nat_alt)
      moreover have "unat ?b \<le> unat ?w - total (retransmit_queue p)" unfolding b by (rule min.cobounded2)
      then have "dist (snd_una p) (snd_nxt p) + unat ?b \<le> unat ?w"
        using room unfolding nxt_dist [OF rd(1)] by linarith
      moreover note xmit_new_skb [OF rd(1) Cons rd(2) _ _ send(2)]
      ultimately have ok: "xmit_ok p p1" "if r1 < 0 then deadline p1 Nagle \<noteq> 0 else deadline p1 Retransmit \<noteq> 0" by auto
      show ?thesis
      proof (cases "r1 < 0 \<or> Suc c \<ge> TCP_OUTPUT_BURST_MAX")
        case True
        then show ?thesis
          using send(3) ok xmit_ok_trans [OF ok(1) xmit_ok_timer [OF xmit_okD(1) [OF ok(1)]]] xmit_okD(5) [OF ok(1)] rd(2)
          by (auto simp: armed_def update_timer_deadline timer_moves_def split: if_splits)
      next
        case False
        have "send_ready p1"
          using False ok less.prems(1) xmit_okD(1,3,4,5) [OF ok(1)] by (simp add: send_ready_def rtx_armed_def)
        with less.hyps [of "Suc c" p1 r1] False send(3) show ?thesis
          using xmit_ok_trans [OF ok(1)] by (auto simp: not_le)
      qed
    qed
  qed
qed

section \<open>Acknowledgements\<close>

definition plain :: "seg list \<Rightarrow> bool" where
  "plain q \<longleftrightarrow> (\<forall>s \<in> set q. \<not> has (s_flag s) TCP_FLAG_SYN \<and> \<not> has (s_flag s) TCP_FLAG_FIN)"

text \<open>The queue \<open>q'\<close> that is left of \<open>q\<close> when \<open>a\<close> sequence numbers, with \<open>k\<close> bytes, are acknowledged.\<close>

definition acked_queue :: "u32 \<Rightarrow> seg list \<Rightarrow> u32 \<Rightarrow> nat \<Rightarrow> nat \<Rightarrow> seg list \<Rightarrow> bool" where
  "acked_queue ack q n a k q' \<longleftrightarrow>
     contig ack q' n \<and> total q' = total q - a \<and> (\<forall>s \<in> set q'. 0 < seg_len s) \<and>
     stream q' = drop k (stream q) \<and> k \<le> a \<and> k \<le> length (stream q) \<and> (plain q \<longrightarrow> k = a)"

lemma seq_dist:
  assumes "a < 2 ^ 31" "l < 2 ^ 31"
  shows "SEQ_GT (u + of_nat a) u \<longleftrightarrow> 0 < a" "SEQ_GEQ (u + of_nat a) (u + of_nat l) \<longleftrightarrow> l \<le> a"
    "unat (u + of_nat a - u) = a"
proof -
  have d: "dist u (u + of_nat a) = a" "dist u (u + of_nat l) = l"
    using assms by (simp_all add: dist_def unat_of_nat_u32)
  show "SEQ_GT (u + of_nat a) u \<longleftrightarrow> 0 < a" "SEQ_GEQ (u + of_nat a) (u + of_nat l) \<longleftrightarrow> l \<le> a"
    using SEQ_window(2) [of u "u + of_nat a" u] SEQ_window(4) [of u "u + of_nat a" "u + of_nat l"] d assms
    by simp_all
  show "unat (u + of_nat a - u) = a" using d by (simp add: dist_def)
qed

lemma ack_partial:
  assumes s: "s_seq s = u" "a < seg_len s" "0 < a" "seg_len s < 2 ^ 31"
  defines "c \<equiv> (if has (s_flag s) TCP_FLAG_SYN then a - 1 else a)"
    and "s' \<equiv> (if has (s_flag s) TCP_FLAG_SYN then clear_flag TCP_FLAG_SYN s else s)
                 \<lparr>s_data := drop (if has (s_flag s) TCP_FLAG_SYN then a - 1 else a) (s_data s), s_seq := u + of_nat a\<rparr>"
  shows "seg_len s' = seg_len s - a" "c \<le> length (s_data s)"
  using assms by (auto simp: seg_len_def split: if_splits)

lemma ack_loop:
  assumes "contig u q n" "a \<le> total q" "total q < 2 ^ 31" "\<forall>s \<in> set q. 0 < seg_len s"
    "length (stream q) \<le> unat buf" "ack_loop (u + of_nat a) q buf b = (q', buf', b')"
  shows "\<exists>k. acked_queue (u + of_nat a) q n a k q' \<and> unat buf' = unat buf - k \<and> b' = (b \<or> 0 < a)"
  using assms
proof (induction q arbitrary: u a buf b)
  case Nil
  then show ?case by (simp add: acked_queue_def plain_def)
next
  case (Cons s q)
  let ?l = "seg_len s"
  have l: "?l < 2 ^ 31" "a < 2 ^ 31" "0 < ?l" "s_seq s = u" "length (s_data s) \<le> ?l"
    using Cons.prems by (auto simp: seg_len_def)
  note sd = seq_dist [OF l(2,1), of u]
  have dl: "unat (skb_data_len s) = length (s_data s)" using l by (intro unat_data_len) simp
  consider (none) "a = 0" | (full) "0 < a" "?l \<le> a" | (part) "0 < a" "a < ?l" by linarith
  then show ?case
  proof cases
    case none
    then show ?thesis using Cons.prems sd by (auto simp: acked_queue_def l(4) intro!: exI [of _ 0])
  next
    case full
    define v where "v = u + of_nat ?l"
    have v: "v + of_nat (a - ?l) = u + of_nat a" using full by (simp add: v_def of_nat_diff)
    have buf: "unat (buf - skb_data_len s) = unat buf - length (s_data s)"
      using Cons.prems(5) dl by (subst unat_sub_no_wrap) (auto simp: word_le_nat_alt)
    have loop: "ack_loop (v + of_nat (a - ?l)) q (buf - skb_data_len s) True = (q', buf', b')"
      unfolding v using Cons.prems(6) full sd l(4) by (simp add: seq_len_of_nat)
    have pre: "contig v q n" "a - ?l \<le> total q" "total q < 2 ^ 31" "\<forall>s \<in> set q. 0 < seg_len s"
      "length (stream q) \<le> unat (buf - skb_data_len s)"
      using Cons.prems(1-5) full by (auto simp: v_def l(4) buf)
    obtain k where k: "acked_queue (v + of_nat (a - ?l)) q n (a - ?l) k q'"
      "unat buf' = unat (buf - skb_data_len s) - k" "b'"
      using Cons.IH [OF pre loop] by blast
    have "acked_queue (u + of_nat a) (s # q) n a (length (s_data s) + k) q'"
      using k(1) full l(5) unfolding v by (auto simp: acked_queue_def plain_def seg_len_def)
    then show ?thesis using k(2,3) full buf by (intro exI [of _ "length (s_data s) + k"]) simp
  next
    case part
    define syn where "syn = has (s_flag s) TCP_FLAG_SYN"
    define c where "c = (if syn then a - 1 else a)"
    define s' where "s' = (if syn then clear_flag TCP_FLAG_SYN s else s)
       \<lparr>s_data := drop c (s_data s), s_seq := u + of_nat a\<rparr>"
    have s': "seg_len s' = ?l - a" "c \<le> length (s_data s)"
      using ack_partial [OF l(4) part(2,1) l(1)] by (simp_all add: s'_def c_def syn_def)
    have ua: "u + of_nat a - s_seq s = of_nat a" "(of_nat a :: u32) > 0"
      using part(1) l(2,4) by (simp_all add: word_less_nat_alt unat_of_nat_u32)
    have "(of_nat a :: u32) - 1 = of_nat (a - 1)" using part(1) by (simp add: of_nat_diff)
    then have cw: "(if syn then (of_nat a :: u32) - 1 else of_nat a) = of_nat c" "unat (of_nat c :: u32) = c"
      using l(2) by (auto simp: c_def unat_of_nat_u32)
    have sd2: "s_data (if syn then clear_flag TCP_FLAG_SYN s else s) = s_data s" by simp
    have "(s' # q, buf - of_nat c, True) = (q', buf', b')"
      using Cons.prems(6) part sd l(4) ua cw
      by (simp add: seq_len_of_nat Let_def s'_def sd2 flip: syn_def)
    then have r: "q' = s' # q" "buf' = buf - of_nat c" "b'" by simp_all
    have "contig (u + of_nat a) (s' # q) n"
      using Cons.prems(1) s'(1) part(2)
      by (simp add: l(4) of_nat_diff) (simp add: s'_def)
    then have "acked_queue (u + of_nat a) (s # q) n a c q'"
      using Cons.prems(4) s' part by (auto simp: acked_queue_def r(1) plain_def c_def syn_def)
        (simp_all add: s'_def c_def syn_def)
    moreover have "unat buf' = unat buf - c"
      using Cons.prems(5) s'(2) cw(2) unfolding r(2) by (subst unat_sub_no_wrap) (auto simp: word_le_nat_alt)
    ultimately show ?thesis using part r(3) by blast
  qed
qed

lemma snd_inv_cong:
  "retransmit_queue q = retransmit_queue p \<Longrightarrow> send_queue (sk q) = send_queue (sk p) \<Longrightarrow>
   send_buffer_len (sk q) = send_buffer_len (sk p) \<Longrightarrow> snd_una q = snd_una p \<Longrightarrow> snd_nxt q = snd_nxt p \<Longrightarrow>
   snd_end q = snd_end p \<Longrightarrow> snd_inv q = snd_inv p"
  by (simp add: snd_inv_def)

lemma update_retransmit_queue_fields:
  fixes p
  defines "q \<equiv> tcp_update_retransmit_queue p"
  assumes "ack_loop (snd_una p) (retransmit_queue p) (send_buffer_len (sk p)) False = (r, buffered, acked)"
  shows "retransmit_queue q = r" "send_queue (sk q) = send_queue (sk p)" "send_buffer_len (sk q) = buffered"
    "snd_una q = snd_una p" "snd_nxt q = snd_nxt p" "snd_end q = snd_end p" "now q = now p"
    "snd_wnd q = snd_wnd p" "snd_cwnd q = snd_cwnd p"
    "r \<noteq> [] \<Longrightarrow> acked \<Longrightarrow> deadline q Retransmit = now p + tcp_metrics_rto (metrics p)"
    "r \<noteq> [] \<Longrightarrow> \<not> acked \<Longrightarrow> deadline q = deadline p"
  using assms(2) unfolding q_def
  by (simp_all add: tcp_update_retransmit_queue_def Let_def set_sk_def emit_def update_timer_deadline timer_moves_def)

lemma acknowledged:
  assumes inv: "snd_inv p" and a: "dist (snd_una p) ack \<le> total (retransmit_queue p)"
  defines "q \<equiv> tcp_update_retransmit_queue (p\<lparr>snd_una := ack\<rparr>)"
  shows "snd_inv q" "snd_una q = ack" "snd_nxt q = snd_nxt p" "snd_end q = snd_end p"
    "\<exists>k \<le> dist (snd_una p) ack. unacked q = drop k (unacked p) \<and>
       (plain (retransmit_queue p) \<longrightarrow> k = dist (snd_una p) ack)"
    "rtx_armed p \<Longrightarrow> 0 < now p \<Longrightarrow> rtx_armed q"
proof -
  define u where "u = snd_una p"
  define a where "a = dist u ack"
  have ack: "ack = u + of_nat a" by (simp add: a_def dist_def)
  obtain r buffered acked where l:
    "ack_loop ack (retransmit_queue p) (send_buffer_len (sk p)) False = (r, buffered, acked)"
    by (metis prod_cases3)
  have i: "contig u (retransmit_queue p) (snd_nxt p)" "a \<le> total (retransmit_queue p)"
    "total (retransmit_queue p) < 2 ^ 31" "\<forall>s \<in> set (retransmit_queue p). 0 < seg_len s"
    "length (stream (retransmit_queue p)) \<le> unat (send_buffer_len (sk p))"
    using inv a by (auto simp: snd_inv_def u_def a_def)
  from ack_loop [OF i l [unfolded ack]] obtain k where
    k: "acked_queue ack (retransmit_queue p) (snd_nxt p) a k r"
    "unat buffered = unat (send_buffer_len (sk p)) - k" "acked = (0 < a)"
    unfolding ack by blast
  have q: "retransmit_queue q = r" "send_queue (sk q) = send_queue (sk p)" "send_buffer_len (sk q) = buffered"
    "snd_una q = ack" "snd_nxt q = snd_nxt p" "snd_end q = snd_end p"
    "r \<noteq> [] \<Longrightarrow> acked \<Longrightarrow> deadline q Retransmit = now p + tcp_metrics_rto (metrics p)"
    "r \<noteq> [] \<Longrightarrow> \<not> acked \<Longrightarrow> deadline q = deadline p"
    using update_retransmit_queue_fields [of "p\<lparr>snd_una := ack\<rparr>" r buffered acked] l unfolding q_def by simp_all
  show "snd_una q = ack" "snd_nxt q = snd_nxt p" "snd_end q = snd_end p" by (rule q)+
  show "snd_inv q"
    using inv k(1,2) i(2) q(1-6) by (auto simp: snd_inv_def acked_queue_def)
  have "unacked q = drop k (unacked p)" using k(1) q(1,2) by (simp add: unacked_def acked_queue_def)
  then show "\<exists>k \<le> dist (snd_una p) ack. unacked q = drop k (unacked p) \<and>
      (plain (retransmit_queue p) \<longrightarrow> k = dist (snd_una p) ack)"
    using k(1) by (auto simp: acked_queue_def a_def u_def)
  show "rtx_armed q" if "rtx_armed p" "0 < now p"
  proof (cases "0 < a")
    case True
    then show ?thesis using q(1,7) k(3) that(2) by (auto simp: rtx_armed_def)
  next
    case False
    have "r \<noteq> [] \<Longrightarrow> retransmit_queue p \<noteq> []" using l by auto
    then show ?thesis using q(1,8) k(3) False that(1) by (auto simp: rtx_armed_def)
  qed
qed

section \<open>The timer callback\<close>

lemma timer_inv_cong:
  "deadline q = deadline p \<Longrightarrow> tk_registered q = tk_registered p \<Longrightarrow> tk_timeout q = tk_timeout p \<Longrightarrow>
   timer_inv q = timer_inv p"
  by (simp add: timer_inv_def)

lemma timer_inv_upd [simp]:
  "timer_inv (emit x p) = timer_inv p" "timer_inv (set_sk f p) = timer_inv p"
  "timer_inv (set_send_queue ss p) = timer_inv p" "timer_inv (tcp_commit_fin_send p) = timer_inv p"
  "timer_inv (snd (next_ret p)) = timer_inv p" "timer_inv (snd (make_tcp_options f' p)) = timer_inv p"
  "timer_inv (p\<lparr>ack_pending_segments := n\<rparr>) = timer_inv p" "timer_inv (p\<lparr>snd_nxt := w\<rparr>) = timer_inv p"
  "timer_inv (p\<lparr>snd_end := w\<rparr>) = timer_inv p" "timer_inv (p\<lparr>snd_wnd := w\<rparr>) = timer_inv p"
  "timer_inv (p\<lparr>snd_cwnd := w\<rparr>) = timer_inv p" "timer_inv (p\<lparr>snd_ssthresh := w\<rparr>) = timer_inv p"
  "timer_inv (p\<lparr>rtt_meas_time := n\<rparr>) = timer_inv p" "timer_inv (p\<lparr>rtt_meas_seq := w\<rparr>) = timer_inv p"
  "timer_inv (p\<lparr>retransmit_queue := qq\<rparr>) = timer_inv p" "timer_inv (p\<lparr>state := st\<rparr>) = timer_inv p"
  "timer_inv (p\<lparr>retries_out := n\<rparr>) = timer_inv p" "timer_inv (p\<lparr>connect_retry_times := n\<rparr>) = timer_inv p"
  "timer_inv (p\<lparr>connect_timeout := n\<rparr>) = timer_inv p" "timer_inv (p\<lparr>retransmit_timeout := n\<rparr>) = timer_inv p"
  "timer_inv (p\<lparr>persist_backoff := n\<rparr>) = timer_inv p" "timer_inv (p\<lparr>keepalive_repeat_count := n\<rparr>) = timer_inv p"
  "timer_inv (p\<lparr>cubic := c\<rparr>) = timer_inv p" "timer_inv (p\<lparr>pcb_ca_state := ca\<rparr>) = timer_inv p"
  "timer_inv (p\<lparr>ca_recovery_seq := w\<rparr>) = timer_inv p" "timer_inv (p\<lparr>ca_prior_cwnd := w\<rparr>) = timer_inv p"
  "timer_inv (p\<lparr>last_ack_repeat := n\<rparr>) = timer_inv p"
  by (rule timer_inv_cong; simp add: emit_def set_sk_def set_send_queue_def tcp_commit_fin_send_def
      next_ret_def make_tcp_options_def Let_def split: tcp_state.split list.split)+

lemma timer_inv_destroy: "timer_inv p \<Longrightarrow> timer_inv (destroy_tcp_socket p)"
  by (simp add: destroy_tcp_socket_def Let_def)

lemma timer_inv_enqueue: "timer_inv p \<Longrightarrow> timer_inv (tcp_retransmit_enqueue s p)"
  by (auto simp: tcp_retransmit_enqueue_def Let_def next_ret_def timer_inv_def split: list.split)

lemma timer_inv_if:
  "timer_inv (snd a) \<Longrightarrow> timer_inv (snd b) \<Longrightarrow> timer_inv (snd (if c then a else b))"
  "timer_inv p \<Longrightarrow> timer_inv q \<Longrightarrow> timer_inv (if c then p else q)"
  by simp_all

lemma timer_inv_case_ret:
  "(\<And>r q. timer_inv q \<Longrightarrow> timer_inv (snd (f r q))) \<Longrightarrow> timer_inv p \<Longrightarrow>
   timer_inv (snd (case next_ret p of (r, q) \<Rightarrow> f r q))"
  using timer_inv_upd(5) [of p] by (cases "next_ret p") auto

lemma timer_inv_case_opt:
  "(\<And>q. timer_inv q \<Longrightarrow> timer_inv (snd (f q))) \<Longrightarrow> timer_inv p \<Longrightarrow>
   timer_inv (snd (case make_tcp_options fl p of (_, q) \<Rightarrow> f q))"
  using timer_inv_upd(6) [of fl p] by (cases "make_tcp_options fl p") auto

lemma timer_inv_xmit_segment:
  assumes "timer_inv p" shows "timer_inv (snd (tcp_xmit_segment skb b push p))"
  unfolding tcp_xmit_segment_def Let_def
  by (intro timer_inv_case_ret timer_inv_case_opt assms)
    (auto simp: update_timer_inv Let_def intro!: timer_inv_case_ret timer_inv_case_opt)

lemma timer_inv_arm_persist: "timer_inv p \<Longrightarrow> timer_inv (tcp_arm_persist p)"
  by (simp add: tcp_arm_persist_def update_timer_inv)

lemma timer_inv_case_xmit:
  "(\<And>r q. timer_inv q \<Longrightarrow> timer_inv (snd (f r q))) \<Longrightarrow> timer_inv p \<Longrightarrow>
   timer_inv (snd (case tcp_xmit_segment skb b push p of (r, q) \<Rightarrow> f r q))"
  using timer_inv_xmit_segment [of p skb b push] by (cases "tcp_xmit_segment skb b push p") auto

lemma timer_inv_xmit_new_skb:
  assumes "timer_inv p" shows "timer_inv (snd (tcp_xmit_new_skb skb rest b push p))"
  unfolding tcp_xmit_new_skb_def Let_def split_head_def prod.case
  by (intro timer_inv_case_ret timer_inv_case_xmit timer_inv_if assms
      | simp add: update_timer_inv timer_inv_enqueue timer_inv_if split del: if_split)+

lemma timer_inv_write_loop: "timer_inv p \<Longrightarrow> timer_inv (snd (write_xmit_loop c flush r p))"
proof (induction "TCP_OUTPUT_BURST_MAX - c" arbitrary: c r p rule: less_induct)
  case less
  show ?case
  proof (cases "send_queue (sk p)")
    case Nil
    then show ?thesis using less.prems by (simp add: write_xmit_loop.simps)
  next
    case (Cons skb rest)
    obtain r1 p1 where e: "tcp_xmit_new_skb skb rest
        (min (tcp_skb_seq_len skb) (snd_una p + min (snd_wnd p) (snd_cwnd p) - s_seq skb))
        (min (tcp_skb_seq_len skb) (snd_una p + min (snd_wnd p) (snd_cwnd p) - s_seq skb) = tcp_skb_seq_len skb \<and>
         skb_data_len skb \<noteq> 0 \<and> rest = []) p = (r1, p1)" by fastforce
    have "timer_inv p1" using timer_inv_xmit_new_skb [OF less.prems] e by (metis snd_conv)
    with less e Cons show ?thesis
      by (subst write_xmit_loop.simps) (simp add: Let_def update_timer_inv timer_inv_arm_persist not_le)
  qed
qed

lemma timer_inv_write_xmit: "timer_inv p \<Longrightarrow> timer_inv (snd (tcp_write_xmit flush p))"
  by (simp add: tcp_write_xmit_def timer_inv_write_loop)

lemma timer_inv_retransmit_skb: "timer_inv p \<Longrightarrow> timer_inv (snd (tcp_retransmit_skb skb probe p))"
  using timer_inv_xmit_segment [of "p\<lparr>rtt_meas_time := 0\<rparr>" skb] by (simp add: tcp_retransmit_skb_def Let_def)

lemma timer_inv_send_probe: "timer_inv p \<Longrightarrow> timer_inv (snd (tcp_send_probe p))"
  by (simp add: tcp_send_probe_def timer_inv_retransmit_skb timer_inv_xmit_new_skb split: list.split)

lemma timer_inv_send_flag:
  assumes "timer_inv p" shows "timer_inv (snd (tcp_send_flag sq ack flag p))"
  unfolding tcp_send_flag_def Let_def
  by (auto simp: assms Let_def update_timer_inv timer_inv_def [of "p\<lparr>retransmit_queue := x\<rparr>" for p x]
      intro!: timer_inv_case_ret timer_inv_case_opt)

lemma timer_inv_send_window_update: "timer_inv p \<Longrightarrow> timer_inv (tcp_send_window_update a b p)"
  by (simp add: tcp_send_window_update_def Let_def update_timer_inv)

lemma timer_inv_cwnd_change: "timer_inv p \<Longrightarrow> timer_inv (tcp_snd_cwnd_change w p)"
  by (simp add: tcp_snd_cwnd_change_def Let_def timer_inv_send_window_update)

lemma timer_inv_win_change: "timer_inv p \<Longrightarrow> timer_inv (tcp_snd_win_change w p)"
  by (simp add: tcp_snd_win_change_def Let_def timer_inv_send_window_update update_timer_inv timer_inv_arm_persist)

lemma timer_inv_on_timeout: "timer_inv p \<Longrightarrow> timer_inv (tcp_congestion_on_timeout p)"
  by (simp add: tcp_congestion_on_timeout_def Let_def recalc_ssthresh tcp_cubic_reset_def
      tcp_ca_set_cwnd_def timer_inv_cwnd_change)

lemma timer_inv_expired:
  assumes "timer_inv p"
  shows "timer_inv (retransmit_expired p)" "timer_inv (persist_expired p)" "timer_inv (keepalive_expired p)"
  using assms
  by (simp_all add: retransmit_expired_def persist_expired_def keepalive_expired_def time_out_def Let_def
      timer_inv_destroy timer_inv_retransmit_skb update_timer_inv timer_inv_on_timeout timer_inv_send_probe
      timer_inv_send_flag split: list.split)

lemma timer_inv_case_due:
  "(\<And>d q. timer_inv q \<Longrightarrow> timer_inv (f d q)) \<Longrightarrow> timer_inv p \<Longrightarrow>
   timer_inv (case tcp_deadline_due k p of (d, q) \<Rightarrow> f d q)"
  using deadline_due_inv [of p k] by (cases "tcp_deadline_due k p") auto

lemma timer_inv_timer_cb: "timer_inv p \<Longrightarrow> timer_inv (tcp_timer_cb p)"
  unfolding tcp_timer_cb_def
  by (intro timer_inv_case_due timer_inv_if
      | assumption | simp add: timer_inv_write_xmit timer_inv_expired timer_inv_send_flag timer_inv_destroy)+

lemma retransmit_skb_frame:
  "core (snd (tcp_retransmit_skb skb probe p)) \<in> {core p, core (p\<lparr>rtt_meas_time := 0\<rparr>)}"
  "k \<noteq> Ack \<Longrightarrow> deadline (snd (tcp_retransmit_skb skb probe p)) k = deadline p k"
proof -
  have "tcp_retransmit_skb skb probe p \<in>
      insert (0, p) (range (\<lambda>b. tcp_xmit_segment skb b False (p\<lparr>rtt_meas_time := 0\<rparr>)))"
    by (simp add: tcp_retransmit_skb_def Let_def)
  then obtain b where "tcp_retransmit_skb skb probe p = (0, p) \<or>
      tcp_retransmit_skb skb probe p = tcp_xmit_segment skb b False (p\<lparr>rtt_meas_time := 0\<rparr>)"
    by blast
  moreover obtain r q where e: "tcp_xmit_segment skb b False (p\<lparr>rtt_meas_time := 0\<rparr>) = (r, q)" by fastforce
  ultimately show "core (snd (tcp_retransmit_skb skb probe p)) \<in> {core p, core (p\<lparr>rtt_meas_time := 0\<rparr>)}"
    "k \<noteq> Ack \<Longrightarrow> deadline (snd (tcp_retransmit_skb skb probe p)) k = deadline p k"
    using xmit_segment [OF e] e by auto
qed

lemma on_timeout_fields:
  "retransmit_queue (tcp_congestion_on_timeout p) = retransmit_queue p"
  "retries_out (tcp_congestion_on_timeout p) = retries_out p" "state (tcp_congestion_on_timeout p) = state p"
  "now (tcp_congestion_on_timeout p) = now p"
  "retransmit_timeout (tcp_congestion_on_timeout p) = retransmit_timeout p"
  by (simp_all add: tcp_congestion_on_timeout_def Let_def recalc_ssthresh tcp_cubic_reset_def tcp_ca_set_cwnd_def)

lemma retransmit_expired_data:
  assumes "retransmit_queue p = skb # rest" "state p \<noteq> TCP_STATE_SYN_SENT" "state p \<noteq> TCP_STATE_SYN_RECEIVED"
    "retries_out p < retries_max p" "0 < now p"
  defines "q \<equiv> retransmit_expired p"
  shows "state q = state p" "retries_out q = Suc (retries_out p)" "retransmit_queue q = retransmit_queue p"
    "retransmit_timeout q = tcp_metrics_backoff (retransmit_timeout p)" "unat (snd_cwnd q) = tcp_ca_mss p"
    "deadline q Retransmit \<noteq> 0"
proof -
  define p1 where "p1 = tcp_congestion_on_timeout (p\<lparr>retries_out := retries_out p + 1\<rparr>)"
  define p2 where "p2 = tcp_update_timer Retransmit
    (now p1 + tcp_metrics_backoff (retransmit_timeout p1)) False
    (p1\<lparr>retransmit_timeout := tcp_metrics_backoff (retransmit_timeout p1)\<rparr>)"
  have q: "q = snd (tcp_retransmit_skb skb False p2)"
    using assms(1-4) by (simp add: q_def retransmit_expired_def p1_def p2_def Let_def)
  have p1: "state p1 = state p" "retries_out p1 = Suc (retries_out p)" "retransmit_queue p1 = retransmit_queue p"
    "retransmit_timeout p1 = retransmit_timeout p" "unat (snd_cwnd p1) = tcp_ca_mss p" "now p1 = now p"
    using timeout_cwnd [of "p\<lparr>retries_out := retries_out p + 1\<rparr>"]
    by (simp_all add: p1_def on_timeout_fields) (simp add: tcp_ca_mss_def)
  have d: "deadline p2 Retransmit \<noteq> 0"
    using assms(5) p1(6) by (simp add: p2_def update_timer_deadline timer_moves_def)
  have c: "core q = core p2 \<or> core q = core (p2\<lparr>rtt_meas_time := 0\<rparr>)"
    using retransmit_skb_frame(1) [of skb False p2] by (simp add: q)
  show "state q = state p" "retries_out q = Suc (retries_out p)" "retransmit_queue q = retransmit_queue p"
    "retransmit_timeout q = tcp_metrics_backoff (retransmit_timeout p)" "unat (snd_cwnd q) = tcp_ca_mss p"
    using core_eq(1,2,9,12,16) [of q p2] core_eq(1,2,9,12,16) [of q "p2\<lparr>rtt_meas_time := 0\<rparr>"] c p1
    by (auto simp: p2_def)
  show "deadline q Retransmit \<noteq> 0" using d retransmit_skb_frame(2) [of Retransmit skb False p2] by (simp add: q)
qed

lemma retransmit_expired_limit:
  assumes "retransmit_queue p = skb # rest" "state p \<noteq> TCP_STATE_SYN_SENT" "state p \<noteq> TCP_STATE_SYN_RECEIVED"
    "retries_max p \<le> retries_out p"
  shows "state (retransmit_expired p) = TCP_STATE_CLOSED" "sock_error (sk (retransmit_expired p)) = ETIMEDOUT"
  using assms
  by (simp_all add: retransmit_expired_def time_out_def destroy_tcp_socket_def emit_def set_sk_def Let_def)

section \<open>Properties\<close>


definition send_example :: tcp_pcb where
  "send_example = pcb_blank\<lparr>state := TCP_STATE_ESTABLISHED, now := 1000, retransmit_timeout := 200,
     snd_mss := 4, snd_wnd := 6, snd_cwnd := 100, snd_una := 0xFFFFFFFE, snd_nxt := 0xFFFFFFFE, snd_end := 7,
     sk := sock_blank\<lparr>send_queue := [\<lparr>s_seq = 0xFFFFFFFE, s_flag = TCP_FLAG_ACK, s_data = [1, 2, 3, 4]\<rparr>,
                                  \<lparr>s_seq = 2, s_flag = 0x11, s_data = [5, 6, 7, 8]\<rparr>],
                      send_buffer_len := 8\<rparr>\<rparr>"

lemma send_example_ready: "send_ready send_example"
  by (simp add: send_example_def send_ready_def snd_inv_def rtx_armed_def pcb_blank_def sock_blank_def
      seg_len_def has_def TCP_FLAG_ACK_def TCP_FLAG_SYN_def TCP_FLAG_FIN_def)


text \<open>
  C2. \<open>tcp_write_xmit\<close> never stalls the connection: as long as anything is unsent or
  unacknowledged when it returns, with or without an error, one of the retransmission, persist and
  output timers is armed.
\<close>

theorem send_never_stalls:
  assumes "send_ready p"
  shows "armed (snd (tcp_write_xmit flush p))"
  using write_loop [OF assms, of 0 flush 0]
  by (cases "write_xmit_loop 0 flush 0 p") (simp add: tcp_write_xmit_def)

theorem send_never_stalls_witness:
  "armed (snd (tcp_write_xmit False (send_example\<lparr>xmit_rets := [0, 0, -105]\<rparr>)))"
proof -
  have "send_ready (send_example\<lparr>xmit_rets := [0, 0, -105]\<rparr>)"
    using send_example_ready by (simp add: send_ready_def snd_inv_def rtx_armed_def)
  then show ?thesis by (rule send_never_stalls)
qed

text \<open>
  C7. An acknowledgement of sequence numbers in flight removes exactly the acknowledged bytes from
  the retransmit queue: the unacknowledged stream loses its first bytes, all the acknowledged ones
  when no SYN or FIN is in flight, the queue starts at the acknowledgement, the send buffer count
  is exact, and the retransmission timer runs while data is in flight.
\<close>

theorem ack_removes_acked:
  assumes "snd_inv p" "dist (snd_una p) ack \<le> total (retransmit_queue p)"
  shows "let q = tcp_update_retransmit_queue (p\<lparr>snd_una := ack\<rparr>) in
    snd_inv q \<and> snd_una q = ack \<and> snd_nxt q = snd_nxt p \<and> snd_end q = snd_end p \<and>
    (\<exists>k \<le> dist (snd_una p) ack. unacked q = drop k (unacked p) \<and>
       (plain (retransmit_queue p) \<longrightarrow> k = dist (snd_una p) ack)) \<and>
    (rtx_armed p \<and> 0 < now p \<longrightarrow> rtx_armed q)"
  using acknowledged [OF assms] unfolding Let_def by blast

definition flight_example :: tcp_pcb where
  "flight_example = pcb_blank\<lparr>now := 1000, snd_wnd := 6, snd_cwnd := 100, snd_una := 0xFFFFFFFE,
     snd_nxt := 6, snd_end := 6,
     retransmit_queue := [\<lparr>s_seq = 0xFFFFFFFE, s_flag = TCP_FLAG_ACK, s_data = [1, 2, 3, 4]\<rparr>,
                          \<lparr>s_seq = 2, s_flag = TCP_FLAG_ACK, s_data = [5, 6, 7, 8]\<rparr>],
     sk := sock_blank\<lparr>send_buffer_len := 8\<rparr>\<rparr>"

theorem ack_removes_acked_witness:
  "unacked (tcp_update_retransmit_queue (flight_example\<lparr>snd_una := 3\<rparr>)) = [6, 7, 8]"
proof -
  have "snd_inv flight_example" "dist (snd_una flight_example) 3 \<le> total (retransmit_queue flight_example)"
    "dist (snd_una flight_example) 3 = 5" "plain (retransmit_queue flight_example)"
    by (simp_all add: flight_example_def snd_inv_def pcb_blank_def sock_blank_def seg_len_def dist_def plain_def)
  with ack_removes_acked [of flight_example 3] show ?thesis
    by (simp add: Let_def) (auto simp: unacked_def flight_example_def pcb_blank_def sock_blank_def)
qed





end
