(* ===== verification/TcpIn.thy ===== *)
theory TcpIn
  imports TcpSend DList
begin

text \<open>
  The input half of TCP, from \<^verbatim>\<open>src/main/tcp.c\<close>: the reorder list and the delivery of in-order
  data (\<open>tcp_recv_data\<close>), the handshake of the active opener (\<open>tcp_process_syn_sent\<close>) and the
  eight steps of \<open>tcp_input\<close>, one definition per step.

  An arriving segment is its header fields in host order, its option bytes and its payload.
  A step that returns from \<open>tcp_input\<close> gives \<open>Return\<close>, one that falls through gives \<open>Continue\<close>.
  The listening state, which creates sockets, is not modelled.
\<close>

section \<open>Arriving segments\<close>

record inseg =
  in_seq :: u32
  in_ack :: u32
  in_flags :: u8
  in_wnd :: u16
  in_options :: "u8 list"
  in_data :: "u8 list"

definition ECONNREFUSED :: int where "ECONNREFUSED = 111"
definition ECONNRESET :: int where "ECONNRESET = 104"

definition in_data_len :: "inseg \<Rightarrow> u32" where
  "in_data_len s = of_nat (length (in_data s))"

definition in_seg_len :: "inseg \<Rightarrow> u32" where
  "in_seg_len s = in_data_len s + (if has (in_flags s) TCP_FLAG_SYN then 1 else 0)
                                + (if has (in_flags s) TCP_FLAG_FIN then 1 else 0)"

section \<open>In-order delivery\<close>

definition tcp_seq_cmp :: "seg \<Rightarrow> seg \<Rightarrow> int" where
  "tcp_seq_cmp a b =
     (if SEQ_LT (s_seq a) (s_seq b) then - 1 else if SEQ_GT (s_seq a) (s_seq b) then 1 else 0)"

definition SOCKET_USEABLE_RECV_BUFF_SIZE :: "sock \<Rightarrow> u32" where
  "SOCKET_USEABLE_RECV_BUFF_SIZE k =
     (if recv_buffer_len_max k > recv_buffer_len k then recv_buffer_len_max k - recv_buffer_len k else 0)"

definition SOCKET_USEABLE_SEND_BUFF_SIZE :: "sock \<Rightarrow> u32" where
  "SOCKET_USEABLE_SEND_BUFF_SIZE k =
     (if send_buffer_len_max k > send_buffer_len k then send_buffer_len_max k - send_buffer_len k else 0)"

definition seg_consume :: "u32 \<Rightarrow> seg \<Rightarrow> seg" where
  "seg_consume n s = s\<lparr>s_data := drop (unat n) (s_data s)\<rparr>"

definition seg_truncate :: "u32 \<Rightarrow> seg \<Rightarrow> seg" where
  "seg_truncate n s = s\<lparr>s_data := take (unat n) (s_data s)\<rparr>"

definition deliver :: "seg \<Rightarrow> tcp_pcb \<Rightarrow> tcp_pcb" where
  "deliver it p =
     (set_sk (\<lambda>k. k\<lparr>recv_queue := recv_queue k @ [s_data it],
                    recv_buffer_len := recv_buffer_len k + skb_data_len it\<rparr>) p)
       \<lparr>rcv_nxt := rcv_nxt p + skb_data_len it\<rparr>"

fun drain_loop :: "seg list \<Rightarrow> tcp_pcb \<Rightarrow> seg list \<times> tcp_pcb" where
  "drain_loop [] p = ([], p)"
| "drain_loop (it # rest) p =
     (if SEQ_GT (s_seq it) (rcv_nxt p) then (it # rest, p)
      else if SEQ_LT (s_seq it) (rcv_nxt p) then
        (let overlap = rcv_nxt p - s_seq it
         in if overlap \<ge> skb_data_len it then drain_loop rest p
            else drain_loop rest (deliver ((seg_consume overlap it)\<lparr>s_seq := rcv_nxt p\<rparr>) p))
      else drain_loop rest (deliver it p))"

text \<open>
  The two trims of \<open>tcp_recv_data\<close>. \<open>None\<close> is the return without storing anything. The first trim
  moves the local variable \<open>seq\<close> but not \<open>skb->l4_private.tcp.seq\<close>.
\<close>

definition trim_segment :: "seg \<Rightarrow> tcp_pcb \<Rightarrow> seg option" where
  "trim_segment skb p =
     (let data_len = skb_data_len skb
      in if data_len = 0 then None
         else if SEQ_LT (s_seq skb) (rcv_nxt p) \<and> rcv_nxt p - s_seq skb \<ge> data_len then None
         else let (skb, sq) = (if SEQ_LT (s_seq skb) (rcv_nxt p)
                               then (seg_consume (rcv_nxt p - s_seq skb) skb, rcv_nxt p)
                               else (skb, s_seq skb));
                  data_len = skb_data_len skb;
                  limit = rcv_nxt p + rcv_wnd p
              in if SEQ_GT (sq + data_len) limit then
                   (let overlap = (sq + data_len) - limit
                    in if overlap \<ge> data_len then None
                       else Some (seg_truncate (data_len - overlap) skb))
                 else Some skb)"

definition tcp_recv_data :: "seg \<Rightarrow> tcp_pcb \<Rightarrow> bool \<times> tcp_pcb" where
  "tcp_recv_data skb p =
     (case trim_segment skb p of
        None \<Rightarrow> (False, p)
      | Some skb \<Rightarrow>
          (case insert_cmp tcp_seq_cmp (unordered_skb_list p) skb of
             (list, r) \<Rightarrow>
               if r < 0 then (False, p)
               else (case drain_loop list p of
                       (list, p) \<Rightarrow>
                         let p = emit (Notify notify_data_read) (p\<lparr>unordered_skb_list := list\<rparr>)
                         in (True, p\<lparr>rcv_wnd := min (SOCKET_USEABLE_RECV_BUFF_SIZE (sk p))
                                                 (recv_buffer_len_max (sk p))\<rparr>))))"

section \<open>The active opener\<close>

definition restart_keepalive :: "tcp_pcb \<Rightarrow> tcp_pcb" where
  "restart_keepalive p =
     tcp_update_timer Keepalive (now p + keepalive_timeout p) True (p\<lparr>keepalive_repeat_count := 0\<rparr>)"

definition ack_now :: "tcp_pcb \<Rightarrow> tcp_pcb" where
  "ack_now p = tcp_update_timer Ack (now p) False p"

definition set_error :: "int \<Rightarrow> tcp_pcb \<Rightarrow> tcp_pcb" where
  "set_error e = set_sk (\<lambda>k. k\<lparr>sock_error := e\<rparr>)"

definition syn_sent_open :: "inseg \<Rightarrow> tcp_pcb \<Rightarrow> tcp_pcb" where
  "syn_sent_open s p =
     (let p = p\<lparr>rcv_nxt := in_seq s + 1\<rparr>;
          p = (if has (in_flags s) TCP_FLAG_ACK then
                 let p = p\<lparr>snd_una := in_ack s, last_ack := in_ack s, last_ack_repeat := 0,
                           state := TCP_STATE_ESTABLISHED\<rparr>;
                     p = tcp_update_retransmit_queue p;
                     p = (if opt_keepalive (sk p) then restart_keepalive p else p)
                 in ack_now (emit (Notify notify_data_write) p)
               else let p = p\<lparr>state := TCP_STATE_SYN_RECEIVED,
                              retransmit_queue :=
                                (case retransmit_queue p of [] \<Rightarrow> []
                                 | syn # q \<Rightarrow> add_flag TCP_FLAG_ACK syn # q)\<rparr>
                    in tcp_update_timer Retransmit (now p) True p);
          p = tcp_snd_win_change (tcp_decode_window p (in_wnd s) (in_flags s)) p
      in p\<lparr>snd_wl1 := in_seq s, snd_wl2 := in_ack s\<rparr>)"

text \<open>
  After a reset the function does not return: it goes on with the options and the SYN flag.
\<close>

definition tcp_process_syn_sent :: "inseg \<Rightarrow> tcp_pcb \<Rightarrow> tcp_pcb" where
  "tcp_process_syn_sent s p =
     (let fl = in_flags s
      in if has fl TCP_FLAG_ACK \<and> (SEQ_LEQ (in_ack s) (snd_una p) \<or> SEQ_GT (in_ack s) (snd_nxt p))
         then (if has fl TCP_FLAG_RST then p else snd (tcp_send_flag (in_ack s) 0 TCP_FLAG_RST p))
         else let p = (if has fl TCP_FLAG_RST then destroy_tcp_socket (set_error ECONNREFUSED p) else p)
              in case parse_tcp_options fl (in_options s) p of
                   (r, p) \<Rightarrow> if r < 0 then p
                             else if has fl TCP_FLAG_SYN then syn_sent_open s p else p)"

section \<open>The steps of the synchronized states\<close>

datatype flow = Return tcp_pcb | Continue tcp_pcb

primrec after :: "flow \<Rightarrow> tcp_pcb" where
  "after (Return p) = p"
| "after (Continue p) = p"

primrec and_then :: "flow \<Rightarrow> (tcp_pcb \<Rightarrow> flow) \<Rightarrow> flow" where
  "and_then (Return p) f = Return p"
| "and_then (Continue p) f = f p"

definition in_rcv_window :: "u32 \<Rightarrow> tcp_pcb \<Rightarrow> bool" where
  "in_rcv_window sq p \<longleftrightarrow> SEQ_LEQ (rcv_nxt p) sq \<and> SEQ_LT sq (rcv_nxt p + rcv_wnd p)"

definition seg_allow :: "inseg \<Rightarrow> tcp_pcb \<Rightarrow> bool" where
  "seg_allow s p \<longleftrightarrow>
     (if in_seg_len s = 0
      then (if rcv_wnd p = 0 then rcv_nxt p = in_seq s else in_rcv_window (in_seq s) p)
      else rcv_wnd p \<noteq> 0 \<and>
           (in_rcv_window (in_seq s) p \<or> in_rcv_window (in_seq s + in_seg_len s - 1) p)) \<or>
     state p = TCP_STATE_TIME_WAIT \<and>
     in_flags s AND (TCP_FLAG_ACK OR TCP_FLAG_FIN) = (TCP_FLAG_ACK OR TCP_FLAG_FIN) \<and>
     \<not> has (in_flags s) (TCP_FLAG_RST OR TCP_FLAG_SYN) \<and>
     in_seq s + in_data_len s + 1 = rcv_nxt p"

definition input_seq :: "inseg \<Rightarrow> tcp_pcb \<Rightarrow> flow" where
  "input_seq s p =
     (if \<not> seg_allow s p \<and> \<not> has (in_flags s) TCP_FLAG_RST then Return (ack_now p) else Continue p)"

definition input_rst :: "inseg \<Rightarrow> tcp_pcb \<Rightarrow> flow" where
  "input_rst s p =
     (if has (in_flags s) TCP_FLAG_RST then
        if in_seq s \<noteq> rcv_nxt p then Return (ack_now p)
        else Return (case state p of
               TCP_STATE_SYN_RECEIVED \<Rightarrow>
                 if has_parent p then destroy_tcp_socket p
                 else destroy_tcp_socket (set_error ECONNREFUSED p)
             | TCP_STATE_ESTABLISHED \<Rightarrow> destroy_tcp_socket (set_error ECONNRESET p)
             | TCP_STATE_FIN_WAIT_1 \<Rightarrow> destroy_tcp_socket (set_error ECONNRESET p)
             | TCP_STATE_FIN_WAIT_2 \<Rightarrow> destroy_tcp_socket (set_error ECONNRESET p)
             | TCP_STATE_CLOSE_WAIT \<Rightarrow> destroy_tcp_socket (set_error ECONNRESET p)
             | TCP_STATE_CLOSING \<Rightarrow> destroy_tcp_socket p
             | TCP_STATE_LAST_ACK \<Rightarrow> destroy_tcp_socket p
             | TCP_STATE_TIME_WAIT \<Rightarrow> destroy_tcp_socket p
             | _ \<Rightarrow> p)
      else Continue p)"

definition synchronized :: "tcp_state \<Rightarrow> bool" where
  "synchronized st \<longleftrightarrow> st \<notin> {TCP_STATE_CLOSED, TCP_STATE_LISTEN, TCP_STATE_SYN_SENT, TCP_STATE_SYN_RECEIVED}"

definition input_syn :: "inseg \<Rightarrow> tcp_pcb \<Rightarrow> flow" where
  "input_syn s p =
     (if has (in_flags s) TCP_FLAG_SYN then
        Return (if state p = TCP_STATE_SYN_RECEIVED \<and> has_parent p then destroy_tcp_socket p
                else if state p = TCP_STATE_SYN_RECEIVED \<or> synchronized (state p) then ack_now p
                else p)
      else Continue p)"

section \<open>The acknowledgement\<close>

definition input_ack_range :: "inseg \<Rightarrow> tcp_pcb \<Rightarrow> flow" where
  "input_ack_range s p =
     (if \<not> has (in_flags s) TCP_FLAG_ACK then Return p
      else if SEQ_LT (in_ack s) (snd_una p - snd_wnd p) \<or> SEQ_GT (in_ack s) (snd_nxt p)
           then Return (ack_now p)
      else Continue p)"

definition ack_syn_received :: "inseg \<Rightarrow> tcp_pcb \<Rightarrow> flow" where
  "ack_syn_received s p =
     (let ack = in_ack s
      in if SEQ_LT (snd_una p) ack \<and> SEQ_LEQ ack (snd_nxt p) then
           (let p = p\<lparr>state := TCP_STATE_ESTABLISHED, snd_una := ack, last_ack := ack,
                      last_ack_repeat := 0\<rparr>;
                p = tcp_update_retransmit_queue p;
                p = tcp_snd_win_change (tcp_decode_window p (in_wnd s) (in_flags s)) p;
                p = p\<lparr>snd_wl1 := in_seq s, snd_wl2 := ack\<rparr>;
                p = (if opt_keepalive (sk p) then restart_keepalive p else p)
            in Continue (emit (if has_parent p then ToAccept else Notify notify_data_write) p))
         else if SEQ_LEQ ack (snd_una p) then Return (snd (tcp_send_flag ack 0 TCP_FLAG_RST p))
         else Continue p)"

definition rtt_sample :: "tcp_pcb \<Rightarrow> tcp_pcb" where
  "rtt_sample p =
     (let (sample, p) =
            (if peer_ts_ok p \<and> ts_last_tsecr p \<noteq> 0
             then (if now p > unat (ts_last_tsecr p) then trunc32 (now p - unat (ts_last_tsecr p)) else 0,
                   p\<lparr>ts_last_tsecr := 0\<rparr>)
             else if rtt_meas_time p \<noteq> 0 \<and> SEQ_LEQ (rtt_meas_seq p) (snd_una p)
             then (trunc32 (now p - rtt_meas_time p), p)
             else (0, p));
          p = (if sample \<noteq> 0 \<and> metrics p \<noteq> None then
                 (case tcp_metrics_sample (metrics p) sample of
                    (rto, m) \<Rightarrow> p\<lparr>metrics := m, retransmit_timeout := rto\<rparr>)
               else p)
      in p\<lparr>rtt_meas_time := 0\<rparr>)"

definition window_newer :: "inseg \<Rightarrow> tcp_pcb \<Rightarrow> bool" where
  "window_newer s p \<longleftrightarrow>
     SEQ_LT (snd_wl1 p) (in_seq s) \<or> snd_wl1 p = in_seq s \<and> SEQ_LEQ (snd_wl2 p) (in_ack s)"

definition take_window :: "inseg \<Rightarrow> tcp_pcb \<Rightarrow> tcp_pcb" where
  "take_window s p =
     (if window_newer s p
      then (tcp_snd_win_change (tcp_decode_window p (in_wnd s) (in_flags s)) p)
             \<lparr>snd_wl1 := in_seq s, snd_wl2 := in_ack s\<rparr>
      else p)"

definition ack_new :: "inseg \<Rightarrow> tcp_pcb \<Rightarrow> tcp_pcb" where
  "ack_new s p =
     (let ack = in_ack s;
          prior_una = snd_una p;
          prior_flight = snd_nxt p - prior_una;
          bytes = ack - prior_una;
          was_cwnd_limited = (unat prior_flight + unat (snd_mss p) \<ge> unat (snd_cwnd p));
          p = tcp_update_retransmit_queue (p\<lparr>snd_una := ack\<rparr>);
          p = p\<lparr>last_ack := ack, last_ack_repeat := 0\<rparr>;
          p = take_window s (rtt_sample p)
      in case tcp_congestion_on_ack (unat bytes) was_cwnd_limited p of
           (again, p) \<Rightarrow> if again then tcp_retransmit_now p else p)"

definition ack_repeat :: "inseg \<Rightarrow> tcp_pcb \<Rightarrow> tcp_pcb" where
  "ack_repeat s p =
     (let new_wnd = tcp_decode_window p (in_wnd s) (in_flags s);
          window_changed = (window_newer s p \<and> snd_wnd p \<noteq> new_wnd);
          p = take_window s p
      in if \<not> window_changed \<and> in_ack s = last_ack p \<and> in_seg_len s = 0 \<and> SEQ_GT (snd_nxt p) (snd_una p)
         then (let p = p\<lparr>last_ack_repeat := trunc32 (last_ack_repeat p + 1)\<rparr>
               in case tcp_congestion_on_duplicate_ack (last_ack_repeat p) p of
                    (again, p) \<Rightarrow> if again then tcp_retransmit_now p else p)
         else if in_ack s \<noteq> last_ack p then p\<lparr>last_ack := in_ack s, last_ack_repeat := 0\<rparr>
         else p)"

text \<open>The reactions to the acknowledgement of our own FIN.\<close>

definition ack_closing :: "tcp_pcb \<Rightarrow> flow" where
  "ack_closing p =
     (if state p = TCP_STATE_FIN_WAIT_1 \<and> snd_una p = snd_end p then
        (let p = tcp_complete_linger (p\<lparr>state := TCP_STATE_FIN_WAIT_2\<rparr>)
         in Continue (if has_fd (sk p) then p
                      else tcp_update_timer Finwait2 (now p + finwait2_timeout p) True p))
      else if state p = TCP_STATE_CLOSING then
        (if snd_una p = snd_end p then
           (let p = tcp_complete_linger (p\<lparr>state := TCP_STATE_TIME_WAIT\<rparr>)
            in Continue (tcp_update_timer Timewait (now p + timewait_timeout p) True p))
         else Continue p)
      else if state p = TCP_STATE_LAST_ACK \<and> snd_una p = snd_end p
      then Return (destroy_tcp_socket (tcp_complete_linger p))
      else Continue p)"

definition input_ack :: "inseg \<Rightarrow> tcp_pcb \<Rightarrow> flow" where
  "input_ack s p =
     (if state p = TCP_STATE_SYN_RECEIVED then ack_syn_received s p
      else if state p \<in> {TCP_STATE_ESTABLISHED, TCP_STATE_FIN_WAIT_1, TCP_STATE_FIN_WAIT_2,
                         TCP_STATE_CLOSE_WAIT, TCP_STATE_CLOSING, TCP_STATE_LAST_ACK}
      then (if SEQ_LT (snd_una p) (in_ack s) then ack_closing (ack_new s p)
            else Continue (ack_repeat s p))
      else Continue p)"

section \<open>Data and FIN\<close>

definition input_data :: "inseg \<Rightarrow> tcp_pcb \<Rightarrow> tcp_pcb" where
  "input_data s p =
     (if state p \<in> {TCP_STATE_ESTABLISHED, TCP_STATE_FIN_WAIT_1, TCP_STATE_FIN_WAIT_2} \<and>
         in_data_len s > 0 then
        (case tcp_recv_data \<lparr>s_seq = in_seq s, s_flag = in_flags s, s_data = in_data s\<rparr> p of
           (queued, p) \<Rightarrow>
             if queued then
               (let p = p\<lparr>ack_pending_segments := (ack_pending_segments p + 1) mod 256\<rparr>
                in if ack_pending_segments p \<ge> 3 then tcp_update_timer Ack (now p) True p
                   else tcp_update_timer Ack (now p + ack_timeout p) False p)
             else p)
      else p)"

definition fin_state :: "tcp_pcb \<Rightarrow> tcp_pcb" where
  "fin_state p =
     (case state p of
        TCP_STATE_SYN_RECEIVED \<Rightarrow> p\<lparr>state := TCP_STATE_CLOSE_WAIT\<rparr>
      | TCP_STATE_ESTABLISHED \<Rightarrow> p\<lparr>state := TCP_STATE_CLOSE_WAIT\<rparr>
      | TCP_STATE_FIN_WAIT_1 \<Rightarrow>
          if snd_una p = snd_end p
          then tcp_update_timer Timewait (now p + timewait_timeout p) False
                 (tcp_complete_linger (p\<lparr>state := TCP_STATE_TIME_WAIT\<rparr>))
          else p\<lparr>state := TCP_STATE_CLOSING\<rparr>
      | TCP_STATE_FIN_WAIT_2 \<Rightarrow>
          tcp_update_timer Timewait (now p + timewait_timeout p) False
            (tcp_update_timer Finwait2 0 True (p\<lparr>state := TCP_STATE_TIME_WAIT\<rparr>))
      | TCP_STATE_TIME_WAIT \<Rightarrow> tcp_update_timer Timewait (now p + timewait_timeout p) True p
      | _ \<Rightarrow> p)"

definition input_fin :: "inseg \<Rightarrow> tcp_pcb \<Rightarrow> flow" where
  "input_fin s p =
     (if state p = TCP_STATE_CLOSED \<or> state p = TCP_STATE_SYN_SENT then Return p
      else if has (in_flags s) TCP_FLAG_FIN \<and> state p = TCP_STATE_TIME_WAIT \<and>
              in_seq s + in_data_len s + 1 = rcv_nxt p
      then Return (tcp_update_timer Timewait (now p + timewait_timeout p) True
                     (tcp_update_timer Ack (now p) True p))
      else Continue
        (if has (in_flags s) TCP_FLAG_FIN \<and> in_seq s + in_data_len s = rcv_nxt p then
           (let p = p\<lparr>rcv_nxt := rcv_nxt p + 1, recv_fin := True\<rparr>;
                p = emit (Notify notify_recv_fin) p;
                p = tcp_update_timer Keepalive 0 True (p\<lparr>keepalive_repeat_count := 0\<rparr>)
            in fin_state (ack_now p))
         else p))"

definition input_keepalive :: "tcp_pcb \<Rightarrow> flow" where
  "input_keepalive p =
     Return (if opt_keepalive (sk p) \<and> state p = TCP_STATE_ESTABLISHED then restart_keepalive p else p)"

section \<open>The handler\<close>

definition tcp_input_closed :: "inseg \<Rightarrow> tcp_pcb \<Rightarrow> int \<times> tcp_pcb" where
  "tcp_input_closed s p =
     (if has (in_flags s) TCP_FLAG_RST then (0, p)
      else if \<not> has (in_flags s) TCP_FLAG_ACK
           then tcp_send_flag 0 (in_seq s + in_seg_len s) (TCP_FLAG_RST OR TCP_FLAG_ACK) p
      else tcp_send_flag (in_ack s) 0 TCP_FLAG_RST p)"

definition input_steps :: "inseg \<Rightarrow> tcp_pcb \<Rightarrow> flow" where
  "input_steps s p =
     and_then (input_seq s p) (\<lambda>p.
     and_then (input_rst s p) (\<lambda>p.
     and_then (input_syn s p) (\<lambda>p.
     and_then (input_ack_range s p) (\<lambda>p.
     and_then (input_ack s p) (\<lambda>p.
     and_then (input_fin s (input_data s p)) input_keepalive)))))"

text \<open>\<open>tcp_input\<close> in every state but LISTEN.\<close>

definition tcp_input :: "inseg \<Rightarrow> tcp_pcb \<Rightarrow> int \<times> tcp_pcb" where
  "tcp_input s p =
     (if state p = TCP_STATE_CLOSED then tcp_input_closed s p
      else if state p = TCP_STATE_SYN_SENT then (0, tcp_process_syn_sent s p)
      else case parse_tcp_options (in_flags s) (in_options s) p of
             (r, p) \<Rightarrow> (0, if r < 0 then p else after (input_steps s p)))"

end
