(* ===== verification/TcpRecv.thy ===== *)
theory TcpRecv
  imports TcpIn
begin

text \<open>
  The correctness of the receive side: whatever the order in which consistent segments arrive,
  \<open>tcp_recv_data\<close> appends to the receive queue exactly the next bytes of the peer's stream, keeps the
  reorder list sorted and beyond \<open>rcv_nxt\<close>, and loses nothing that it has accepted.
\<close>

section \<open>The reorder list\<close>

lemma seq_cmp_window:
  assumes "dist base (s_seq a) < 2 ^ 31" "dist base (s_seq c) < 2 ^ 31"
  shows "tcp_seq_cmp a c < 0 \<longleftrightarrow> dist base (s_seq a) < dist base (s_seq c)"
    "0 < tcp_seq_cmp a c \<longleftrightarrow> dist base (s_seq c) < dist base (s_seq a)"
  using SEQ_window [OF assms] by (auto simp: tcp_seq_cmp_def)

interpretation reorder: cmp_order "{s. dist base (s_seq s) < 2 ^ 31}" tcp_seq_cmp for base
  by unfold_locales (auto simp: seq_cmp_window [of base])

text \<open>
  \<open>b\<close> is the peer's stream; \<open>n\<close> of its bytes precede the sequence number \<open>base\<close>. A segment carries
  the stream when its payload is the bytes its sequence number stands for.
\<close>

definition carries :: "(nat \<Rightarrow> u8) \<Rightarrow> nat \<Rightarrow> u32 \<Rightarrow> seg \<Rightarrow> bool" where
  "carries b n base s \<longleftrightarrow>
     dist base (s_seq s) + length (s_data s) < 2 ^ 31 \<and>
     s_data s = map b [n + dist base (s_seq s) ..< n + dist base (s_seq s) + length (s_data s)]"

lemma carries_drop:
  assumes "carries b n base s" "dist base (s_seq s) \<le> k"
  shows "drop (k - dist base (s_seq s)) (s_data s) =
    map b [n + k ..< n + dist base (s_seq s) + length (s_data s)]"
proof -
  have "drop (k - dist base (s_seq s)) (s_data s) =
      drop (k - dist base (s_seq s))
        (map b [n + dist base (s_seq s) ..< n + dist base (s_seq s) + length (s_data s)])"
    using assms(1) by (simp add: carries_def)
  then show ?thesis using assms(2) by (simp add: drop_map drop_upt)
qed

lemma dist_base_add: "k < 2 ^ 31 \<Longrightarrow> dist base (base + of_nat k) = k"
  using dist_add [of base base k] by simp

lemma deliver_fields:
  "rcv_nxt (deliver s p) = rcv_nxt p + skb_data_len s"
  "recv_queue (sk (deliver s p)) = recv_queue (sk p) @ [s_data s]"
  "recv_buffer_len (sk (deliver s p)) = recv_buffer_len (sk p) + skb_data_len s"
  by (simp_all add: deliver_def set_sk_def)

definition progress :: "(nat \<Rightarrow> u8) \<Rightarrow> nat \<Rightarrow> u32 \<Rightarrow> tcp_pcb \<Rightarrow> nat \<Rightarrow> tcp_pcb \<Rightarrow> nat \<Rightarrow> bool" where
  "progress b n base p k q k' \<longleftrightarrow>
     k \<le> k' \<and> k' < 2 ^ 31 \<and> rcv_nxt q = base + of_nat k' \<and>
     concat (recv_queue (sk q)) = concat (recv_queue (sk p)) @ map b [n + k ..< n + k'] \<and>
     recv_buffer_len (sk q) = recv_buffer_len (sk p) + of_nat (k' - k)"

lemma progress_trans:
  assumes "progress b n base p k q k1" "progress b n base q k1 r k2"
  shows "progress b n base p k r k2"
proof -
  have "[n + k ..< n + k2] = [n + k ..< n + k1] @ [n + k1 ..< n + k2]"
    using assms upt_add_eq_append [of "n + k" "n + k1" "k2 - k1"] by (simp add: progress_def)
  moreover have "(of_nat (k1 - k) :: u32) + of_nat (k2 - k1) = of_nat (k2 - k)"
    using assms by (simp add: progress_def flip: of_nat_add)
  ultimately show ?thesis using assms by (simp add: progress_def add.assoc)
qed

lemma progress_deliver:
  assumes "rcv_nxt p = base + of_nat k" "k \<le> k'" "k' < 2 ^ 31" "s_data s = map b [n + k ..< n + k']"
  shows "progress b n base p k (deliver s p) k'"
proof -
  have "length (s_data s) = k' - k" using assms by simp
  then have l: "skb_data_len s = of_nat (k' - k)" by (simp add: skb_data_len_def)
  have "(of_nat k :: u32) + of_nat (k' - k) = of_nat k'" using assms(2) by (simp flip: of_nat_add)
  then show ?thesis using assms by (simp add: progress_def deliver_fields l add.assoc)
qed

lemma drain:
  assumes "rcv_nxt p = base + of_nat k" "k < 2 ^ 31" "\<forall>s \<in> set l. carries b n base s"
    "sorted_wrt (\<lambda>x y. tcp_seq_cmp x y < 0) l"
  shows "\<exists>k'. progress b n base p k (snd (drain_loop l p)) k' \<and>
    (\<exists>us. l = us @ fst (drain_loop l p) \<and>
       (\<forall>s \<in> set us. dist base (s_seq s) + length (s_data s) \<le> k')) \<and>
    (\<forall>s \<in> set (fst (drain_loop l p)). k' < dist base (s_seq s))"
  using assms
proof (induction l arbitrary: p k)
  case Nil
  then show ?case by (auto simp: progress_def)
next
  case (Cons it rest)
  let ?d = "dist base (s_seq it)" and ?n = "length (s_data it)"
  have c: "carries b n base it" and d: "?d < 2 ^ 31" and l: "?d + ?n < 2 ^ 31"
    using Cons.prems(3) by (auto simp: carries_def)
  have k: "dist base (rcv_nxt p) = k" using Cons.prems(1,2) by (simp add: dist_base_add)
  have kl: "dist base (rcv_nxt p) < 2 ^ 31" using k Cons.prems(2) by simp
  note w = SEQ_window [OF d kl] and rest = Cons.prems(3,4)
  have go: ?case if step: "drain_loop (it # rest) p = drain_loop rest q"
    "progress b n base p k q k1" "?d + ?n \<le> k1" for q k1
  proof -
    have q: "rcv_nxt q = base + of_nat k1" "k1 < 2 ^ 31" using step(2) by (auto simp: progress_def)
    from Cons.IH [OF q] rest obtain k' us where
      "progress b n base q k1 (snd (drain_loop rest q)) k'"
      "rest = us @ fst (drain_loop rest q)" "\<forall>s \<in> set us. dist base (s_seq s) + length (s_data s) \<le> k'"
      "\<forall>s \<in> set (fst (drain_loop rest q)). k' < dist base (s_seq s)" by auto
    moreover have "?d + ?n \<le> k'" using step(3) calculation(1) by (simp add: progress_def)
    ultimately show ?thesis using step progress_trans
      by (intro exI [of _ k'] conjI exI [of _ "it # us"]) auto
  qed
  consider "k < ?d" | "?d = k" | "?d < k" "?n \<le> k - ?d" | "?d < k" "k - ?d < ?n" by linarith
  then show ?case
  proof cases
    case 1
    moreover have "k < dist base (s_seq s)" if "s \<in> set rest" for s
      using that 1 rest seq_cmp_window(1) [OF d, of s] by (auto simp: carries_def)
    ultimately show ?thesis using Cons.prems(1,2) w k
      by (intro exI [of _ k] conjI exI [of _ "[]"]) (auto simp: progress_def)
  next
    case 2
    then have "s_data it = map b [n + k ..< n + (k + ?n)]" using c by (simp add: carries_def add.assoc)
    from progress_deliver [OF Cons.prems(1) _ _ this] show ?thesis
      using 2 l w k by (intro go [of "deliver it p" "k + ?n"]) auto
  next
    case 3
    have "unat (rcv_nxt p - s_seq it) = k - ?d" using 3 k dist_diff [of "rcv_nxt p" "s_seq it" base] by simp
    then have "skb_data_len it \<le> rcv_nxt p - s_seq it"
      using 3 l by (simp add: word_le_nat_alt unat_data_len)
    then show ?thesis using 3 w k Cons.prems(1,2)
      by (intro go [of p k]) (auto simp: progress_def Let_def)
  next
    case 4
    have o: "unat (rcv_nxt p - s_seq it) = k - ?d" using 4 k dist_diff [of "rcv_nxt p" "s_seq it" base] by simp
    then have "\<not> skb_data_len it \<le> rcv_nxt p - s_seq it"
      using 4 l by (simp add: word_le_nat_alt unat_data_len)
    moreover have "s_data ((seg_consume (rcv_nxt p - s_seq it) it)\<lparr>s_seq := rcv_nxt p\<rparr>) =
        map b [n + k ..< n + (?d + ?n)]"
      using carries_drop [OF c, of k] 4 by (simp add: seg_consume_def o add.assoc)
    from progress_deliver [OF Cons.prems(1) _ _ this] 4 l
    have "progress b n base p k (deliver ((seg_consume (rcv_nxt p - s_seq it) it)\<lparr>s_seq := rcv_nxt p\<rparr>) p) (?d + ?n)"
      by simp
    ultimately show ?thesis using 4 w k by (intro go) (auto simp: Let_def)
  qed
qed

section \<open>Trimming\<close>

lemma dist_shift:
  assumes "k \<le> dist base x" "k < 2 ^ 31"
  shows "dist (base + of_nat k) x = dist base x - k"
  using assms dist_diff [of x "base + of_nat k" base] dist_base_add [of k base] by (simp add: dist_def)

lemma carries_shift:
  assumes "carries b n base s" "k \<le> dist base (s_seq s)"
  shows "carries b (n + k) (base + of_nat k) s"
  using assms dist_shift [of k base "s_seq s"] by (auto simp: carries_def)

lemma carries_take:
  assumes "carries b n base s"
  shows "carries b n base (s\<lparr>s_data := take m (s_data s)\<rparr>)"
proof -
  let ?d = "n + dist base (s_seq s)"
  have "s_data s = map b [?d ..< ?d + length (s_data s)]" using assms by (simp add: carries_def)
  then have "take m (s_data s) = map b (take m [?d ..< ?d + length (s_data s)])"
    by (metis take_map)
  also have "take m [?d ..< ?d + length (s_data s)] = [?d ..< ?d + min m (length (s_data s))]"
    by (cases "m \<le> length (s_data s)") (auto simp: min_def)
  finally show ?thesis using assms by (auto simp: carries_def min.commute)
qed

text \<open>How much of a segment at distance \<open>d\<close> the window takes.\<close>

definition room :: "tcp_pcb \<Rightarrow> seg \<Rightarrow> nat" where
  "room p s = min (length (s_data s)) (unat (rcv_wnd p) - dist (rcv_nxt p) (s_seq s))"

lemma trim_ahead:
  assumes "dist (rcv_nxt p) (s_seq s) + length (s_data s) < 2 ^ 31" "unat (rcv_wnd p) < 2 ^ 31"
  shows "trim_segment s p = (if room p s = 0 then None else Some (s\<lparr>s_data := take (room p s) (s_data s)\<rparr>))"
proof -
  let ?d = "dist (rcv_nxt p) (s_seq s)" and ?n = "length (s_data s)" and ?w = "unat (rcv_wnd p)"
  let ?r = "rcv_nxt p" and ?e = "s_seq s + skb_data_len s" and ?lim = "rcv_nxt p + rcv_wnd p"
  have n: "unat (skb_data_len s) = ?n" using assms(1) by (simp add: unat_data_len)
  have e: "dist ?r ?e = ?d + ?n"
    using dist_add [of ?r "s_seq s" ?n] assms(1) by (simp add: skb_data_len_def)
  have lim: "dist ?r ?lim = ?w" using assms(2) by (simp add: dist_def)
  have lt: "\<not> SEQ_LT (s_seq s) ?r" using SEQ_window(1) [of ?r "s_seq s" ?r] assms(1) by simp
  have gt: "SEQ_GT ?e ?lim \<longleftrightarrow> ?w < ?d + ?n"
    using SEQ_window(2) [of ?r ?e ?lim] assms e lim by simp
  have z: "skb_data_len s = 0 \<longleftrightarrow> ?n = 0" using n by (metis unat_0 unat_eq_zero)
  show ?thesis
  proof (cases "?n \<noteq> 0 \<and> ?w < ?d + ?n")
    case True
    then have o: "unat (?e - ?lim) = ?d + ?n - ?w" using dist_diff [of ?e ?lim ?r] e lim by simp
    have "skb_data_len s \<le> ?e - ?lim \<longleftrightarrow> ?w \<le> ?d" using True o n by (auto simp: word_le_nat_alt)
    moreover have "unat (skb_data_len s - (?e - ?lim)) = ?w - ?d" if "?d < ?w"
      using that True o n by (subst unat_sub_no_wrap) (auto simp: word_le_nat_alt)
    ultimately show ?thesis using True lt gt z
      by (auto simp: trim_segment_def room_def seg_truncate_def Let_def)
  next
    case False
    then show ?thesis using lt gt z by (auto simp: trim_segment_def room_def Let_def min_def)
  qed
qed

section \<open>The invariant\<close>

definition rcv_inv :: "(nat \<Rightarrow> u8) \<Rightarrow> nat \<Rightarrow> tcp_pcb \<Rightarrow> bool" where
  "rcv_inv b n p \<longleftrightarrow>
     (\<forall>s \<in> set (unordered_skb_list p). carries b n (rcv_nxt p) s \<and> 0 < dist (rcv_nxt p) (s_seq s)) \<and>
     sorted_wrt (\<lambda>x y. tcp_seq_cmp x y < 0) (unordered_skb_list p)"

text \<open>What one call leaves: \<open>k\<close> new bytes of the stream in the receive queue.\<close>

definition received :: "(nat \<Rightarrow> u8) \<Rightarrow> nat \<Rightarrow> tcp_pcb \<Rightarrow> tcp_pcb \<Rightarrow> nat \<Rightarrow> bool" where
  "received b n p q k \<longleftrightarrow>
     rcv_inv b (n + k) q \<and> rcv_nxt q = rcv_nxt p + of_nat k \<and>
     concat (recv_queue (sk q)) = concat (recv_queue (sk p)) @ map b [n ..< n + k] \<and>
     recv_buffer_len (sk q) = recv_buffer_len (sk p) + of_nat k \<and>
     (\<forall>t \<in> set (unordered_skb_list p). t \<in> set (unordered_skb_list q) \<or>
        dist (rcv_nxt p) (s_seq t) + length (s_data t) \<le> k)"

lemma received_refl: "rcv_inv b n p \<Longrightarrow> received b n p p 0"
  by (simp add: received_def)

lemma drain_received:
  assumes l: "\<forall>s \<in> set l. carries b n (rcv_nxt p) s" "sorted_wrt (\<lambda>x y. tcp_seq_cmp x y < 0) l"
    "set (unordered_skb_list p) \<subseteq> set l"
    and q: "unordered_skb_list q = fst (drain_loop l p)" "rcv_nxt q = rcv_nxt (snd (drain_loop l p))"
    "recv_queue (sk q) = recv_queue (sk (snd (drain_loop l p)))"
    "recv_buffer_len (sk q) = recv_buffer_len (sk (snd (drain_loop l p)))"
  shows "\<exists>k. received b n p q k \<and> (\<forall>s \<in> set l. s \<in> set (unordered_skb_list q) \<and> k < dist (rcv_nxt p) (s_seq s) \<or>
        dist (rcv_nxt p) (s_seq s) + length (s_data s) \<le> k)"
proof -
  have z: "rcv_nxt p = rcv_nxt p + of_nat 0" "(0 :: nat) < 2 ^ 31" by simp_all
  obtain k us where k: "progress b n (rcv_nxt p) p 0 (snd (drain_loop l p)) k"
    "l = us @ unordered_skb_list q" "\<forall>s \<in> set us. dist (rcv_nxt p) (s_seq s) + length (s_data s) \<le> k"
    "\<forall>s \<in> set (unordered_skb_list q). k < dist (rcv_nxt p) (s_seq s)"
    using drain [OF z l(1,2)] unfolding q(1) by blast
  have lk: "k < 2 ^ 31" using k(1) by (simp add: progress_def)
  have n: "rcv_nxt q = rcv_nxt p + of_nat k" using k(1) q by (simp add: progress_def)
  have "carries b (n + k) (rcv_nxt q) s \<and> 0 < dist (rcv_nxt q) (s_seq s)"
    if "s \<in> set (unordered_skb_list q)" for s
    using that l(1) k(2,4) carries_shift [of b n "rcv_nxt p" s k] dist_shift [of k "rcv_nxt p" "s_seq s"] lk n
    by auto
  moreover have "sorted_wrt (\<lambda>x y. tcp_seq_cmp x y < 0) (unordered_skb_list q)"
    using l(2) k(2) by (simp add: sorted_wrt_append)
  ultimately have inv: "rcv_inv b (n + k) q" by (simp add: rcv_inv_def)
  have all: "\<forall>s \<in> set l. s \<in> set (unordered_skb_list q) \<and> k < dist (rcv_nxt p) (s_seq s) \<or>
      dist (rcv_nxt p) (s_seq s) + length (s_data s) \<le> k"
    using k(2-4) by (metis UnE set_append)
  with inv n l(3) k(1) q have "received b n p q k" by (auto simp: received_def progress_def)
  with all show ?thesis by blast
qed

lemma insert_cmp_ret: "snd (insert_cmp c xs a) = 0 \<or> snd (insert_cmp c xs a) = - 1"
  by (induction xs) (auto simp: split_beta)

lemma insert_ahead:
  assumes "rcv_inv b n p" "carries b n (rcv_nxt p) s"
  defines "l \<equiv> fst (insert_cmp tcp_seq_cmp (unordered_skb_list p) s)"
    and "r \<equiv> snd (insert_cmp tcp_seq_cmp (unordered_skb_list p) s)"
  shows "sorted_wrt (\<lambda>x y. tcp_seq_cmp x y < 0) l"
    and "\<forall>t \<in> set l. carries b n (rcv_nxt p) t"
    and "r < 0 \<longleftrightarrow> (\<exists>t \<in> set (unordered_skb_list p). s_seq t = s_seq s)"
    and "\<not> r < 0 \<Longrightarrow> set l = insert s (set (unordered_skb_list p))"
proof -
  have r: "r = 0 \<or> r = - 1" unfolding r_def by (rule insert_cmp_ret)
  have c: "set (unordered_skb_list p) \<subseteq> {t. dist (rcv_nxt p) (s_seq t) < 2 ^ 31}"
    "s \<in> {t. dist (rcv_nxt p) (s_seq t) < 2 ^ 31}"
    using assms(1,2) by (auto simp: rcv_inv_def carries_def)
  have o: "sorted_wrt (\<lambda>x y. tcp_seq_cmp x y < 0) (unordered_skb_list p)"
    using assms(1) by (simp add: rcv_inv_def)
  show "sorted_wrt (\<lambda>x y. tcp_seq_cmp x y < 0) l"
    unfolding l_def by (rule reorder.insert_cmp_sorted [OF c o])
  have st: "set l = (if r = 0 then insert s (set (unordered_skb_list p)) else set (unordered_skb_list p))"
    unfolding l_def r_def by (rule reorder.insert_cmp_set)
  then show "\<forall>t \<in> set l. carries b n (rcv_nxt p) t" using assms(1,2) by (auto simp: rcv_inv_def)
  show "\<not> r < 0 \<Longrightarrow> set l = insert s (set (unordered_skb_list p))" using st r by auto
  have eq: "tcp_seq_cmp t s = 0 \<longleftrightarrow> s_seq t = s_seq s" if "t \<in> set (unordered_skb_list p)" for t
  proof -
    have "dist (rcv_nxt p) (s_seq t) < 2 ^ 31" "dist (rcv_nxt p) (s_seq s) < 2 ^ 31" using that c by auto
    from seq_cmp_window [OF this] have "tcp_seq_cmp t s = 0 \<longleftrightarrow> dist (rcv_nxt p) (s_seq t) = dist (rcv_nxt p) (s_seq s)"
      by linarith
    then show ?thesis using dist_inj by metis
  qed
  have "r \<noteq> 0 \<longleftrightarrow> (\<exists>t \<in> set (unordered_skb_list p). tcp_seq_cmp t s = 0)"
    unfolding r_def by (rule reorder.insert_cmp_rejects [OF c o])
  moreover have "r < 0 \<longleftrightarrow> r \<noteq> 0" using r by linarith
  ultimately show "r < 0 \<longleftrightarrow> (\<exists>t \<in> set (unordered_skb_list p). s_seq t = s_seq s)"
    using eq by (simp cong: bex_cong)
qed

section \<open>Receiving a segment\<close>

lemma recv_data:
  assumes inv: "rcv_inv b n p" and s: "carries b n (rcv_nxt p) s" and w: "unat (rcv_wnd p) < 2 ^ 31"
  defines "queued \<equiv> fst (tcp_recv_data s p)" and "q \<equiv> snd (tcp_recv_data s p)"
    and "d \<equiv> dist (rcv_nxt p) (s_seq s)" and "part \<equiv> s\<lparr>s_data := take (room p s) (s_data s)\<rparr>"
  shows "\<exists>k. received b n p q k \<and>
    (queued \<longrightarrow> d + room p s \<le> k \<or> part \<in> set (unordered_skb_list q)) \<and>
    (queued \<longleftrightarrow> 0 < room p s \<and> (\<forall>t \<in> set (unordered_skb_list p). s_seq t \<noteq> s_seq s)) \<and>
    (s_seq s = rcv_nxt p \<longrightarrow> room p s \<le> k)"
proof (cases "room p s = 0")
  case True
  then have "trim_segment s p = None" using trim_ahead [OF _ w] s by (simp add: carries_def)
  then have "queued = False" "q = p" by (simp_all add: queued_def q_def tcp_recv_data_def)
  then show ?thesis using received_refl [OF inv] True by auto
next
  case False
  let ?i = "insert_cmp tcp_seq_cmp (unordered_skb_list p) part"
  have t: "trim_segment s p = Some part" using trim_ahead [OF _ w] s False by (simp add: carries_def part_def)
  have c: "carries b n (rcv_nxt p) part" unfolding part_def by (rule carries_take [OF s])
  have sq: "s_seq part = s_seq s" by (simp add: part_def)
  note ins = insert_ahead [OF inv c]
  show ?thesis
  proof (cases "snd ?i < 0")
    case True
    then have "queued = False" "q = p" by (simp_all add: queued_def q_def tcp_recv_data_def t split_beta)
    moreover have "s_seq s \<noteq> rcv_nxt p"
      using True ins(3) inv sq by (metis dist_self less_numeral_extra(3) rcv_inv_def)
    ultimately show ?thesis using received_refl [OF inv] True ins(3) sq by (metis add_0)
  next
    case rej: False
    have q: "unordered_skb_list q = fst (drain_loop (fst ?i) p)" "rcv_nxt q = rcv_nxt (snd (drain_loop (fst ?i) p))"
      "recv_queue (sk q) = recv_queue (sk (snd (drain_loop (fst ?i) p)))"
      "recv_buffer_len (sk q) = recv_buffer_len (sk (snd (drain_loop (fst ?i) p)))" and qd: "queued"
      using rej by (simp_all add: queued_def q_def tcp_recv_data_def t split_beta Let_def emit_def)
    have l: "set (fst ?i) = insert part (set (unordered_skb_list p))" by (rule ins(4) [OF rej])
    then have sub: "set (unordered_skb_list p) \<subseteq> set (fst ?i)" by blast
    from drain_received [OF ins(2,1) sub q] obtain k where k: "received b n p q k"
      "\<forall>u \<in> set (fst ?i). u \<in> set (unordered_skb_list q) \<and> k < dist (rcv_nxt p) (s_seq u) \<or>
         dist (rcv_nxt p) (s_seq u) + length (s_data u) \<le> k" by blast
    have len: "length (s_data part) = room p s" by (simp add: part_def room_def)
    from k(2) l have m: "part \<in> set (unordered_skb_list q) \<and> k < d \<or> d + room p s \<le> k"
      using sq len d_def by (metis insertI1)
    have "\<forall>u \<in> set (unordered_skb_list p). s_seq u \<noteq> s_seq s" using ins(3) rej sq by metis
    moreover have "room p s \<le> k" if "s_seq s = rcv_nxt p" using that m by (auto simp: d_def)
    ultimately show ?thesis using m k(1) qd False by (intro exI [of _ k]) auto
  qed
qed

lemma overlap_twice:
  assumes "unordered_skb_list p = []" "SEQ_LT (s_seq s) (rcv_nxt p)"
    and "unat (rcv_nxt p - s_seq s) < length (s_data s)" "length (s_data s) < 2 ^ 31"
    and "length (s_data s) - unat (rcv_nxt p - s_seq s) \<le> unat (rcv_wnd p)" "unat (rcv_wnd p) < 2 ^ 31"
  defines "lost \<equiv> 2 * unat (rcv_nxt p - s_seq s)" and "q \<equiv> snd (tcp_recv_data s p)"
  shows "concat (recv_queue (sk q)) = concat (recv_queue (sk p)) @ drop lost (s_data s)"
    "rcv_nxt q = rcv_nxt p + of_nat (length (s_data s) - lost)" "fst (tcp_recv_data s p)"
proof -
  let ?o = "rcv_nxt p - s_seq s" and ?n = "length (s_data s)"
  let ?s = "seg_consume ?o s" and ?d = "drain_loop [seg_consume ?o s] p"
  have n: "unat (skb_data_len s) = ?n" "unat (skb_data_len ?s) = ?n - unat ?o"
    using assms(4) by (simp_all add: unat_data_len seg_consume_def)
  have "dist (rcv_nxt p) (rcv_nxt p + skb_data_len ?s) = ?n - unat ?o"
    "dist (rcv_nxt p) (rcv_nxt p + rcv_wnd p) = unat (rcv_wnd p)" using n by (simp_all add: dist_def)
  then have "\<not> SEQ_GT (rcv_nxt p + skb_data_len ?s) (rcv_nxt p + rcv_wnd p)"
    using assms(4,5,6) SEQ_window(2) [of "rcv_nxt p" "rcv_nxt p + skb_data_len ?s" "rcv_nxt p + rcv_wnd p"] by simp
  moreover have "skb_data_len s \<noteq> 0" "\<not> skb_data_len s \<le> ?o" using n(1) assms(3) by (auto simp: word_le_nat_alt)
  ultimately have t: "trim_segment s p = Some ?s" using assms(2) by (simp add: trim_segment_def Let_def)
  have q: "recv_queue (sk q) = recv_queue (sk (snd ?d))" "rcv_nxt q = rcv_nxt (snd ?d)" "fst (tcp_recv_data s p)"
    using assms(1) by (simp_all add: q_def tcp_recv_data_def t split_beta Let_def emit_def)
  then show "fst (tcp_recv_data s p)" by blast
  have sq: "s_seq ?s = s_seq s" "\<not> SEQ_GT (s_seq s) (rcv_nxt p)"
    using assms(2) by (auto simp: seg_consume_def SEQ_LT_def SEQ_GT_def)
  have le: "skb_data_len ?s \<le> ?o \<longleftrightarrow> ?n \<le> lost" using n(2) assms(3) by (auto simp: word_le_nat_alt lost_def)
  have "drop (unat ?o) (drop (unat ?o) (s_data s)) = drop lost (s_data s)" by (simp add: lost_def mult_2)
  moreover have "skb_data_len (seg_consume ?o ?s\<lparr>s_seq := rcv_nxt p\<rparr>) = of_nat (?n - lost)"
    by (simp add: skb_data_len_def seg_consume_def lost_def mult_2 diff_diff_eq)
  ultimately show "concat (recv_queue (sk q)) = concat (recv_queue (sk p)) @ drop lost (s_data s)"
    "rcv_nxt q = rcv_nxt p + of_nat (?n - lost)"
    using q sq assms(2) le by (cases "?n \<le> lost"; simp add: deliver_fields Let_def seg_consume_def)+
qed

section \<open>Properties\<close>

text \<open>
  C4. A segment that carries the peer's stream and does not start before \<open>rcv_nxt\<close> adds to the receive
  queue exactly the next \<open>k\<close> bytes of the stream, for some \<open>k\<close>; \<open>rcv_nxt\<close> and \<open>recv_buffer_len\<close> move by
  \<open>k\<close>; the reorder list stays sorted, consistent and strictly beyond \<open>rcv_nxt\<close>; nothing on it and no
  accepted byte within the window is lost; and an in-order segment is delivered at once.
\<close>

theorem receive_exact:
  assumes "rcv_inv b n p" "carries b n (rcv_nxt p) s" "unat (rcv_wnd p) < 2 ^ 31"
  defines "queued \<equiv> fst (tcp_recv_data s p)" and "q \<equiv> snd (tcp_recv_data s p)"
  shows "\<exists>k. received b n p q k \<and>
    (queued \<longrightarrow> dist (rcv_nxt p) (s_seq s) + room p s \<le> k \<or>
       s\<lparr>s_data := take (room p s) (s_data s)\<rparr> \<in> set (unordered_skb_list q)) \<and>
    (queued \<longleftrightarrow> 0 < room p s \<and> (\<forall>t \<in> set (unordered_skb_list p). s_seq t \<noteq> s_seq s)) \<and>
    (s_seq s = rcv_nxt p \<longrightarrow> room p s \<le> k)"
  unfolding queued_def q_def by (rule recv_data [OF assms(1-3)])

definition recv_example :: tcp_pcb where
  "recv_example = pcb_blank\<lparr>rcv_nxt := 0xFFFFFFFE, rcv_wnd := 100,
     unordered_skb_list := [\<lparr>s_seq = 1, s_flag = TCP_FLAG_ACK, s_data = [3, 4]\<rparr>]\<rparr>"

theorem receive_exact_witness:
  "\<exists>k. received of_nat 0 recv_example
          (snd (tcp_recv_data \<lparr>s_seq = 0xFFFFFFFE, s_flag = TCP_FLAG_ACK, s_data = [0, 1, 2]\<rparr> recv_example)) k \<and>
       3 \<le> k"
proof -
  let ?s = "\<lparr>s_seq = 0xFFFFFFFE, s_flag = TCP_FLAG_ACK, s_data = [0, 1, 2]\<rparr>"
  have "rcv_inv of_nat 0 recv_example"
    by (simp add: rcv_inv_def recv_example_def pcb_blank_def carries_def dist_def upt_rec)
  moreover have "carries of_nat 0 (rcv_nxt recv_example) ?s" "unat (rcv_wnd recv_example) < 2 ^ 31"
    by (simp_all add: recv_example_def pcb_blank_def carries_def dist_def upt_rec)
  moreover have "room recv_example ?s = 3" "s_seq ?s = rcv_nxt recv_example"
    by (simp_all add: room_def recv_example_def pcb_blank_def dist_def)
  ultimately show ?thesis using receive_exact [of of_nat 0 recv_example ?s] by auto
qed

text \<open>
  C38. A segment that repeats \<open>o\<close> bytes before \<open>rcv_nxt\<close> is trimmed twice: the first trim of
  \<open>tcp_recv_data\<close> does not move \<open>skb->l4_private.tcp.seq\<close>, so the delivery loop removes another \<open>o\<close>
  bytes. The user receives the payload without its first \<open>2 o\<close> bytes at the position of the first
  new byte, or, when no more than \<open>o\<close> bytes were new, nothing at all, and the call reports success.
\<close>

theorem overlapping_prefix_trimmed_twice:
  assumes "unordered_skb_list p = []" "SEQ_LT (s_seq s) (rcv_nxt p)"
    and "unat (rcv_nxt p - s_seq s) < length (s_data s)" "length (s_data s) < 2 ^ 31"
    and "length (s_data s) - unat (rcv_nxt p - s_seq s) \<le> unat (rcv_wnd p)" "unat (rcv_wnd p) < 2 ^ 31"
  defines "lost \<equiv> 2 * unat (rcv_nxt p - s_seq s)" and "q \<equiv> snd (tcp_recv_data s p)"
  shows "concat (recv_queue (sk q)) = concat (recv_queue (sk p)) @ drop lost (s_data s) \<and>
    rcv_nxt q = rcv_nxt p + of_nat (length (s_data s) - lost) \<and> fst (tcp_recv_data s p)"
  using overlap_twice [OF assms(1-6)] unfolding lost_def q_def by blast

theorem overlapping_prefix_trimmed_twice_witness:
  "recv_queue (sk (snd (tcp_recv_data \<lparr>s_seq = 90, s_flag = TCP_FLAG_ACK, s_data = map of_nat [0..<30]\<rparr>
     (pcb_blank\<lparr>rcv_nxt := 100, rcv_wnd := 1000\<rparr>)))) \<noteq> [map of_nat [10..<30]]"
proof -
  let ?s = "\<lparr>s_seq = 90, s_flag = TCP_FLAG_ACK, s_data = map of_nat [0..<30]\<rparr> :: seg"
  let ?p = "pcb_blank\<lparr>rcv_nxt := 100, rcv_wnd := 1000\<rparr>"
  have "SEQ_LT 90 (100 :: u32)" by (simp add: SEQ_LT_def)
  then have "concat (recv_queue (sk (snd (tcp_recv_data ?s ?p)))) = drop 20 (map of_nat [0..<30])"
    using overlapping_prefix_trimmed_twice [of ?p ?s] by (simp add: pcb_blank_def sock_blank_def)
  then have "length (concat (recv_queue (sk (snd (tcp_recv_data ?s ?p))))) = 10" by simp
  moreover have "length (concat [map of_nat [10..<30] :: u8 list]) = 20" by simp
  ultimately show ?thesis by force
qed

end
