(* ===== verification/TcpStates.thy ===== *)
theory TcpStates
  imports TcpIn
begin

text \<open>
  What an arriving segment, whoever sent it, can do to a connection: the state transitions of
  \<open>tcp_input\<close>, the conditions under which a segment is allowed to touch the queues or to reset the
  connection, and the send-side and timer invariants across the whole handler.
\<close>

section \<open>What a step leaves alone\<close>

definition dview :: "tcp_pcb \<Rightarrow> _" where
  "dview p = (retransmit_queue p, send_queue (sk p), send_buffer_len (sk p), snd_una p, snd_nxt p, snd_end p)"

definition sview :: "tcp_pcb \<Rightarrow> _" where
  "sview p = (state p, dview p)"

definition rview :: "tcp_pcb \<Rightarrow> _" where
  "rview p = (rcv_nxt p, recv_queue (sk p), recv_buffer_len (sk p), unordered_skb_list p, recv_fin p)"

definition view :: "tcp_pcb \<Rightarrow> _" where
  "view p = (sview p, rview p)"

lemmas view_defs = view_def sview_def dview_def rview_def

lemma view_eqD:
  assumes "view q = view p"
  shows "state q = state p" "snd_una q = snd_una p" "snd_nxt q = snd_nxt p" "snd_end q = snd_end p"
    "rcv_nxt q = rcv_nxt p" "retransmit_queue q = retransmit_queue p" "send_queue (sk q) = send_queue (sk p)"
    "unordered_skb_list q = unordered_skb_list p" "recv_fin q = recv_fin p"
    "sview q = sview p" "rview q = rview p"
  using assms by (simp_all add: view_defs)

lemma sview_eqD:
  assumes "sview q = sview p"
  shows "state q = state p" "snd_una q = snd_una p" "snd_nxt q = snd_nxt p" "snd_end q = snd_end p"
    "snd_inv q = snd_inv p" "unacked q = unacked p"
  using assms by (simp_all add: sview_def dview_def snd_inv_def unacked_def)

lemma view_timer [simp]: "view (tcp_update_timer k d ov p) = view p"
  by (simp add: view_defs)

lemma view_emit [simp]: "view (emit x p) = view p"
  by (simp add: view_defs emit_def)

lemma view_error [simp]: "view (set_error e p) = view p"
  by (simp add: view_defs set_error_def set_sk_def)

lemma view_ack_now [simp]: "view (ack_now p) = view p"
  by (simp add: ack_now_def)

lemma view_keepalive [simp]: "view (restart_keepalive p) = view p"
  by (simp add: restart_keepalive_def) (simp add: view_defs)

lemma view_next_ret [simp]: "view (snd (next_ret p)) = view p"
  by (simp add: view_defs next_ret_def split: list.split)

lemma view_options [simp]: "view (snd (make_tcp_options f p)) = view p"
  by (simp add: view_defs make_tcp_options_def Let_def)

lemma view_xmit_segment [simp]: "view (snd (tcp_xmit_segment skb n push p)) = view p"
proof -
  have a: "view (p\<lparr>ack_pending_segments := 0\<rparr>) = view p" for p by (simp add: view_defs)
  have e: "view (set_sk (\<lambda>k. k\<lparr>sock_error := e\<rparr>) p) = view p" for e p by (simp add: view_defs set_sk_def)
  show ?thesis by (simp add: tcp_xmit_segment_def split_beta Let_def a e)
qed

lemma view_retransmit_skb [simp]: "view (snd (tcp_retransmit_skb skb probe p)) = view p"
proof -
  have "view (p\<lparr>rtt_meas_time := 0\<rparr>) = view p" by (simp add: view_defs)
  then show ?thesis by (simp add: tcp_retransmit_skb_def Let_def)
qed

lemma view_retransmit_now [simp]: "view (tcp_retransmit_now p) = view p"
  by (simp add: tcp_retransmit_now_def split_beta split: list.split)

lemma view_send_flag: "\<not> has f TCP_FLAG_SYN \<Longrightarrow> view (snd (tcp_send_flag a b f p)) = view p"
proof -
  have a: "view (p\<lparr>ack_pending_segments := 0\<rparr>) = view p" for p by (simp add: view_defs)
  assume "\<not> has f TCP_FLAG_SYN"
  then show ?thesis by (simp add: tcp_send_flag_def split_beta Let_def a)
qed

lemma rst_no_syn: "\<not> has TCP_FLAG_RST TCP_FLAG_SYN" "\<not> has (TCP_FLAG_RST OR TCP_FLAG_ACK) TCP_FLAG_SYN"
  by (simp_all add: has_def TCP_FLAG_RST_def TCP_FLAG_SYN_def TCP_FLAG_ACK_def)

lemma view_win_change [simp]: "view (tcp_snd_win_change w p) = view p"
  by (simp add: view_defs)

lemma view_take_window [simp]: "view (take_window s p) = view p"
  by (simp add: take_window_def view_defs)

lemma view_rtt_sample [simp]: "view (rtt_sample p) = view p"
  by (simp add: rtt_sample_def Let_def split_beta view_defs)

lemma view_cwnd_change: "view (tcp_snd_cwnd_change w p) = view p"
  by (simp add: view_defs)

lemma view_set_cwnd [simp]: "view (tcp_ca_set_cwnd w p) = view p"
  by (simp add: tcp_ca_set_cwnd_def view_cwnd_change)

lemma view_cong_avoid [simp]: "view (tcp_cubic_cong_avoid n p) = view p"
proof -
  have c: "view (p\<lparr>cubic := c\<rparr>) = view p" for p c by (simp add: view_defs)
  have pk: "view (tcp_cubic_set_cwnd_packets n p) = view p" for n p
    by (simp add: tcp_cubic_set_cwnd_packets_def Let_def)
  have t: "view (cong_avoid_tail n p) = view p" for n p
    by (simp add: cong_avoid_tail_def Let_def c pk)
  have "view (snd (tcp_cubic_slow_start n p)) = view p" for n p
    by (simp add: tcp_cubic_slow_start_def Let_def c pk)
  then show ?thesis by (simp add: tcp_cubic_cong_avoid_def split_beta t)
qed

lemma view_on_ack [simp]: "view (snd (tcp_congestion_on_ack n b p)) = view p"
proof -
  have c: "view (p\<lparr>cubic := c\<rparr>) = view p" "view (p\<lparr>pcb_ca_state := s\<rparr>) = view p" for p c s
    by (simp_all add: view_defs)
  have "view (snd (tcp_cubic_take_acked_packets n p)) = view p" for n p
    by (simp add: tcp_cubic_take_acked_packets_def Let_def c)
  then show ?thesis by (simp add: tcp_congestion_on_ack_def split_beta Let_def c)
qed

lemma view_on_duplicate_ack [simp]: "view (snd (tcp_congestion_on_duplicate_ack n p)) = view p"
proof -
  have c: "view (p\<lparr>cubic := c\<rparr>) = view p" "view (p\<lparr>ca_prior_cwnd := w\<rparr>) = view p"
    "view (p\<lparr>snd_ssthresh := a, ca_recovery_seq := b, pcb_ca_state := d\<rparr>) = view p" for p c w a b d
    by (simp_all add: view_defs)
  have "view (snd (tcp_cubic_recalc_ssthresh p)) = view p" for p
    by (simp add: tcp_cubic_recalc_ssthresh_def Let_def c)
  then show ?thesis by (simp add: tcp_congestion_on_duplicate_ack_def split_beta Let_def c)
qed

lemma view_repeat [simp]: "view (ack_repeat s p) = view p"
proof -
  have "view (p\<lparr>last_ack_repeat := n\<rparr>) = view p" "view (p\<lparr>last_ack := w, last_ack_repeat := n\<rparr>) = view p" for p n w
    by (simp_all add: view_defs)
  then show ?thesis by (simp add: ack_repeat_def Let_def split_beta)
qed

section \<open>Options\<close>

text \<open>The options of a segment concern the negotiated parameters only.\<close>

definition oview :: "tcp_pcb \<Rightarrow> _" where
  "oview p = (view p, rcv_wnd p, snd_wnd p, deadline p, tk_registered p, tk_timeout p, outs p, now p, sk p,
              has_parent p, timewait_timeout p, finwait2_timeout p)"

lemma oview_options:
  "oview (parse_mss body p) = oview p" "oview (parse_wscale body p) = oview p"
  "oview (snd (parse_timestamps f body p)) = oview p"
  by (simp_all add: oview_def view_defs parse_mss_def parse_wscale_def parse_timestamps_def Let_def)

lemma oview_options_loop: "oview (snd (parse_options_loop hs f opt p)) = oview p"
proof (induction hs f opt p rule: parse_options_loop.induct)
  case (1 hs f opt p)
  show ?case
  proof (subst parse_options_loop.simps, cases opt, goal_cases)
    case (2 kind rest)
    obtain r q where t: "parse_timestamps f (tl rest) p = (r, q)" by fastforce
    then have "oview q = oview p" using oview_options(3) [of f "tl rest" p] by simp
    then show ?case using 1 2 t by (cases rest) (auto simp: Let_def oview_options)
  qed simp
qed

lemma oview_parse: "oview (snd (parse_tcp_options f opt p)) = oview p"
proof -
  have "oview (tcp_congestion_mss_changed q) = oview q" for q
    by (simp add: oview_def view_defs tcp_congestion_mss_changed_def tcp_congestion_init_def tcp_cubic_reset_def Let_def)
  then show ?thesis using oview_options_loop by (simp add: parse_tcp_options_def split_beta Let_def)
qed

lemma oview_eqD:
  assumes "oview q = oview p"
  shows "view q = view p" "rcv_wnd q = rcv_wnd p" "snd_wnd q = snd_wnd p" "deadline q = deadline p"
    "timer_inv q = timer_inv p" "outs q = outs p" "now q = now p" "sk q = sk p" "has_parent q = has_parent p"
  using assms by (simp_all add: oview_def timer_inv_def)

section \<open>Which segments are accepted\<close>

definition accepted :: "inseg \<Rightarrow> tcp_pcb \<Rightarrow> bool" where
  "accepted s p \<longleftrightarrow>
     seg_allow s p \<and> \<not> has (in_flags s) TCP_FLAG_RST \<and> \<not> has (in_flags s) TCP_FLAG_SYN \<and>
     has (in_flags s) TCP_FLAG_ACK \<and> \<not> SEQ_LT (in_ack s) (snd_una p - snd_wnd p) \<and>
     \<not> SEQ_GT (in_ack s) (snd_nxt p)"

text \<open>A reset at exactly \<open>rcv_nxt\<close>, or a SYN to a half-open child.\<close>

definition resets :: "inseg \<Rightarrow> tcp_pcb \<Rightarrow> bool" where
  "resets s p \<longleftrightarrow>
     has (in_flags s) TCP_FLAG_RST \<and> in_seq s = rcv_nxt p \<or>
     \<not> has (in_flags s) TCP_FLAG_RST \<and> has (in_flags s) TCP_FLAG_SYN \<and> seg_allow s p \<and>
       state p = TCP_STATE_SYN_RECEIVED \<and> has_parent p"

lemma accepted_cong: "oview q = oview p \<Longrightarrow> accepted s q = accepted s p"
  by (simp add: accepted_def seg_allow_def in_rcv_window_def oview_def view_defs)

lemma resets_cong: "oview q = oview p \<Longrightarrow> resets s q = resets s p"
  by (simp add: resets_def seg_allow_def in_rcv_window_def oview_def view_defs)

lemma destroy_fields:
  "state (destroy_tcp_socket p) = TCP_STATE_CLOSED" "snd_una (destroy_tcp_socket p) = snd_una p"
  "snd_end (destroy_tcp_socket p) = snd_end p" "recv_fin (destroy_tcp_socket p) = recv_fin p"
  "snd_inv (destroy_tcp_socket p) = snd_inv p" "unacked (destroy_tcp_socket p) = unacked p"
  by (simp_all add: destroy_tcp_socket_def Let_def emit_def snd_inv_def unacked_def)

lemma steps_accepted:
  "accepted s p \<Longrightarrow> input_steps s p =
     and_then (input_ack s p) (\<lambda>p. and_then (input_fin s (input_data s p)) input_keepalive)"
  by (simp add: accepted_def input_steps_def input_seq_def input_rst_def input_syn_def input_ack_range_def)

text \<open>The state of a connection for which \<open>parse_tcp_options\<close> and the steps run.\<close>

definition open_state :: "tcp_state \<Rightarrow> bool" where
  "open_state st \<longleftrightarrow> st = TCP_STATE_SYN_RECEIVED \<or> synchronized st"

lemma rst_result:
  assumes "has (in_flags s) TCP_FLAG_RST" "in_seq s = rcv_nxt p" "open_state (state p)"
  shows "\<exists>e. after (input_rst s p) = destroy_tcp_socket p \<or> after (input_rst s p) = destroy_tcp_socket (set_error e p)"
  using assms by (cases "state p") (simp_all add: input_rst_def open_state_def synchronized_def, blast+)

lemma steps_rejected:
  assumes "\<not> accepted s p" "open_state (state p)"
  defines "q \<equiv> after (input_steps s p)"
  shows "\<not> resets s p \<Longrightarrow> q = p \<or> q = ack_now p"
    and "resets s p \<Longrightarrow> q = destroy_tcp_socket p \<or> (\<exists>e. q = destroy_tcp_socket (set_error e p))"
proof -
  let ?R = "has (in_flags s) TCP_FLAG_RST" and ?S = "has (in_flags s) TCP_FLAG_SYN"
  consider (seq) "\<not> ?R" "\<not> seg_allow s p" | (rst) "?R" "in_seq s = rcv_nxt p" | (challenge) "?R" "in_seq s \<noteq> rcv_nxt p"
    | (syn) "\<not> ?R" "seg_allow s p" "?S" | (ack) "\<not> ?R" "seg_allow s p" "\<not> ?S" by blast
  then have "(\<not> resets s p \<longrightarrow> q = p \<or> q = ack_now p) \<and>
     (resets s p \<longrightarrow> q = destroy_tcp_socket p \<or> (\<exists>e. q = destroy_tcp_socket (set_error e p)))"
  proof cases
    case seq
    then show ?thesis by (simp add: q_def resets_def input_steps_def input_seq_def)
  next
    case rst
    then have "q = after (input_rst s p)"
      by (simp add: q_def input_steps_def input_seq_def input_rst_def)
    then show ?thesis using rst_result [OF rst assms(2)] rst by (auto simp: resets_def)
  next
    case challenge
    then show ?thesis by (simp add: q_def resets_def input_steps_def input_seq_def input_rst_def)
  next
    case syn
    then have "q = after (input_syn s p)"
      by (simp add: q_def input_steps_def input_seq_def input_rst_def input_syn_def)
    then show ?thesis using syn assms(2) by (auto simp: resets_def input_syn_def open_state_def)
  next
    case ack
    then have "q = after (input_ack_range s p)" using assms(1)
      by (auto simp: q_def input_steps_def input_seq_def input_rst_def input_syn_def input_ack_range_def accepted_def)
    then show ?thesis using ack assms(1) by (auto simp: resets_def input_ack_range_def accepted_def)
  qed
  then show "\<not> resets s p \<Longrightarrow> q = p \<or> q = ack_now p"
    "resets s p \<Longrightarrow> q = destroy_tcp_socket p \<or> (\<exists>e. q = destroy_tcp_socket (set_error e p))" by blast+
qed

section \<open>Accepted segments\<close>

lemma drain_frame: "\<exists>rq rl n. snd (drain_loop l p) = p\<lparr>sk := (sk p)\<lparr>recv_queue := rq, recv_buffer_len := rl\<rparr>, rcv_nxt := n\<rparr>"
proof (induction l arbitrary: p)
  case Nil
  have "p = p\<lparr>sk := (sk p)\<lparr>recv_queue := recv_queue (sk p), recv_buffer_len := recv_buffer_len (sk p)\<rparr>, rcv_nxt := rcv_nxt p\<rparr>"
    by simp
  then show ?case by (metis drain_loop.simps(1) snd_conv)
next
  case (Cons it l)
  have d: "deliver x p = p\<lparr>sk := (sk p)\<lparr>recv_queue := recv_queue (sk p) @ [s_data x],
      recv_buffer_len := recv_buffer_len (sk p) + skb_data_len x\<rparr>, rcv_nxt := rcv_nxt p + skb_data_len x\<rparr>" for x
    by (simp add: deliver_def set_sk_def)
  have "\<exists>rq rl n. snd (drain_loop l (deliver x p)) = p\<lparr>sk := (sk p)\<lparr>recv_queue := rq, recv_buffer_len := rl\<rparr>, rcv_nxt := n\<rparr>" for x
    using Cons.IH [of "deliver x p"] by (simp add: d)
  moreover have "\<exists>rq rl n. p = p\<lparr>sk := (sk p)\<lparr>recv_queue := rq, recv_buffer_len := rl\<rparr>, rcv_nxt := n\<rparr>"
    using Cons.IH [of p] by (intro exI [of _ "recv_queue (sk p)"] exI [of _ "recv_buffer_len (sk p)"] exI [of _ "rcv_nxt p"]) simp
  ultimately show ?case using Cons.IH [of p] by (simp add: Let_def)
qed

lemma recv_data_frame:
  "sview (snd (tcp_recv_data x p)) = sview p" "deadline (snd (tcp_recv_data x p)) = deadline p"
  "timer_inv (snd (tcp_recv_data x p)) = timer_inv p" "now (snd (tcp_recv_data x p)) = now p"
  "recv_fin (snd (tcp_recv_data x p)) = recv_fin p" "timewait_timeout (snd (tcp_recv_data x p)) = timewait_timeout p"
proof -
  have "sview (snd (tcp_recv_data x p)) = sview p \<and> deadline (snd (tcp_recv_data x p)) = deadline p \<and>
    timer_inv (snd (tcp_recv_data x p)) = timer_inv p \<and> now (snd (tcp_recv_data x p)) = now p \<and>
    recv_fin (snd (tcp_recv_data x p)) = recv_fin p \<and> timewait_timeout (snd (tcp_recv_data x p)) = timewait_timeout p"
  proof (cases "trim_segment x p")
    case (Some y)
    obtain l r where i: "insert_cmp tcp_seq_cmp (unordered_skb_list p) y = (l, r)" by fastforce
    obtain rq rl n where "snd (drain_loop l p) = p\<lparr>sk := (sk p)\<lparr>recv_queue := rq, recv_buffer_len := rl\<rparr>, rcv_nxt := n\<rparr>"
      using drain_frame by blast
    then show ?thesis using Some i
      by (simp add: tcp_recv_data_def split_beta Let_def emit_def sview_def dview_def timer_inv_def)
  qed (simp add: tcp_recv_data_def)
  then show "sview (snd (tcp_recv_data x p)) = sview p" "deadline (snd (tcp_recv_data x p)) = deadline p"
    "timer_inv (snd (tcp_recv_data x p)) = timer_inv p" "now (snd (tcp_recv_data x p)) = now p"
    "recv_fin (snd (tcp_recv_data x p)) = recv_fin p" "timewait_timeout (snd (tcp_recv_data x p)) = timewait_timeout p"
    by blast+
qed

text \<open>An acceptable acknowledgement of new data lies within the data in flight.\<close>

lemma accepted_ack:
  assumes "snd_inv p" "unat (snd_wnd p) < 2 ^ 31" "accepted s p" "SEQ_LT (snd_una p) (in_ack s)"
  shows "dist (snd_una p) (in_ack s) \<le> total (retransmit_queue p)"
proof (rule ccontr)
  let ?u = "snd_una p" and ?a = "in_ack s" and ?t = "total (retransmit_queue p)"
  assume gt: "\<not> dist ?u ?a \<le> ?t"
  have t: "?t < 2 ^ 31" "snd_nxt p = ?u + of_nat ?t"
    using assms(1) contig_end by (auto simp: snd_inv_def)
  then have n: "dist ?u (snd_nxt p) = ?t" by (simp add: dist_def unat_of_nat_u32)
  have d: "unat (?a - snd_nxt p) = dist ?u ?a - ?t" using dist_diff [of ?a "snd_nxt p" ?u] n gt by simp
  have "dist ?u ?a \<le> 2 ^ 31"
    using assms(4) dist_diff [of ?u ?a ?u] by (auto simp: SEQ_LT_iff split: if_splits)
  moreover have "2 ^ 31 \<le> dist ?u ?a - ?t"
    using assms(3) gt d by (auto simp: accepted_def SEQ_GT_iff)
  ultimately have e: "dist ?u ?a = 2 ^ 31" using gt by linarith
  have "?a - (?u - snd_wnd p) = (?a - ?u) + snd_wnd p" by simp
  moreover have "unat ((?a - ?u) + snd_wnd p) = 2 ^ 31 + unat (snd_wnd p)"
    using e assms(2) by (subst unat_add_no_wrap) (auto simp: dist_def)
  ultimately have "unat (?a - (?u - snd_wnd p)) = 2 ^ 31 + unat (snd_wnd p)" by (simp only:)
  then have "SEQ_LT ?a (?u - snd_wnd p)" unfolding SEQ_LT_iff by linarith
  then show False using assms(3) by (simp add: accepted_def)
qed

lemma ack_new_fields: "view (ack_new s p) = view (tcp_update_retransmit_queue (p\<lparr>snd_una := in_ack s\<rparr>))"
proof -
  have "view (r\<lparr>last_ack := in_ack s, last_ack_repeat := 0\<rparr>) = view r" for r by (simp add: view_defs)
  then show ?thesis by (simp add: ack_new_def Let_def split_beta)
qed

lemma update_rtx_fields:
  "state (tcp_update_retransmit_queue p) = state p" "rview (tcp_update_retransmit_queue p) = rview p"
  "snd_una (tcp_update_retransmit_queue p) = snd_una p" "snd_nxt (tcp_update_retransmit_queue p) = snd_nxt p"
  "snd_end (tcp_update_retransmit_queue p) = snd_end p" "has_fd (sk (tcp_update_retransmit_queue p)) = has_fd (sk p)"
  by (simp_all add: tcp_update_retransmit_queue_def split_beta Let_def set_sk_def emit_def rview_def)

lemma ack_new_view:
  "state (ack_new s p) = state p" "snd_una (ack_new s p) = in_ack s" "snd_nxt (ack_new s p) = snd_nxt p"
  "snd_end (ack_new s p) = snd_end p" "rview (ack_new s p) = rview p"
proof -
  note v = view_eqD [OF ack_new_fields [of s p]]
  show "state (ack_new s p) = state p" unfolding v(1) update_rtx_fields(1) by simp
  show "snd_una (ack_new s p) = in_ack s" unfolding v(2) update_rtx_fields(3) by simp
  show "snd_nxt (ack_new s p) = snd_nxt p" unfolding v(3) update_rtx_fields(4) by simp
  show "snd_end (ack_new s p) = snd_end p" unfolding v(4) update_rtx_fields(5) by simp
  show "rview (ack_new s p) = rview p" unfolding v(11) update_rtx_fields(2) by (simp add: rview_def)
qed

lemma ack_new_inv:
  assumes "snd_inv p" "unat (snd_wnd p) < 2 ^ 31" "accepted s p" "SEQ_LT (snd_una p) (in_ack s)"
  shows "snd_inv (ack_new s p)"
    "\<exists>k \<le> dist (snd_una p) (in_ack s). unacked (ack_new s p) = drop k (unacked p)"
proof -
  let ?r = "tcp_update_retransmit_queue (p\<lparr>snd_una := in_ack s\<rparr>)"
  note e = view_eqD(10) [OF ack_new_fields [of s p]]
  note a = acknowledged [OF assms(1) accepted_ack [OF assms]]
  show "snd_inv (ack_new s p)" using a(1) sview_eqD(5) [OF e] by simp
  show "\<exists>k \<le> dist (snd_una p) (in_ack s). unacked (ack_new s p) = drop k (unacked p)"
    using a(5) sview_eqD(6) [OF e] by auto
qed

section \<open>The send side across the handler\<close>

definition sent_ok :: "tcp_pcb \<Rightarrow> tcp_pcb \<Rightarrow> bool" where
  "sent_ok p q \<longleftrightarrow>
     snd_inv q \<and> snd_nxt q = snd_nxt p \<and> snd_end q = snd_end p \<and>
     (\<exists>k \<le> dist (snd_una p) (snd_una q). unacked q = drop k (unacked p))"

lemma sent_ok_dview: "dview r = dview q \<Longrightarrow> sent_ok p r = sent_ok p q"
  by (simp add: dview_def sent_ok_def snd_inv_def unacked_def)

lemma dview_view: "view q = view p \<Longrightarrow> dview q = dview p" "sview q = sview p \<Longrightarrow> dview q = dview p"
  by (simp_all add: view_def sview_def)

lemma sent_ok_refl: "snd_inv p \<Longrightarrow> dview q = dview p \<Longrightarrow> sent_ok p q"
  by (subst sent_ok_dview [of q p]) (auto simp: sent_ok_def intro: exI [of _ 0])

lemma dview_state [simp]: "dview (p\<lparr>state := st\<rparr>) = dview p"
  by (simp add: dview_def)

lemmas dview_simps [simp] =
  dview_view(1) [OF view_timer] dview_view(1) [OF view_emit] dview_view(1) [OF view_error]
  dview_view(1) [OF view_ack_now] dview_view(1) [OF view_keepalive] dview_view(2) [OF recv_data_frame(1)]

lemma dview_destroy [simp]: "dview (destroy_tcp_socket p) = dview p"
  by (simp add: destroy_tcp_socket_def Let_def)

lemma dview_closing [simp]: "dview (after (ack_closing p)) = dview p"
  by (simp add: ack_closing_def Let_def tcp_complete_linger_def)

lemma dview_data [simp]: "dview (input_data s p) = dview p"
proof -
  have "dview (p\<lparr>ack_pending_segments := n\<rparr>) = dview p" for p n by (simp add: dview_def)
  then show ?thesis by (simp add: input_data_def split_beta Let_def)
qed

lemma dview_fin [simp]: "dview (after (input_fin s p)) = dview p"
proof -
  have u: "dview (p\<lparr>rcv_nxt := w, recv_fin := f\<rparr>) = dview p" "dview (p\<lparr>keepalive_repeat_count := n\<rparr>) = dview p" for p w f n
    by (simp_all add: dview_def)
  have f: "dview (fin_state p) = dview p" for p
    by (cases "state p") (simp_all add: fin_state_def tcp_complete_linger_def)
  show ?thesis by (simp add: input_fin_def Let_def u f)
qed

lemma dview_and_then: "(\<And>q. dview (after (f q)) = dview q) \<Longrightarrow> dview (after (and_then r f)) = dview (after r)"
  by (cases r) simp_all

lemma dview_input_keepalive [simp]: "dview (after (input_keepalive p)) = dview p"
  by (simp add: input_keepalive_def)

lemma syn_received_ok:
  assumes inv: "snd_inv p" "unat (snd_wnd p) < 2 ^ 31" "accepted s p" and lt: "SEQ_LT (snd_una p) (in_ack s)"
  shows "sent_ok p (after (ack_syn_received s p))"
proof -
  let ?p = "p\<lparr>state := TCP_STATE_ESTABLISHED, last_ack := in_ack s, last_ack_repeat := 0\<rparr>"
  let ?q = "tcp_update_retransmit_queue (?p\<lparr>snd_una := in_ack s\<rparr>)"
  have le: "SEQ_LEQ (in_ack s) (snd_nxt p)" using inv(3) by (simp add: accepted_def SEQ_LEQ_iff)
  have w: "view (x\<lparr>snd_wl1 := a, snd_wl2 := b\<rparr>) = view x" for x a b by (simp add: view_defs)
  have c: "p\<lparr>state := TCP_STATE_ESTABLISHED, snd_una := in_ack s, last_ack := in_ack s, last_ack_repeat := 0\<rparr> =
      ?p\<lparr>snd_una := in_ack s\<rparr>" by (intro tcp_pcb.equality) simp_all
  have "view (after (ack_syn_received s p)) = view ?q"
    using lt le unfolding ack_syn_received_def Let_def c by (simp add: w)
  then have d: "dview (after (ack_syn_received s p)) = dview ?q" by (rule dview_view)
  have p: "snd_inv ?p" "unacked ?p = unacked p" using inv(1) by (simp_all add: snd_inv_def unacked_def)
  have "dist (snd_una ?p) (in_ack s) \<le> total (retransmit_queue ?p)" using accepted_ack [OF inv lt] by simp
  note a = acknowledged [OF p(1) this]
  have "sent_ok p ?q" unfolding sent_ok_def using a(1-5) p(2) by auto
  then show ?thesis using sent_ok_dview [OF d] by blast
qed

lemma input_ack_ok:
  assumes "snd_inv p" "unat (snd_wnd p) < 2 ^ 31" "accepted s p"
  shows "sent_ok p (after (input_ack s p))"
proof -
  have new: "sent_ok p (after (ack_closing (ack_new s p)))" if "SEQ_LT (snd_una p) (in_ack s)"
  proof -
    have "sent_ok p (ack_new s p)" unfolding sent_ok_def
      using ack_new_inv [OF assms that] by (simp add: ack_new_view)
    then show ?thesis using sent_ok_dview [OF dview_closing] by blast
  qed
  have old: "sent_ok p (ack_repeat s p)" by (rule sent_ok_refl [OF assms(1)]) (rule dview_view, simp)
  have syn: "sent_ok p (after (ack_syn_received s p))"
  proof (cases "SEQ_LT (snd_una p) (in_ack s)")
    case True
    then show ?thesis by (rule syn_received_ok [OF assms])
  next
    case False
    have "view (after (ack_syn_received s p)) = view p"
      using False by (simp add: ack_syn_received_def Let_def view_send_flag rst_no_syn)
    then show ?thesis by (intro sent_ok_refl [OF assms(1)] dview_view)
  qed
  show ?thesis using new old syn sent_ok_refl [OF assms(1)] by (simp add: input_ack_def)
qed

lemma input_steps_ok:
  assumes "snd_inv p" "unat (snd_wnd p) < 2 ^ 31" "open_state (state p)"
  shows "sent_ok p (after (input_steps s p))"
proof (cases "accepted s p")
  case True
  have "dview (after (input_steps s p)) = dview (after (input_ack s p))"
    unfolding steps_accepted [OF True] by (simp add: dview_and_then)
  from sent_ok_dview [OF this] show ?thesis using input_ack_ok [OF assms(1,2) True] by blast
next
  case False
  then have "dview (after (input_steps s p)) = dview p"
    using steps_rejected [OF False assms(3)] by (cases "resets s p") auto
  then show ?thesis by (rule sent_ok_refl [OF assms(1)])
qed

lemma input_ok:
  assumes "snd_inv p" "unat (snd_wnd p) < 2 ^ 31" "open_state (state p)"
  shows "sent_ok p (snd (tcp_input s p))"
proof -
  let ?p = "snd (parse_tcp_options (in_flags s) (in_options s) p)"
  note o = oview_eqD [OF oview_parse [of "in_flags s" "in_options s" p]]
  have d: "dview ?p = dview p" using o(1) by (rule dview_view)
  have i: "snd_inv ?p" "unacked ?p = unacked p" "snd_una ?p = snd_una p" "snd_nxt ?p = snd_nxt p" "snd_end ?p = snd_end p"
    using d assms(1) by (simp_all add: dview_def snd_inv_def unacked_def)
  have st: "open_state (state ?p)" "unat (snd_wnd ?p) < 2 ^ 31" using assms o by (simp_all add: view_defs)
  have "sent_ok ?p (after (input_steps s ?p))" by (rule input_steps_ok [OF i(1) st(2,1)])
  then have "sent_ok p (after (input_steps s ?p))" using i by (simp add: sent_ok_def)
  moreover have "sent_ok p ?p" by (rule sent_ok_refl [OF assms(1) d])
  ultimately show ?thesis using assms(3)
    by (auto simp: tcp_input_def split_beta open_state_def synchronized_def)
qed

section \<open>The timers across the handler\<close>

lemma timer_inv_upd2 [simp]:
  "timer_inv (p\<lparr>snd_una := w\<rparr>) = timer_inv p" "timer_inv (p\<lparr>last_ack := w\<rparr>) = timer_inv p"
  "timer_inv (p\<lparr>snd_wl1 := w\<rparr>) = timer_inv p" "timer_inv (p\<lparr>snd_wl2 := w\<rparr>) = timer_inv p"
  "timer_inv (p\<lparr>ts_last_tsecr := w\<rparr>) = timer_inv p" "timer_inv (p\<lparr>metrics := m\<rparr>) = timer_inv p"
  "timer_inv (p\<lparr>rcv_nxt := w\<rparr>) = timer_inv p" "timer_inv (p\<lparr>recv_fin := b\<rparr>) = timer_inv p"
  "timer_inv (set_error e p) = timer_inv p" "timer_inv (tcp_complete_linger p) = timer_inv p"
  by (simp_all add: timer_inv_def set_error_def set_sk_def tcp_complete_linger_def emit_def)

lemmas timer_inv_steps = update_timer_inv timer_inv_destroy timer_inv_win_change timer_inv_cwnd_change timer_inv_send_flag

lemma timer_inv_small:
  "timer_inv p \<Longrightarrow> timer_inv (ack_now p)" "timer_inv p \<Longrightarrow> timer_inv (restart_keepalive p)"
  "timer_inv p \<Longrightarrow> timer_inv (rtt_sample p)" "timer_inv p \<Longrightarrow> timer_inv (take_window s p)"
  "timer_inv p \<Longrightarrow> timer_inv (tcp_update_retransmit_queue p)" "timer_inv p \<Longrightarrow> timer_inv (tcp_ca_set_cwnd w p)"
  "timer_inv p \<Longrightarrow> timer_inv (tcp_retransmit_now p)"
  by (simp_all add: ack_now_def restart_keepalive_def rtt_sample_def take_window_def tcp_update_retransmit_queue_def
      tcp_ca_set_cwnd_def tcp_retransmit_now_def split_beta Let_def timer_inv_steps timer_inv_retransmit_skb
      split: list.split)

lemma timer_inv_cong_avoid: "timer_inv p \<Longrightarrow> timer_inv (tcp_cubic_cong_avoid n p)"
proof -
  assume "timer_inv p"
  have pk: "timer_inv p \<Longrightarrow> timer_inv (tcp_cubic_set_cwnd_packets n p)" for n p
    by (simp add: tcp_cubic_set_cwnd_packets_def Let_def timer_inv_small)
  have t: "timer_inv p \<Longrightarrow> timer_inv (cong_avoid_tail n p)" for n p by (simp add: cong_avoid_tail_def Let_def pk)
  have "timer_inv p \<Longrightarrow> timer_inv (snd (tcp_cubic_slow_start n p))" for n p
    by (simp add: tcp_cubic_slow_start_def Let_def pk)
  then show ?thesis using \<open>timer_inv p\<close> by (simp add: tcp_cubic_cong_avoid_def split_beta t)
qed

lemma timer_inv_on_acks:
  "timer_inv p \<Longrightarrow> timer_inv (snd (tcp_congestion_on_ack n b p))"
  "timer_inv p \<Longrightarrow> timer_inv (snd (tcp_congestion_on_duplicate_ack n p))"
  by (simp_all add: tcp_congestion_on_ack_def tcp_congestion_on_duplicate_ack_def tcp_cubic_take_acked_packets_def
      tcp_cubic_recalc_ssthresh_def split_beta Let_def timer_inv_small timer_inv_cong_avoid)

lemma timer_inv_acks:
  "timer_inv p \<Longrightarrow> timer_inv (ack_new s p)" "timer_inv p \<Longrightarrow> timer_inv (ack_repeat s p)"
  "timer_inv p \<Longrightarrow> timer_inv (after (ack_closing p))" "timer_inv p \<Longrightarrow> timer_inv (after (ack_syn_received s p))"
  by (simp_all add: ack_new_def ack_repeat_def ack_closing_def ack_syn_received_def split_beta Let_def
      timer_inv_small timer_inv_on_acks timer_inv_steps)

lemma timer_inv_fin: "timer_inv p \<Longrightarrow> timer_inv (after (input_fin s p))"
proof -
  have "timer_inv p \<Longrightarrow> timer_inv (fin_state p)" for p
    by (cases "state p") (simp_all add: fin_state_def timer_inv_steps)
  then show "timer_inv p \<Longrightarrow> timer_inv (after (input_fin s p))"
    by (simp add: input_fin_def Let_def timer_inv_steps timer_inv_small)
qed

lemma timer_inv_data: "timer_inv p \<Longrightarrow> timer_inv (input_data s p)"
  by (simp add: input_data_def split_beta Let_def recv_data_frame timer_inv_steps)

lemma timer_inv_and_then:
  "timer_inv (after r) \<Longrightarrow> (\<And>p. timer_inv p \<Longrightarrow> timer_inv (after (f p))) \<Longrightarrow> timer_inv (after (and_then r f))"
  by (cases r) simp_all

lemma timer_inv_input_steps:
  assumes "timer_inv p" "open_state (state p)" shows "timer_inv (after (input_steps s p))"
proof (cases "accepted s p")
  case True
  have "timer_inv (after (input_ack s p))" using assms(1) by (simp add: input_ack_def timer_inv_acks)
  then show ?thesis unfolding steps_accepted [OF True]
    by (intro timer_inv_and_then) (simp_all add: timer_inv_fin timer_inv_data input_keepalive_def timer_inv_small)
next
  case False
  then show ?thesis using steps_rejected [OF False assms(2)] assms(1)
    by (cases "resets s p") (auto simp: timer_inv_small timer_inv_steps)
qed

lemma timer_inv_input:
  assumes "timer_inv p" "open_state (state p)" shows "timer_inv (snd (tcp_input s p))"
proof -
  let ?p = "snd (parse_tcp_options (in_flags s) (in_options s) p)"
  note o = oview_eqD [OF oview_parse [of "in_flags s" "in_options s" p]]
  have "timer_inv ?p" "open_state (state ?p)" using assms o(5) view_eqD(1) [OF o(1)] by simp_all
  then show ?thesis using assms(2) timer_inv_input_steps
    by (auto simp: tcp_input_def split_beta open_state_def synchronized_def)
qed

section \<open>State transitions\<close>

text \<open>The peer's FIN of this segment has been consumed.\<close>

definition fin_taken :: "inseg \<Rightarrow> tcp_pcb \<Rightarrow> bool" where
  "fin_taken s q \<longleftrightarrow>
     has (in_flags s) TCP_FLAG_FIN \<and> recv_fin q \<and> rcv_nxt q = in_seq s + in_data_len s + 1"

definition fin_acked :: "tcp_pcb \<Rightarrow> bool" where
  "fin_acked q \<longleftrightarrow> snd_una q = snd_end q"

inductive transition :: "inseg \<Rightarrow> tcp_pcb \<Rightarrow> tcp_pcb \<Rightarrow> bool" for s p q where
  stay: "state q = state p \<Longrightarrow> transition s p q"
| reset: "resets s p \<Longrightarrow> state q = TCP_STATE_CLOSED \<Longrightarrow> transition s p q"
| opened: "state p = TCP_STATE_SYN_RECEIVED \<Longrightarrow> state q = TCP_STATE_ESTABLISHED \<Longrightarrow>
    SEQ_LT (snd_una p) (in_ack s) \<Longrightarrow> snd_una q = in_ack s \<Longrightarrow> transition s p q"
| peer_closed: "state p = TCP_STATE_SYN_RECEIVED \<or> state p = TCP_STATE_ESTABLISHED \<Longrightarrow>
    state q = TCP_STATE_CLOSE_WAIT \<Longrightarrow> fin_taken s q \<Longrightarrow> transition s p q"
| half_closed: "state p = TCP_STATE_FIN_WAIT_1 \<Longrightarrow> state q = TCP_STATE_FIN_WAIT_2 \<Longrightarrow> fin_acked q \<Longrightarrow>
    transition s p q"
| crossing: "state p = TCP_STATE_FIN_WAIT_1 \<Longrightarrow> state q = TCP_STATE_CLOSING \<Longrightarrow> fin_taken s q \<Longrightarrow>
    \<not> fin_acked q \<Longrightarrow> transition s p q"
| both_closed: "state p = TCP_STATE_FIN_WAIT_1 \<Longrightarrow> state q = TCP_STATE_TIME_WAIT \<Longrightarrow> fin_taken s q \<Longrightarrow>
    fin_acked q \<Longrightarrow> transition s p q"
| peer_follows: "state p = TCP_STATE_FIN_WAIT_2 \<Longrightarrow> state q = TCP_STATE_TIME_WAIT \<Longrightarrow> fin_taken s q \<Longrightarrow>
    transition s p q"
| crossed: "state p = TCP_STATE_CLOSING \<Longrightarrow> state q = TCP_STATE_TIME_WAIT \<Longrightarrow> fin_acked q \<Longrightarrow> transition s p q"
| last_acked: "state p = TCP_STATE_LAST_ACK \<Longrightarrow> state q = TCP_STATE_CLOSED \<Longrightarrow> fin_acked q \<Longrightarrow> transition s p q"

lemma transition_view: "view r = view q \<Longrightarrow> transition s p q \<Longrightarrow> transition s p r"
  by (auto simp: transition.simps fin_taken_def fin_acked_def view_defs)

text \<open>What the acknowledgement does to the state.\<close>

definition ack_move :: "inseg \<Rightarrow> tcp_pcb \<Rightarrow> tcp_pcb \<Rightarrow> bool" where
  "ack_move s p q \<longleftrightarrow>
     state q = state p \<or>
     state p = TCP_STATE_SYN_RECEIVED \<and> state q = TCP_STATE_ESTABLISHED \<and> SEQ_LT (snd_una p) (in_ack s) \<and>
       snd_una q = in_ack s \<or>
     state p = TCP_STATE_FIN_WAIT_1 \<and> state q = TCP_STATE_FIN_WAIT_2 \<and> fin_acked q \<or>
     state p = TCP_STATE_CLOSING \<and> state q = TCP_STATE_TIME_WAIT \<and> fin_acked q"

lemma closing_move:
  "(case ack_closing p of
      Return q \<Rightarrow> state p = TCP_STATE_LAST_ACK \<and> state q = TCP_STATE_CLOSED \<and> fin_acked q
    | Continue q \<Rightarrow> state q = state p \<or> fin_acked q \<and>
        (state p = TCP_STATE_FIN_WAIT_1 \<and> state q = TCP_STATE_FIN_WAIT_2 \<or>
         state p = TCP_STATE_CLOSING \<and> state q = TCP_STATE_TIME_WAIT))"
  by (simp add: ack_closing_def Let_def fin_acked_def destroy_fields tcp_complete_linger_def emit_def)

lemma syn_received_move:
  "(case ack_syn_received s p of
      Return q \<Rightarrow> view q = view p
    | Continue q \<Rightarrow> state q = state p \<or> state q = TCP_STATE_ESTABLISHED \<and> SEQ_LT (snd_una p) (in_ack s) \<and>
        snd_una q = in_ack s)"
proof -
  have w: "view (x\<lparr>snd_wl1 := a, snd_wl2 := b\<rparr>) = view x" for x a b by (simp add: view_defs)
  let ?p = "p\<lparr>state := TCP_STATE_ESTABLISHED, snd_una := in_ack s, last_ack := in_ack s, last_ack_repeat := 0\<rparr>"
  show ?thesis
  proof (cases "SEQ_LT (snd_una p) (in_ack s) \<and> SEQ_LEQ (in_ack s) (snd_nxt p)")
    case True
    then obtain q where q: "ack_syn_received s p = Continue q" "view q = view (tcp_update_retransmit_queue ?p)"
      by (simp add: ack_syn_received_def Let_def w)
    then show ?thesis using True view_eqD(1,2) [OF q(2)] by (simp add: update_rtx_fields)
  next
    case False
    then have "ack_syn_received s p = (if SEQ_LEQ (in_ack s) (snd_una p)
        then Return (snd (tcp_send_flag (in_ack s) 0 TCP_FLAG_RST p)) else Continue p)"
      unfolding ack_syn_received_def Let_def by (rule if_not_P)
    then show ?thesis by (simp add: view_send_flag rst_no_syn)
  qed
qed

lemma input_ack_move:
  "(case input_ack s p of Return q \<Rightarrow> transition s p q | Continue q \<Rightarrow> ack_move s p q)"
proof -
  consider "state p = TCP_STATE_SYN_RECEIVED"
    | "state p \<noteq> TCP_STATE_SYN_RECEIVED" "input_ack s p = ack_closing (ack_new s p)"
    | "input_ack s p = Continue (ack_repeat s p)" | "input_ack s p = Continue p"
    unfolding input_ack_def by (cases "SEQ_LT (snd_una p) (in_ack s)") metis+
  then show ?thesis
  proof cases
    case 1
    then have e: "input_ack s p = ack_syn_received s p" by (simp add: input_ack_def)
    note m = syn_received_move [where s = s and p = p]
    show ?thesis
    proof (cases "ack_syn_received s p")
      case (Return q)
      then have "state q = state p" using m view_eqD(1) [of q p] by simp
      then show ?thesis by (simp add: e Return stay)
    next
      case (Continue q)
      then show ?thesis using m 1 by (auto simp: e ack_move_def)
    qed
  next
    case 2
    note m = closing_move [of "ack_new s p"]
    show ?thesis
    proof (cases "ack_closing (ack_new s p)")
      case (Return q)
      then show ?thesis using m last_acked [of p q s] by (simp add: 2 ack_new_view)
    next
      case (Continue q)
      then show ?thesis using m by (auto simp: 2 ack_move_def ack_new_view)
    qed
  next
    case 3
    then show ?thesis using view_eqD(1) [OF view_repeat [of s p]] by (simp add: ack_move_def)
  next
    case 4
    then show ?thesis by (simp add: ack_move_def)
  qed
qed

lemma input_fin_move:
  defines "q \<equiv> \<lambda>s p. after (input_fin s p)"
  shows "state (q s p) = state p \<or> fin_taken s (q s p) \<and>
    ((state p = TCP_STATE_SYN_RECEIVED \<or> state p = TCP_STATE_ESTABLISHED) \<and> state (q s p) = TCP_STATE_CLOSE_WAIT \<or>
     state p = TCP_STATE_FIN_WAIT_1 \<and> state (q s p) = (if fin_acked p then TCP_STATE_TIME_WAIT else TCP_STATE_CLOSING) \<or>
     state p = TCP_STATE_FIN_WAIT_2 \<and> state (q s p) = TCP_STATE_TIME_WAIT)"
proof -
  define r where "r = ack_now (tcp_update_timer Keepalive 0 True ((emit (Notify notify_recv_fin)
      (p\<lparr>rcv_nxt := rcv_nxt p + 1, recv_fin := True\<rparr>))\<lparr>keepalive_repeat_count := 0\<rparr>))"
  have r: "state r = state p" "rcv_nxt r = rcv_nxt p + 1" "recv_fin r" "snd_una r = snd_una p" "snd_end r = snd_end p"
    by (simp_all add: r_def ack_now_def emit_def)
  have f: "rcv_nxt (fin_state r) = rcv_nxt r" "recv_fin (fin_state r) = recv_fin r"
    by (cases "state r"; simp add: fin_state_def tcp_complete_linger_def emit_def)+
  have st: "state (fin_state r) = (if state r = TCP_STATE_SYN_RECEIVED \<or> state r = TCP_STATE_ESTABLISHED then TCP_STATE_CLOSE_WAIT
      else if state r = TCP_STATE_FIN_WAIT_1 then if snd_una r = snd_end r then TCP_STATE_TIME_WAIT else TCP_STATE_CLOSING
      else if state r = TCP_STATE_FIN_WAIT_2 then TCP_STATE_TIME_WAIT else state r)"
    by (cases "state r") (simp_all add: fin_state_def tcp_complete_linger_def emit_def)
  show ?thesis
  proof (cases "state p \<noteq> TCP_STATE_CLOSED \<and> state p \<noteq> TCP_STATE_SYN_SENT \<and> state p \<noteq> TCP_STATE_TIME_WAIT \<and>
      has (in_flags s) TCP_FLAG_FIN \<and> in_seq s + in_data_len s = rcv_nxt p")
    case True
    then have q: "q s p = fin_state r" by (simp add: q_def input_fin_def Let_def r_def)
    have "fin_taken s (q s p)" using True by (simp add: q fin_taken_def f r)
    then show ?thesis using True unfolding q st r fin_acked_def by auto
  next
    case False
    have "state (fin_state r) = state p" if "state p = TCP_STATE_TIME_WAIT" using that st r by simp
    then have "state (q s p) = state p" using False
      by (auto simp: q_def input_fin_def Let_def r_def)
    then show ?thesis by blast
  qed
qed

lemma fin_transition:
  fixes p2 s
  defines "p3 \<equiv> after (input_fin s p2)"
  assumes m: "ack_move s p p1" and st: "state p2 = state p1" "snd_una p3 = snd_una p1"
    "fin_acked p2 = fin_acked p1" "fin_acked p3 = fin_acked p1"
  shows "transition s p p3"
proof -
  note f = input_fin_move [where s = s and p = p2, folded p3_def, unfolded st(1,3)]
  consider (stay) "state p3 = state p1"
    | (wait) "fin_taken s p3" "state p1 = TCP_STATE_SYN_RECEIVED \<or> state p1 = TCP_STATE_ESTABLISHED" "state p3 = TCP_STATE_CLOSE_WAIT"
    | (one) "fin_taken s p3" "state p1 = TCP_STATE_FIN_WAIT_1" "state p3 = TCP_STATE_TIME_WAIT" "fin_acked p3"
    | (cross) "fin_taken s p3" "state p1 = TCP_STATE_FIN_WAIT_1" "state p3 = TCP_STATE_CLOSING" "\<not> fin_acked p3"
    | (two) "fin_taken s p3" "state p1 = TCP_STATE_FIN_WAIT_2" "state p3 = TCP_STATE_TIME_WAIT"
    using f st(4) by (cases "fin_acked p1") (simp_all, blast+)
  then show ?thesis
  proof cases
    case stay
    from m show ?thesis unfolding ack_move_def
    proof (elim disjE conjE)
      show ?thesis if "state p1 = state p" using that stay by (simp add: transition.stay)
      show ?thesis if "state p = TCP_STATE_SYN_RECEIVED" "state p1 = TCP_STATE_ESTABLISHED"
        "SEQ_LT (snd_una p) (in_ack s)" "snd_una p1 = in_ack s" using that stay st by (simp add: opened)
      show ?thesis if "state p = TCP_STATE_FIN_WAIT_1" "state p1 = TCP_STATE_FIN_WAIT_2" "fin_acked p1"
        using that stay st by (simp add: half_closed)
      show ?thesis if "state p = TCP_STATE_CLOSING" "state p1 = TCP_STATE_TIME_WAIT" "fin_acked p1"
        using that stay st by (simp add: crossed)
    qed
  next
    case wait
    then have "state p = TCP_STATE_SYN_RECEIVED \<or> state p = TCP_STATE_ESTABLISHED"
      using m unfolding ack_move_def by auto
    then show ?thesis using wait by (blast intro: peer_closed)
  next
    case one
    then have "state p = TCP_STATE_FIN_WAIT_1" using m unfolding ack_move_def by auto
    then show ?thesis using one by (blast intro: both_closed)
  next
    case cross
    then have "state p = TCP_STATE_FIN_WAIT_1" using m unfolding ack_move_def by auto
    then show ?thesis using cross by (blast intro: crossing)
  next
    case two
    then have "state p = TCP_STATE_FIN_WAIT_2 \<or> state p = TCP_STATE_FIN_WAIT_1 \<and> fin_acked p3"
      using m st unfolding ack_move_def by auto
    then show ?thesis using two by (blast intro: peer_follows both_closed)
  qed
qed

lemma steps_transition:
  assumes "open_state (state p)"
  shows "transition s p (after (input_steps s p))"
proof (cases "accepted s p")
  case True
  show ?thesis
  proof (cases "input_ack s p")
    case (Return q)
    then show ?thesis using input_ack_move [where s = s and p = p] by (simp add: steps_accepted [OF True])
  next
    case (Continue p1)
    define p2 where "p2 = input_data s p1"
    define p3 where "p3 = after (input_fin s p2)"
    have "view (after (input_steps s p)) = view p3" unfolding steps_accepted [OF True] Continue p3_def p2_def
      by (cases "input_fin s (input_data s p1)") (simp_all add: input_keepalive_def)
    moreover have "transition s p p3"
    proof -
      have d: "snd_una p3 = snd_una p1" "snd_end p3 = snd_end p1" "snd_una p2 = snd_una p1" "snd_end p2 = snd_end p1"
        using dview_data [of s p1] dview_fin [of s p2] by (auto simp: dview_def p2_def p3_def)
      have "state p2 = state p1"
        using recv_data_frame(1) by (simp add: p2_def input_data_def split_beta Let_def sview_def)
      moreover have "ack_move s p p1" using input_ack_move [where s = s and p = p] Continue by simp
      moreover have "fin_acked p2 = fin_acked p1" "fin_acked p3 = fin_acked p1" using d by (simp_all add: fin_acked_def)
      ultimately show ?thesis using fin_transition [of s p p1 p2] d(1) unfolding p3_def by blast
    qed
    ultimately show ?thesis by (rule transition_view)
  qed
next
  case False
  then show ?thesis using steps_rejected [OF False assms] view_eqD(1) [OF view_ack_now]
    by (cases "resets s p") (auto simp: destroy_fields intro: stay reset)
qed

lemma input_transition:
  assumes "open_state (state p)"
  shows "transition s p (snd (tcp_input s p))"
proof -
  let ?p = "snd (parse_tcp_options (in_flags s) (in_options s) p)"
  note o = oview_parse [of "in_flags s" "in_options s" p]
  note v = view_eqD [OF oview_eqD(1) [OF o]]
  have t: "transition s ?p (after (input_steps s ?p))" using steps_transition assms v(1) by simp
  have "transition s p q" if "transition s ?p q" for q
    using that v resets_cong [OF o] by (auto simp: transition.simps)
  with t show ?thesis using assms v(1)
    by (auto simp: tcp_input_def split_beta open_state_def synchronized_def intro: stay)
qed

section \<open>A reset during the handshake\<close>

lemma frame_sock_error:
  "sock_error (sk (tcp_update_retransmit_queue p)) = sock_error (sk p)"
  "sock_error (sk (restart_keepalive p)) = sock_error (sk p)" "state (restart_keepalive p) = state p"
  by (simp_all add: tcp_update_retransmit_queue_def restart_keepalive_def split_beta Let_def set_sk_def emit_def)

lemma syn_sent_open_state:
  "state (syn_sent_open s p) = (if has (in_flags s) TCP_FLAG_ACK then TCP_STATE_ESTABLISHED else TCP_STATE_SYN_RECEIVED)"
  "sock_error (sk (syn_sent_open s p)) = sock_error (sk p)"
  by (simp_all add: syn_sent_open_def Let_def ack_now_def emit_def update_rtx_fields frame_sock_error)

lemma parse_no_options: "parse_tcp_options f [] p = (0, p)"
  by (simp add: parse_tcp_options_def) (subst parse_options_loop.simps, simp)

lemma destroy_error: "sock_error (sk (destroy_tcp_socket p)) = sock_error (sk p)"
  by (simp add: destroy_tcp_socket_def Let_def emit_def)

section \<open>Properties\<close>


definition fin_segment :: inseg where
  "fin_segment = \<lparr>in_seq = 50, in_ack = 0xFFFFFFFE, in_flags = TCP_FLAG_ACK OR TCP_FLAG_FIN, in_wnd = 6,
                  in_options = [], in_data = []\<rparr>"

definition peer_example :: tcp_pcb where
  "peer_example = flight_example\<lparr>state := TCP_STATE_ESTABLISHED, rcv_nxt := 50, rcv_wnd := 1000, snd_wl1 := 40\<rparr>"






text \<open>
  C39. \<open>tcp_process_syn_sent\<close> does not return after it has handled a reset: a reset closes the connection
  with ECONNREFUSED, with or without an acknowledgement, but when the segment also carries SYN the
  handler goes on and puts the closed, failed connection into ESTABLISHED or SYN-RECEIVED.
\<close>

theorem syn_sent_reset_revived:
  assumes "state p = TCP_STATE_SYN_SENT" "has (in_flags s) TCP_FLAG_RST" "in_options s = []"
    and "has (in_flags s) TCP_FLAG_ACK \<Longrightarrow> SEQ_GT (in_ack s) (snd_una p) \<and> SEQ_LEQ (in_ack s) (snd_nxt p)"
  defines "q \<equiv> snd (tcp_input s p)"
  shows "sock_error (sk q) = ECONNREFUSED \<and>
    state q = (if \<not> has (in_flags s) TCP_FLAG_SYN then TCP_STATE_CLOSED
               else if has (in_flags s) TCP_FLAG_ACK then TCP_STATE_ESTABLISHED else TCP_STATE_SYN_RECEIVED)"
proof -
  have "q = (if has (in_flags s) TCP_FLAG_SYN then syn_sent_open s (destroy_tcp_socket (set_error ECONNREFUSED p))
             else destroy_tcp_socket (set_error ECONNREFUSED p))"
    using assms(1-4) unfolding q_def
    by (auto simp: tcp_input_def tcp_process_syn_sent_def Let_def parse_no_options SEQ_LEQ_iff)
  then show ?thesis by (simp add: syn_sent_open_state destroy_error destroy_fields) (simp add: set_error_def set_sk_def)
qed

theorem syn_sent_reset_revived_witness:
  "state (snd (tcp_input \<lparr>in_seq = 9, in_ack = 6, in_flags = TCP_FLAG_SYN OR TCP_FLAG_ACK OR TCP_FLAG_RST, in_wnd = 6,
      in_options = [], in_data = []\<rparr> (pcb_blank\<lparr>state := TCP_STATE_SYN_SENT, snd_una := 5, snd_nxt := 6\<rparr>))) =
   TCP_STATE_ESTABLISHED"
proof -
  let ?s = "\<lparr>in_seq = 9, in_ack = 6, in_flags = TCP_FLAG_SYN OR TCP_FLAG_ACK OR TCP_FLAG_RST, in_wnd = 6,
      in_options = [], in_data = []\<rparr>"
  let ?p = "pcb_blank\<lparr>state := TCP_STATE_SYN_SENT, snd_una := 5, snd_nxt := 6\<rparr>"
  have f: "has (in_flags ?s) TCP_FLAG_RST" "has (in_flags ?s) TCP_FLAG_SYN" "has (in_flags ?s) TCP_FLAG_ACK"
    by (simp_all add: has_def TCP_FLAG_SYN_def TCP_FLAG_ACK_def TCP_FLAG_RST_def)
  moreover have "SEQ_GT (in_ack ?s) (snd_una ?p) \<and> SEQ_LEQ (in_ack ?s) (snd_nxt ?p)"
    by (simp add: SEQ_GT_def SEQ_LEQ_def)
  ultimately show ?thesis using syn_sent_reset_revived [of ?p ?s] by simp
qed

end
