(* ===== verification/TcpOptions.thy ===== *)
theory TcpOptions
  imports TcpIn
begin

text \<open>
  The TCP options of \<open>make_tcp_options\<close> and \<open>parse_tcp_options\<close>: what one end writes into a SYN is
  what the other end reads, and the timestamp check against old duplicates.
\<close>

lemma option_loop_steps:
  "parse_options_loop hs f (1 # rest) p = parse_options_loop hs f rest p"
  "parse_options_loop hs f [] p = (0, p)"
  "parse_options_loop True f (2 # 4 # a # b # rest) p = parse_options_loop True f rest (parse_mss (a # b # rest) p)"
  "parse_options_loop True f (3 # 3 # a # rest) p = parse_options_loop True f rest (parse_wscale (a # rest) p)"
  "parse_options_loop hs f (8 # 10 # a # b # c # d # e # g # h # i # rest) p =
     (case parse_timestamps f (a # b # c # d # e # g # h # i # rest) p of
        (r, p) \<Rightarrow> if r < 0 then (r, p) else parse_options_loop hs f rest p)"
  by (subst parse_options_loop.simps; simp)+

lemma parse_mss_bytes:
  "parse_mss (bytes_of_u16 (htons m) @ rest) p =
     (if m < 64 then p else p\<lparr>peer_mss := ucast m, snd_mss := min (ucast m) (rcv_mss p), peer_mss_ok := True\<rparr>)"
  by (simp add: parse_mss_def bytes_of_u16_def Let_def)

lemma parse_timestamps_bytes:
  "parse_timestamps f (bytes_of_u32 (htonl v) @ bytes_of_u32 (htonl e) @ rest) p =
     (if peer_ts_ok p \<and> v < ts_recent p then (- 1, p)
      else (0, (if has f TCP_FLAG_SYN then p\<lparr>peer_ts_ok := True\<rparr> else p)\<lparr>ts_recent := v, ts_last_tsecr := e\<rparr>))"
proof -
  have "drop 4 (bytes_of_u32 (htonl v) @ bytes_of_u32 (htonl e) @ rest) = bytes_of_u32 (htonl e) @ rest"
    by (simp add: bytes_of_u32_def)
  then show ?thesis by (simp add: parse_timestamps_def Let_def)
qed

lemma loop_mss:
  "parse_options_loop True f (2 # 4 # bytes_of_u16 (htons m) @ rest) p =
     parse_options_loop True f rest (parse_mss (bytes_of_u16 (htons m) @ rest) p)"
  by (simp add: bytes_of_u16_def option_loop_steps)

lemma loop_timestamps:
  "parse_options_loop hs f (8 # 10 # bytes_of_u32 (htonl v) @ bytes_of_u32 (htonl e) @ rest) p =
     (case parse_timestamps f (bytes_of_u32 (htonl v) @ bytes_of_u32 (htonl e) @ rest) p of
        (r, p) \<Rightarrow> if r < 0 then (r, p) else parse_options_loop hs f rest p)"
  by (simp add: bytes_of_u32_def option_loop_steps)

text \<open>The option bytes of a SYN.\<close>

lemma syn_option_bytes:
  assumes "has f TCP_FLAG_SYN"
  shows "fst (make_tcp_options f p) =
    2 # 4 # bytes_of_u16 (htons (ucast (rcv_mss p))) @
    (if tcp_should_send_window_scale p f then [1, 3, 3, 6] else [1, 1, 1, 1]) @
    (if peer_ts_ok p then 8 # 10 # bytes_of_u32 (htonl (of_nat (now p))) @ bytes_of_u32 (htonl (ts_recent p)) @ [1, 1]
     else [])"
proof -
  have "replicate 4 (1 :: u8) = [1, 1, 1, 1]" "replicate 2 (1 :: u8) = [1, 1]" by (simp_all add: numeral_eq_Suc)
  moreover have "length (bytes_of_u16 x) = 2" "length (bytes_of_u32 y) = 4" for x y
    by (simp_all add: bytes_of_u16_def bytes_of_u32_def)
  ultimately show ?thesis using assms
    by (cases "tcp_should_send_window_scale p f"; cases "peer_ts_ok p")
      (simp_all add: make_tcp_options_def option_bytes_def syn_options_def timestamp_option_def Let_def
        tcp_predict_options_len_def TCP_RCV_WND_SCALE_DEFAULT_def)
qed

lemma mss_fits:
  "unat (w :: u32) < 65536 \<Longrightarrow> ucast (ucast w :: u16) = w"
  "64 \<le> unat (w :: u32) \<Longrightarrow> unat w < 65536 \<Longrightarrow> \<not> (ucast w :: u16) < 64"
  by (simp_all add: word_unat_eq_iff word_less_nat_alt unsigned_ucast_eq take_bit_nat_eq_self unat_take_bit_word)

section \<open>Properties\<close>

text \<open>
  C37. The options one end puts into a SYN or SYN-ACK are exactly as long as \<open>tcp_predict_options_len\<close>
  says, and the other end, in its handshake, reads from them the sender's MSS, its window scale when
  it was offered and its timestamps when they are in use, and computes the effective MSS as the
  minimum of both.
\<close>

theorem syn_options_roundtrip:
  assumes "has f TCP_FLAG_SYN" "state b = TCP_STATE_SYN_SENT \<or> state b = TCP_STATE_SYN_RECEIVED" "\<not> peer_ts_ok b"
    and "64 \<le> unat (rcv_mss a)" "unat (rcv_mss a) < 65536"
  defines "opt \<equiv> fst (make_tcp_options f a)"
  defines "q \<equiv> snd (parse_tcp_options f opt b)"
  shows "length opt = tcp_predict_options_len a f \<and> fst (parse_tcp_options f opt b) = 0 \<and>
    peer_mss q = rcv_mss a \<and> snd_mss q = min (rcv_mss a) (rcv_mss b) \<and> peer_mss_ok q \<and>
    (tcp_should_send_window_scale a f \<longrightarrow> snd_wnd_scale q = 6 \<and> peer_wnd_scale_ok q) \<and>
    (\<not> tcp_should_send_window_scale a f \<longrightarrow> peer_wnd_scale_ok q = peer_wnd_scale_ok b) \<and>
    (peer_ts_ok q \<longleftrightarrow> peer_ts_ok a) \<and>
    (peer_ts_ok a \<longrightarrow> ts_recent q = of_nat (now a) \<and> ts_last_tsecr q = ts_recent a)"
proof -
  let ?l = "parse_options_loop True f opt b"
  have c: "peer_mss (tcp_congestion_mss_changed x) = peer_mss x" "snd_mss (tcp_congestion_mss_changed x) = snd_mss x"
    "peer_mss_ok (tcp_congestion_mss_changed x) = peer_mss_ok x" "snd_wnd_scale (tcp_congestion_mss_changed x) = snd_wnd_scale x"
    "peer_wnd_scale_ok (tcp_congestion_mss_changed x) = peer_wnd_scale_ok x" "peer_ts_ok (tcp_congestion_mss_changed x) = peer_ts_ok x"
    "ts_recent (tcp_congestion_mss_changed x) = ts_recent x" "ts_last_tsecr (tcp_congestion_mss_changed x) = ts_last_tsecr x" for x
    by (simp_all add: tcp_congestion_mss_changed_def tcp_congestion_init_def tcp_cubic_reset_def Let_def)
  have l: "length opt = tcp_predict_options_len a f"
    using assms(1) by (simp add: opt_def syn_option_bytes tcp_predict_options_len_def bytes_of_u16_def bytes_of_u32_def)
  have "fst ?l = 0 \<and> peer_mss (snd ?l) = rcv_mss a \<and> snd_mss (snd ?l) = min (rcv_mss a) (rcv_mss b) \<and> peer_mss_ok (snd ?l) \<and>
    (tcp_should_send_window_scale a f \<longrightarrow> snd_wnd_scale (snd ?l) = 6 \<and> peer_wnd_scale_ok (snd ?l)) \<and>
    (\<not> tcp_should_send_window_scale a f \<longrightarrow> peer_wnd_scale_ok (snd ?l) = peer_wnd_scale_ok b) \<and>
    (peer_ts_ok (snd ?l) \<longleftrightarrow> peer_ts_ok a) \<and>
    (peer_ts_ok a \<longrightarrow> ts_recent (snd ?l) = of_nat (now a) \<and> ts_last_tsecr (snd ?l) = ts_recent a)"
    using assms(1,3) mss_fits [of "rcv_mss a"] assms(4,5) unfolding opt_def
    by (cases "tcp_should_send_window_scale a f"; cases "peer_ts_ok a")
      (simp_all add: syn_option_bytes loop_mss loop_timestamps option_loop_steps parse_mss_bytes parse_timestamps_bytes
        parse_wscale_def)
  then show ?thesis using l assms(1,2) unfolding q_def by (simp add: parse_tcp_options_def split_beta Let_def c)
qed

definition syn_sender :: tcp_pcb where
  "syn_sender = pcb_blank\<lparr>rcv_mss := 1460, now := 77\<rparr>"

definition syn_receiver :: tcp_pcb where
  "syn_receiver = pcb_blank\<lparr>state := TCP_STATE_SYN_RECEIVED, rcv_mss := 1400, snd_mss := 536\<rparr>"

theorem syn_options_roundtrip_witness:
  "snd_mss (snd (parse_tcp_options TCP_FLAG_SYN (fst (make_tcp_options TCP_FLAG_SYN syn_sender)) syn_receiver)) = 1400"
proof -
  have "has TCP_FLAG_SYN TCP_FLAG_SYN" by (simp add: has_def TCP_FLAG_SYN_def)
  then show ?thesis using syn_options_roundtrip [of TCP_FLAG_SYN syn_receiver syn_sender]
    by (simp add: syn_sender_def syn_receiver_def pcb_blank_def)
qed

text \<open>
  C40. The check against old duplicates compares timestamps as plain numbers: when the peer's clock
  wraps past \<open>2^32\<close>, its segments carry timestamps that are newer in sequence order but numerically
  smaller than \<open>ts_recent\<close>, and every such segment is dropped without any effect.
\<close>

theorem paws_drops_after_wrap:
  assumes "in_options s = 8 # 10 # bytes_of_u32 (htonl v) @ bytes_of_u32 (htonl e) @ rest"
    and "peer_ts_ok p" "v < ts_recent p" "SEQ_GT v (ts_recent p)"
    and "state p \<noteq> TCP_STATE_CLOSED" "state p \<noteq> TCP_STATE_SYN_SENT"
  shows "tcp_input s p = (0, p)"
  using assms
  by (simp add: tcp_input_def parse_tcp_options_def split_beta Let_def loop_timestamps parse_timestamps_bytes)

theorem paws_drops_after_wrap_witness:
  "tcp_input \<lparr>in_seq = 1, in_ack = 1, in_flags = TCP_FLAG_ACK, in_wnd = 500,
     in_options = 8 # 10 # bytes_of_u32 (htonl 5) @ bytes_of_u32 (htonl 9) @ [1, 1], in_data = [65]\<rparr>
     (pcb_blank\<lparr>state := TCP_STATE_ESTABLISHED, peer_ts_ok := True, ts_recent := 0xFFFFFFF0, rcv_nxt := 1\<rparr>) =
   (0, pcb_blank\<lparr>state := TCP_STATE_ESTABLISHED, peer_ts_ok := True, ts_recent := 0xFFFFFFF0, rcv_nxt := 1\<rparr>)"
proof -
  have "SEQ_GT 5 (0xFFFFFFF0 :: u32)" by (simp add: SEQ_GT_def)
  then show ?thesis by (intro paws_drops_after_wrap [where v = 5 and e = 9 and rest = "[1, 1]"]) simp_all
qed

end
