(* ===== verification/Spec2Isabelle.thy ===== *)
theory Spec2Isabelle
  imports Checksum Sync PacketSystem TimerPass DList HashTable Trie Interface Route TcpRecv TcpStates TcpOptions
begin

text \<open>
  NetFast, a TCP/IP stack in user space on AF_XDP sockets: a verification library for its sources under
  \<^verbatim>\<open>src/lib\<close> and \<^verbatim>\<open>src/main\<close>.

  \<^bold>\<open>The program.\<close> Each worker thread owns a stack. Frames of a shared memory area are cut into slots by a frame
  cache; packets (\<^verbatim>\<open>skbuff\<close>) are chains of windows onto slots, shared by reference counts. A packet that arrives
  goes through the link and IP layers to the socket of its flow; TCP keeps a control block per connection, with a
  send queue, a retransmission queue and a reorder list, several deadlines multiplexed on one timer task, and
  CUBIC congestion control. Outgoing packets are routed by a longest-prefix search in a bit trie, their source
  address chosen from the interface table, the neighbor resolved by ARP or NDP. Intrusive lists, queues and hash
  tables, reference counts and locks are shared by all parts.

  \<^bold>\<open>Conventions.\<close> A \<^verbatim>\<open>uintN_t\<close> is an \<open>N\<close>-bit word where wrap-around can happen, a natural number where the code
  cannot leave the range (buffer offsets, counters of list elements). A C function that changes an object through
  a pointer takes the object and returns it; where aliasing matters (lists, hash chains, frame slots) the objects
  live in a heap that the functions thread. Functions of the C library and the kernel that can fail are lists of
  outcomes in the state (\<open>malloc\<close>, the send function of the IP layer); clocks are arguments or fields. Loops are
  recursive functions with a termination proof; a pointer walk that an ill-formed heap could send round in circles
  is a \<open>partial_function\<close> into \<open>option\<close>, and its lemmas show that it returns.

  \<^bold>\<open>The theories.\<close>

  \<^item> \<open>Prelude\<close>: integer types, bytes of integers, facts on words and lists.

  \<^item> \<open>Checksum\<close> (\<^verbatim>\<open>lib/base.c\<close>): \<open>checksum_partial\<close>, \<open>checksum\<close>, \<open>checksum_protocol\<close>. The accumulator does not wrap;
  a segment filled with its checksum is accepted.

  \<^item> \<open>Sync\<close> (\<^verbatim>\<open>lib/base.h\<close>): reference counts and the spinning reader/writer lock, a step relation per atomic
  operation. Objects are freed once and never while referenced; writers exclude everybody.

  \<^item> \<open>DList\<close> (\<^verbatim>\<open>lib/list.c\<close>, the intrusive queues of \<^verbatim>\<open>lib/queue.c\<close>) and \<open>HashTable\<close> (\<^verbatim>\<open>lib/hash.c\<close>): pointer
  structures on a heap that represent lists and finite maps; the operations implement the abstract ones and end.
  The locales \<open>cmp_order\<close>, \<open>node_queue\<close> and \<open>key_table\<close> are their interfaces.

  \<^item> \<open>Trie\<close> (\<^verbatim>\<open>lib/trie.c\<close>): the bit trie, with the locale \<open>lpm_table\<close> of a longest-prefix table.

  \<^item> \<open>Interface\<close> (\<^verbatim>\<open>main/if.c\<close>) and \<open>Route\<close> (\<^verbatim>\<open>main/route_arp_ndp.c\<close>): interface table and source selection;
  routing and neighbor tables on top of the trie interface, lookups and the events that change them.

  \<^item> \<open>FrameRing\<close> and \<open>FrameCache\<close> (\<^verbatim>\<open>lib/frame_cache.c\<close>, the frame pool of \<^verbatim>\<open>lib/xdp.c\<close>): rings with a sequence
  number per slot, which implement the locale \<open>bounded_queue\<close>; the slot allocator, whose free pool holds exactly the
  frames nobody uses.

  \<^item> \<open>Skbuff\<close>, \<open>Packets\<close>, \<open>PacketSystem\<close> (\<^verbatim>\<open>main/skbuff.c\<close>): packets on frame slots. \<open>Skbuff\<close> has the operations,
  \<open>Packets\<close> what each does to the bytes and the references, \<open>PacketSystem\<close> the invariant of any number of packets
  under any sequence of operations with any allocation failures.

  \<^item> \<open>TimerWheel\<close> and \<open>TimerPass\<close> (\<^verbatim>\<open>lib/thread.c\<close>): tasks, the two-level timing wheel and the passes over the timers,
  with callbacks as a parameter. Timers fire at the first pass at or after their deadline; passes end. The locale
  \<open>alarm_service\<close> is the interface; below it meets the timers of TCP.

  \<^item> \<open>TcpBase\<close> (control block, timers, windows), \<open>TcpCong\<close> (\<^verbatim>\<open>main/tcp_congestion.c\<close>, \<^verbatim>\<open>main/tcp_metrics.c\<close>), \<open>TcpOut\<close>
  and \<open>TcpIn\<close> (the output and input halves of \<^verbatim>\<open>main/tcp.c\<close>): the model. The locale \<open>deadline_mux\<close> is the interface of the
  timer multiplexer.

  \<^item> \<open>TcpSend\<close>, \<open>TcpRecv\<close>, \<open>TcpStates\<close>, \<open>TcpOptions\<close>: sending keeps one contiguous stream inside both windows and
  never stalls without a timer; receiving delivers the peer's stream; a segment moves the connection only along
  the state diagram and blind segments change nothing; options survive a round trip.

  \<^bold>\<open>Bounds.\<close> Lengths of packets and queues are below \<open>2 ^ 31\<close> where sequence numbers are compared, as TCP itself
  assumes; each theorem states the bound it needs. No fuel is used.

  \<^bold>\<open>Not modelled.\<close> System calls and set-up (AF_XDP rings, netlink socket, epoll, start-up, logging), the eBPF
  program, the link, IP, ICMP and UDP layers, the request objects between user threads and workers, the socket
  tables, the listening state of TCP and the user calls of TCP. Interleavings inside one call of the frame
  cache's shared ring are not modelled; the reference counts and the lock are. In a packet the references to
  interface, route and socket are not counted.
\<close>

section \<open>TCP timers on the timing wheel\<close>

lemma pcb_timers_inv: "timer_inv (fold (\<lambda>(k, d, ov). tcp_update_timer k d ov) sets pcb_blank)"
  by (rule tcp_timers.set_many) (simp add: timer_inv_def earliest_def pcb_blank_def)



end
